(* ===== verification/Prelude.thy ===== *)
theory Prelude
  imports Main "HOL-Library.Word"
begin

unbundle bit_operations_syntax

text \<open>
  Shared vocabulary of the development: the machine types of the C++ code, the named
  collections the component theories extend, and the generic facts on lists, words and
  little-endian byte sequences that several components use.

  A C++ \<open>char\<close> buffer, a \<open>std::string\<close> and a \<open>Slice\<close> are all lists of bytes; a pointer into a
  buffer together with its limit is the list of the bytes between the two.
\<close>

type_synonym byte = "8 word"
type_synonym u32 = "32 word"
type_synonym u64 = "64 word"
type_synonym slice = "byte list"

named_theorems coding_simps \<open>encoders followed by the matching decoder\<close>
named_theorems size_simps \<open>lengths of encodings\<close>
named_theorems invar_intros \<open>operations that keep a component invariant\<close>

section \<open>Literals\<close>

text \<open>The bytes of a C string literal.\<close>

definition str :: "string \<Rightarrow> slice" where
  "str s = map of_char s"

lemma length_str [simp]: "length (str s) = length s"
  by (simp add: str_def)

lemma str_Nil [simp]: "str [] = []"
  by (simp add: str_def)

lemma str_Cons [simp]: "str (c # s) = of_char c # str s"
  by (simp add: str_def)

section \<open>Lists\<close>

lemma drop_length_append [simp]: "drop (length xs) (xs @ ys) = ys"
  by simp

lemma take_length_append [simp]: "take (length xs) (xs @ ys) = xs"
  by simp

lemma take_drop_append_eq: "length xs = n \<Longrightarrow> take n (xs @ ys) = xs \<and> drop n (xs @ ys) = ys"
  by simp

lemma list_update_append_left: "i < length xs \<Longrightarrow> (xs @ ys)[i := v] = xs[i := v] @ ys"
  by (simp add: list_update_append)

lemma foldl_append_concat: "foldl (\<lambda>acc x. acc @ f x) xs ys = xs @ concat (map f ys)"
  by (induction ys arbitrary: xs) auto

lemma sorted_wrt_nthD: "sorted_wrt P xs \<Longrightarrow> i < j \<Longrightarrow> j < length xs \<Longrightarrow> P (xs ! i) (xs ! j)"
  by (simp add: sorted_wrt_iff_nth_less)

lemma filter_dropWhile_sorted:
  assumes "sorted_wrt (\<lambda>x y. P y \<longrightarrow> P x) xs"
  shows "dropWhile P xs = filter (\<lambda>x. \<not> P x) xs"
  using assms by (induction xs) (auto simp: filter_id_conv)

lemma filter_takeWhile_sorted:
  assumes "sorted_wrt (\<lambda>x y. P y \<longrightarrow> P x) xs"
  shows "takeWhile P xs = filter P xs"
  using assms by (induction xs) (auto simp: filter_empty_conv)

section \<open>Words\<close>

lemma unat_word_of_nat_small: "n < 2 ^ LENGTH('a::len) \<Longrightarrow> unat (word_of_nat n :: 'a word) = n"
  by (simp add: unat_of_nat)

lemma unat_eq_imp_word_of_nat: "unat w = n \<Longrightarrow> w = word_of_nat n"
  by auto

lemma unat_ucast_mod: "unat (ucast (x :: 'a::len word) :: 'b::len word) = unat x mod 2 ^ LENGTH('b)"
  by (simp add: unsigned_ucast_eq unsigned_take_bit_eq take_bit_eq_mod)

lemma unat_less_exp: "unat (x :: 'a::len word) < 2 ^ LENGTH('a)"
  by (rule unsigned_less)

lemma unat_ucast_up: "LENGTH('a::len) \<le> LENGTH('b::len) \<Longrightarrow> unat (ucast (x :: 'a word) :: 'b word) = unat x"
  by (simp add: unsigned_ucast_eq unsigned_take_bit_eq take_bit_nat_eq_self less_le_trans [OF unat_less_exp])

lemma unat_take_bit: "unat (take_bit n (x :: 'a::len word)) = unat x mod 2 ^ n"
  by (subst unsigned_take_bit_eq) (rule take_bit_eq_mod)

lemma unat_drop_bit: "unat (drop_bit n (x :: 'a::len word)) = unat x div 2 ^ n"
  by (subst unsigned_drop_bit_eq) (simp only: drop_bit_eq_div take_bit_nat_eq_self [OF unat_less_exp])

lemma unat_and_mask: "unat (x AND mask n :: 'a::len word) = unat x mod 2 ^ n"
  by (simp add: unat_take_bit flip: take_bit_eq_mask)

lemma or_eq_plus_disjoint:
  fixes a b :: "'a::len word"
  assumes "a AND b = 0"
  shows "a OR b = a + b"
  using assms by (simp add: disjunctive_add_eq_or)

text \<open>
  Or-ing a value shifted by \<open>s\<close> onto an accumulator that uses only its low \<open>s\<close> bits is an
  addition; with unbounded naturals on the right this is the step of every varint decoder.
\<close>

lemma unat_or_push_bit:
  fixes r b :: "'a::len word"
  assumes "unat r < 2 ^ s" "unat r + unat b * 2 ^ s < 2 ^ LENGTH('a)"
  shows "unat (r OR push_bit s b) = unat r + unat b * 2 ^ s"
proof -
  have "take_bit s r = r"
    using assms(1) by (simp add: word_unat_eq_iff unat_take_bit)
  then have "bit r n \<Longrightarrow> n < s" for n
    by (metis bit_take_bit_iff)
  then have "r AND push_bit s b = 0"
    by (intro bit_word_eqI) (auto simp: bit_simps dest: leD)
  then have "r OR push_bit s b = r + b * 2 ^ s"
    by (simp add: or_eq_plus_disjoint push_bit_eq_mult)
  moreover have "r + b * 2 ^ s = word_of_nat (unat r + unat b * 2 ^ s)"
    by simp
  ultimately show ?thesis
    using assms(2) by (simp only: unat_word_of_nat_small)
qed

text \<open>The bit masks the code writes as hexadecimal or decimal literals.\<close>

lemma mask_literals:
  "(127 :: 'a::len word) = mask 7" "(255 :: 'a word) = mask 8"
  by (simp_all add: mask_eq_exp_minus_1)

lemma and_literals:
  "(x :: 'a::len word) AND 127 = take_bit 7 x" "x AND 255 = take_bit 8 x"
  by (simp_all add: mask_literals take_bit_eq_mask)

lemma and_128_eq_0: "(x :: 'a::len word) AND 128 = 0 \<longleftrightarrow> \<not> bit x 7"
  using and_exp_eq_0_iff_not_bit [of x 7] by simp

lemma bit_128: "bit (128 :: int) n \<longleftrightarrow> n = 7"
  using bit_exp_iff [where ?'a = int and m = 7 and n = n] by (auto simp: possible_bit_def)

lemma bit_word_unat: "bit (x :: 'a::len word) n \<longleftrightarrow> odd (unat x div 2 ^ n)"
proof -
  have "bit x n = bit (unat x) n"
    using bit_imp_le_length [of x n] by (auto simp: bit_unsigned_iff)
  then show ?thesis by (simp add: bit_iff_odd)
qed

lemma not_bit_of_unat_less: "unat (x :: 'a::len word) < 2 ^ n \<Longrightarrow> \<not> bit x n"
  by (simp add: bit_word_unat)

section \<open>Decimal numbers\<close>

text \<open>The digits that the \<open>printf\<close> conversions \<open>%d\<close> and \<open>%llu\<close> print.\<close>

fun dec_nat :: "nat \<Rightarrow> slice" where
  "dec_nat n = (if n < 10 then [word_of_nat (48 + n)] else dec_nat (n div 10) @ [word_of_nat (48 + n mod 10)])"

declare dec_nat.simps [simp del]

definition dec_int :: "int \<Rightarrow> slice" where
  "dec_int i = (if i < 0 then str ''-'' @ dec_nat (nat (- i)) else dec_nat (nat i))"

section \<open>Little-endian byte sequences\<close>

fun le_bytes :: "nat \<Rightarrow> 'a::len word \<Rightarrow> slice" where
  "le_bytes 0 v = []"
| "le_bytes (Suc n) v = ucast v # le_bytes n (drop_bit 8 v)"

fun le_word :: "slice \<Rightarrow> 'a::len word" where
  "le_word [] = 0"
| "le_word (b # bs) = ucast b OR push_bit 8 (le_word bs)"

lemma length_le_bytes [simp]: "length (le_bytes n v) = n"
  by (induction n arbitrary: v) auto

lemma le_word_le_bytes: "le_word (le_bytes n v) = (take_bit (8 * n) v :: 'a::len word)"
proof (induction n arbitrary: v)
  case 0
  then show ?case by simp
next
  case (Suc n)
  show ?case
    unfolding le_bytes.simps le_word.simps Suc.IH
    by (rule bit_word_eqI) (auto simp: bit_simps not_less)
qed

lemma le_word_le_bytes_full: "8 * n = LENGTH('a) \<Longrightarrow> le_word (le_bytes n v) = (v :: 'a::len word)"
  by (simp add: le_word_le_bytes take_bit_word_eq_self)

lemma nth_le_bytes: "i < n \<Longrightarrow> le_bytes n v ! i = ucast (drop_bit (8 * i) v)"
proof (induction n arbitrary: v i)
  case (Suc n)
  then show ?case by (cases i) (auto simp: drop_bit_drop_bit add.commute)
qed simp

lemma bit_le_word:
  "bit (le_word bs :: 'a::len word) k \<longleftrightarrow> k < LENGTH('a) \<and> k div 8 < length bs \<and> bit (bs ! (k div 8)) (k mod 8)"
proof (induction bs arbitrary: k)
  case Nil
  then show ?case by simp
next
  case (Cons b bs)
  show ?case
  proof (cases "k < 8")
    case True
    then show ?thesis by (auto simp: bit_simps)
  next
    case False
    then have "k div 8 = Suc ((k - 8) div 8)" "k mod 8 = (k - 8) mod 8"
      by (auto simp: le_div_geq le_mod_geq)
    then show ?thesis using False by (auto simp: bit_simps Cons dest: bit_imp_le_length)
  qed
qed

lemma le_bytes_le_word:
  assumes "length bs = n" "8 * n \<le> LENGTH('a::len)"
  shows "le_bytes n (le_word bs :: 'a word) = bs"
proof (rule nth_equalityI)
  fix i assume "i < length (le_bytes n (le_word bs :: 'a word))"
  then have i: "i < n" by simp
  show "le_bytes n (le_word bs :: 'a word) ! i = bs ! i"
  proof (rule bit_word_eqI)
    fix j assume "j < LENGTH(8)"
    with i assms show "bit (le_bytes n (le_word bs :: 'a word) ! i) j = bit (bs ! i) j"
      by (auto simp: nth_le_bytes bit_simps bit_le_word)
  qed
qed (use assms in simp)

end
