(* ===== verification/Comparators.thy ===== *)
theory Comparators
  imports Prelude
begin

text \<open>
  Slices and their order: \<^verbatim>\<open>include/leveldb/slice.h\<close> and \<^verbatim>\<open>util/comparator.cpp\<close>. A \<open>Comparator\<close>
  object is a record of its virtual methods. The locale \<open>three_way\<close> is what the search and merge
  loops of the other components rely on, a total preorder given by the sign of a three-way
  comparison; the locale \<open>comparator\<close> adds the contract of the two key-shortening methods
  (\<^verbatim>\<open>include/leveldb/comparator.h\<close>), and \<open>BytewiseComparator\<close> is shown to satisfy it.
\<close>

section \<open>Slices\<close>

text \<open>\<open>memcmp\<close> of the first \<open>n\<close> bytes; only the sign of its result is used.\<close>

fun memcmp :: "slice \<Rightarrow> slice \<Rightarrow> nat \<Rightarrow> int" where
  "memcmp (x # xs) (y # ys) (Suc n) = (if x < y then -1 else if y < x then 1 else memcmp xs ys n)"
| "memcmp xs ys n = 0"

definition starts_with :: "slice \<Rightarrow> slice \<Rightarrow> bool" where
  "starts_with s x \<longleftrightarrow> length x \<le> length s \<and> memcmp s x (length x) = 0"

definition Slice_eq :: "slice \<Rightarrow> slice \<Rightarrow> bool" where
  "Slice_eq x y \<longleftrightarrow> length x = length y \<and> memcmp x y (length x) = 0"

definition Slice_compare :: "slice \<Rightarrow> slice \<Rightarrow> int" where
  "Slice_compare a b =
     (let min_len = (if length a < length b then length a else length b);
          r = memcmp a b min_len
      in if r = 0 then
           if length a < length b then -1
           else if length b < length a then 1 else r
         else r)"

section \<open>The bytewise comparator\<close>

record comparator =
  Name :: slice
  Compare :: "slice \<Rightarrow> slice \<Rightarrow> int"
  FindShortestSeparator :: "slice \<Rightarrow> slice \<Rightarrow> slice"
  FindShortSuccessor :: "slice \<Rightarrow> slice"

function diff_index_loop :: "slice \<Rightarrow> slice \<Rightarrow> nat \<Rightarrow> nat \<Rightarrow> nat" where
  "diff_index_loop start limit min_length diff_index =
     (if diff_index < min_length \<and> start ! diff_index = limit ! diff_index
      then diff_index_loop start limit min_length (diff_index + 1)
      else diff_index)"
  by pat_completeness auto
termination
  by (relation "measure (\<lambda>(start, limit, min_length, i). min_length - i)") auto

definition bytewise_FindShortestSeparator :: "slice \<Rightarrow> slice \<Rightarrow> slice" where
  "bytewise_FindShortestSeparator start limit =
     (let min_length = min (length start) (length limit);
          diff_index = diff_index_loop start limit min_length 0
      in if diff_index \<ge> min_length then start
         else let diff_byte = start ! diff_index in
           if diff_byte < 0xff \<and> unat diff_byte + 1 < unat (limit ! diff_index)
           then take (diff_index + 1) (start[diff_index := diff_byte + 1])
           else start)"

function succ_loop :: "slice \<Rightarrow> nat \<Rightarrow> slice" where
  "succ_loop key i =
     (if i < length key then
        let byte = key ! i in
        if byte \<noteq> 0xff then take (i + 1) (key[i := byte + 1]) else succ_loop key (i + 1)
      else key)"
  by pat_completeness auto
termination
  by (relation "measure (\<lambda>(key, i). length key - i)") auto

definition bytewise_FindShortSuccessor :: "slice \<Rightarrow> slice" where
  "bytewise_FindShortSuccessor key = succ_loop key 0"

definition BytewiseComparator :: comparator where
  "BytewiseComparator =
     \<lparr>Name = str ''leveldb.BytewiseComparator'',
      Compare = Slice_compare,
      FindShortestSeparator = bytewise_FindShortestSeparator,
      FindShortSuccessor = bytewise_FindShortSuccessor\<rparr>"

declare diff_index_loop.simps [simp del] succ_loop.simps [simp del]

section \<open>Three-way comparison as an interface\<close>

locale three_way =
  fixes cmp :: "'k \<Rightarrow> 'k \<Rightarrow> int"
  assumes cmp_flip: "0 < cmp a b \<longleftrightarrow> cmp b a < 0"
    and cmp_le_trans: "cmp a b \<le> 0 \<Longrightarrow> cmp b c \<le> 0 \<Longrightarrow> cmp a c \<le> 0"
begin

lemma cmp_refl [simp]: "cmp a a = 0"
  using cmp_flip [of a a] by linarith

lemma cmp_le_flip: "0 \<le> cmp a b \<longleftrightarrow> cmp b a \<le> 0"
  using cmp_flip [of b a] by linarith

lemma cmp_eq_flip: "cmp a b = 0 \<longleftrightarrow> cmp b a = 0"
  using cmp_flip [of a b] cmp_flip [of b a] by linarith

lemma cmp_total: "cmp a b \<le> 0 \<or> cmp b a \<le> 0"
  using cmp_flip [of a b] by linarith

lemma cmp_less_le_trans: "cmp a b < 0 \<Longrightarrow> cmp b c \<le> 0 \<Longrightarrow> cmp a c < 0"
  using cmp_le_trans [of b c a] cmp_le_trans [of a b c] cmp_flip [of b a] cmp_le_flip [of a c] by linarith

lemma cmp_le_less_trans: "cmp a b \<le> 0 \<Longrightarrow> cmp b c < 0 \<Longrightarrow> cmp a c < 0"
  using cmp_le_trans [of c a b] cmp_le_trans [of a b c] cmp_flip [of c b] cmp_le_flip [of a c] by linarith

lemma cmp_less_trans: "cmp a b < 0 \<Longrightarrow> cmp b c < 0 \<Longrightarrow> cmp a c < 0"
  using cmp_less_le_trans [of a b c] by linarith

lemma cmp_eq_trans: "cmp a b = 0 \<Longrightarrow> cmp b c = 0 \<Longrightarrow> cmp a c = 0"
  using cmp_le_trans [of a b c] cmp_le_trans [of c b a] cmp_eq_flip [of a b] cmp_eq_flip [of b c]
    cmp_le_flip [of a c] by linarith

lemma cmp_eq_cong: "cmp a b = 0 \<Longrightarrow> cmp a c < 0 \<longleftrightarrow> cmp b c < 0"
  using cmp_le_less_trans [of a b c] cmp_le_less_trans [of b a c] cmp_eq_flip [of a b] by linarith

lemma cmp_eq_cong_right: "cmp a b = 0 \<Longrightarrow> cmp c a < 0 \<longleftrightarrow> cmp c b < 0"
  using cmp_less_le_trans [of c a b] cmp_less_le_trans [of c b a] cmp_eq_flip [of a b] by linarith

text \<open>In a sequence sorted by \<open>cmp\<close> the keys below a target form a prefix.\<close>

lemma sorted_less_prefix:
  assumes "sorted_wrt (\<lambda>a b. cmp a b \<le> 0) ks"
  shows "takeWhile (\<lambda>k. cmp k t < 0) ks = filter (\<lambda>k. cmp k t < 0) ks"
    and "dropWhile (\<lambda>k. cmp k t < 0) ks = filter (\<lambda>k. 0 \<le> cmp k t) ks"
proof -
  have mono: "sorted_wrt (\<lambda>a b. cmp b t < 0 \<longrightarrow> cmp a t < 0) ks"
    using assms by (rule sorted_wrt_mono_rel [rotated]) (blast intro: cmp_le_less_trans)
  show "takeWhile (\<lambda>k. cmp k t < 0) ks = filter (\<lambda>k. cmp k t < 0) ks"
    using mono by (induction ks) (auto simp: filter_empty_conv)
  show "dropWhile (\<lambda>k. cmp k t < 0) ks = filter (\<lambda>k. 0 \<le> cmp k t) ks"
    using mono by (induction ks) (auto simp: filter_id_conv not_less)
qed

end

locale comparator_laws =
  fixes c :: "('m) comparator_scheme" and valid :: "slice \<Rightarrow> bool"
  assumes flip: "0 < Compare c a b \<longleftrightarrow> Compare c b a < 0"
    and le_trans: "Compare c x y \<le> 0 \<Longrightarrow> Compare c y z \<le> 0 \<Longrightarrow> Compare c x z \<le> 0"
    and separator: "valid a \<Longrightarrow> valid b \<Longrightarrow> Compare c a b < 0 \<Longrightarrow>
      valid (FindShortestSeparator c a b) \<and>
      Compare c a (FindShortestSeparator c a b) \<le> 0 \<and> Compare c (FindShortestSeparator c a b) b < 0"
    and successor: "valid a \<Longrightarrow> valid (FindShortSuccessor c a) \<and> Compare c a (FindShortSuccessor c a) \<le> 0"

sublocale comparator_laws \<subseteq> three_way "Compare c"
  by unfold_locales (rule flip, rule le_trans)

section \<open>Lexicographic order\<close>

lemma memcmp_values: "memcmp xs ys n \<in> {-1, 0, 1}"
  by (induction xs ys n rule: memcmp.induct) auto

lemma memcmp_eq_0: "length xs = n \<Longrightarrow> length ys = n \<Longrightarrow> memcmp xs ys n = 0 \<longleftrightarrow> xs = ys"
proof (induction xs arbitrary: ys n)
  case (Cons x xs)
  then obtain y ys' where "ys = y # ys'" "length ys' = length xs" "n = Suc (length xs)"
    by (cases ys) auto
  with Cons.IH [of "length xs" ys'] show ?case by auto
qed simp

lemma Slice_eq_iff: "Slice_eq x y \<longleftrightarrow> x = y"
  by (auto simp: Slice_eq_def memcmp_eq_0)

lemma memcmp_take: "n \<le> length x \<Longrightarrow> memcmp s x n = memcmp s (take n x) n"
  by (induction s x n rule: memcmp.induct) auto

lemma starts_with_iff: "starts_with s x \<longleftrightarrow> (\<exists>t. s = x @ t)"
proof (induction x arbitrary: s)
  case (Cons a x)
  then show ?case by (cases s) (auto simp: starts_with_def not_less_iff_gr_or_eq)
qed (simp add: starts_with_def)

text \<open>The comparison follows the recursive definition of the lexicographic order.\<close>

lemma Slice_compare_simps [simp]:
  "Slice_compare [] [] = 0" "Slice_compare [] (y # ys) = -1" "Slice_compare (x # xs) [] = 1"
  "Slice_compare (x # xs) (y # ys) = (if x < y then -1 else if y < x then 1 else Slice_compare xs ys)"
  by (simp_all add: Slice_compare_def Let_def)

lemma Slice_compare_flip: "Slice_compare b a = - Slice_compare a b"
proof (induction a arbitrary: b)
  case Nil
  then show ?case by (cases b) auto
next
  case (Cons x a)
  then show ?case by (cases b) auto
qed

lemma Slice_compare_eq_0 [simp]: "Slice_compare a b = 0 \<longleftrightarrow> a = b"
proof (induction a arbitrary: b)
  case Nil
  then show ?case by (cases b) auto
next
  case (Cons x a)
  then show ?case by (cases b) auto
qed

lemma Slice_compare_le_trans: "Slice_compare a b \<le> 0 \<Longrightarrow> Slice_compare b c \<le> 0 \<Longrightarrow> Slice_compare a c \<le> 0"
proof (induction a arbitrary: b c)
  case Nil
  then show ?case by (cases c) auto
next
  case (Cons x a)
  then obtain y b' z c' where "b = y # b'" "c = z # c'"
    by (cases b; cases c) auto
  with Cons show ?case by (auto split: if_splits)
qed

lemma Slice_compare_prefix: "Slice_compare (p @ a) (p @ b) = Slice_compare a b"
  by (induction p) auto

section \<open>Key shortening\<close>

lemma diff_index_loop_spec:
  assumes "d \<le> m" "m \<le> length s" "m \<le> length l" "take d s = take d l"
  shows "d \<le> diff_index_loop s l m d \<and> diff_index_loop s l m d \<le> m \<and>
    take (diff_index_loop s l m d) s = take (diff_index_loop s l m d) l \<and>
    (diff_index_loop s l m d < m \<longrightarrow> s ! diff_index_loop s l m d \<noteq> l ! diff_index_loop s l m d)"
  using assms
proof (induction s l m d rule: diff_index_loop.induct)
  case (1 s l m d)
  show ?case
  proof (cases "d < m \<and> s ! d = l ! d")
    case True
    then have "take (d + 1) s = take (d + 1) l"
      using 1 by (simp add: take_Suc_conv_app_nth)
    with True 1 show ?thesis by (subst (1 2 3 4 5 6 7) diff_index_loop.simps) auto
  next
    case False
    with 1 show ?thesis by (subst (1 2 3 4 5 6 7) diff_index_loop.simps) auto
  qed
qed

lemma bytewise_separator_cases:
  obtains "bytewise_FindShortestSeparator s l = s"
  | p x y s' l' where "s = p @ x # s'" "l = p @ y # l'" "unat x + 1 < unat y"
      "bytewise_FindShortestSeparator s l = p @ [x + 1]"
proof (cases "bytewise_FindShortestSeparator s l = s")
  case False
  define m where "m = min (length s) (length l)"
  define d where "d = diff_index_loop s l m 0"
  have spec: "take d s = take d l" "d \<le> m"
    using diff_index_loop_spec [of 0 m s l] by (auto simp: m_def d_def)
  from False have d: "d < m" "unat (s ! d) + 1 < unat (l ! d)"
    and res: "bytewise_FindShortestSeparator s l = take (d + 1) (s[d := s ! d + 1])"
    by (auto simp: bytewise_FindShortestSeparator_def Let_def simp flip: m_def d_def split: if_splits)
  have "s = take d s @ s ! d # drop (Suc d) s" "l = take d s @ l ! d # drop (Suc d) l"
    using d spec id_take_nth_drop [of d s] id_take_nth_drop [of d l] by (simp_all add: m_def)
  moreover have "take (d + 1) (s[d := s ! d + 1]) = take d s @ [s ! d + 1]"
    using d by (simp add: m_def take_Suc_conv_app_nth)
  ultimately show thesis using that(2) d(2) res by metis
qed (rule that)

lemma unat_plus_one: "unat x + 1 < unat (y :: byte) \<Longrightarrow> unat (x + 1 :: byte) = unat x + 1"
  using unat_less_exp [of y] by (simp add: unat_word_ariths)

lemma Slice_compare_refl [simp]: "Slice_compare a a = 0"
  by simp

lemma bytewise_separator:
  assumes "Slice_compare a b < 0"
  shows "Slice_compare a (bytewise_FindShortestSeparator a b) \<le> 0 \<and>
    Slice_compare (bytewise_FindShortestSeparator a b) b < 0"
proof (cases rule: bytewise_separator_cases [of a b])
  case 1
  then show ?thesis using assms by simp
next
  case (2 p x y s l)
  then have "x < x + 1" "x + 1 < y" by (simp_all add: word_less_nat_alt unat_plus_one)
  then show ?thesis unfolding 2(4) unfolding 2(1,2) by (simp add: Slice_compare_prefix)
qed

lemma succ_loop_cases:
  "i \<le> length k \<Longrightarrow> succ_loop k i = k \<or>
    (\<exists>j \<ge> i. j < length k \<and> k ! j \<noteq> 0xff \<and> succ_loop k i = take j k @ [k ! j + 1])"
proof (induction k i rule: succ_loop.induct)
  case (1 k i)
  show ?case
  proof (cases "i < length k \<and> k ! i = 0xff")
    case True
    with 1 show ?thesis by (subst (1 2) succ_loop.simps) (auto simp: Let_def dest: Suc_leD)
  next
    case False
    then show ?thesis
      by (subst (1 2) succ_loop.simps) (auto simp: Let_def take_Suc_conv_app_nth)
  qed
qed

lemma byte_less_succ:
  assumes "x \<noteq> 0xff"
  shows "x < (x :: byte) + 1"
proof -
  have "unat x \<noteq> 255" using assms unat_eq_imp_word_of_nat [of x 255] by auto
  then have "unat x < 255" using unat_less_exp [of x] by simp
  then show ?thesis by (simp add: word_less_nat_alt unat_word_ariths)
qed

lemma bytewise_successor: "Slice_compare k (bytewise_FindShortSuccessor k) \<le> 0"
proof -
  consider "succ_loop k 0 = k" |
    j where "j < length k" "k ! j \<noteq> 0xff" "succ_loop k 0 = take j k @ [k ! j + 1]"
    using succ_loop_cases [of 0 k] by auto
  then show ?thesis
  proof cases
    case 2
    have "Slice_compare (take j k @ k ! j # drop (Suc j) k) (take j k @ [k ! j + 1]) \<le> 0"
      using byte_less_succ [OF 2(2)] by (simp add: Slice_compare_prefix)
    then show ?thesis
      unfolding bytewise_FindShortSuccessor_def 2(3) using id_take_nth_drop [OF 2(1)] by simp
  qed (simp add: bytewise_FindShortSuccessor_def)
qed

interpretation bytewise: comparator_laws BytewiseComparator "\<lambda>_. True"
proof
  fix a b c :: slice
  show "0 < Compare BytewiseComparator a b \<longleftrightarrow> Compare BytewiseComparator b a < 0"
    using Slice_compare_flip [of a b] by (simp add: BytewiseComparator_def)
qed (auto simp: BytewiseComparator_def bytewise_separator bytewise_successor intro: Slice_compare_le_trans)

lemma Compare_BytewiseComparator [simp]: "Compare BytewiseComparator = Slice_compare"
  by (simp add: BytewiseComparator_def)

end
