(* ===== verification/Coding.thy ===== *)
theory Coding
  imports Prelude
begin

unbundle bit_operations_syntax

text \<open>
  \<^verbatim>\<open>util/coding.h\<close> and \<^verbatim>\<open>util/coding.cpp\<close>: fixed-width little-endian integers, base-128
  varints and length-prefixed slices. The \<open>Put\<close> routines append to a string, so they take the
  string and return it extended; the \<open>Get\<close> routines consume a prefix of their input, so they
  return \<^term>\<open>None\<close> for the C++ result \<open>NULL\<close> or \<open>false\<close> and otherwise the value with
  the bytes that are left. \<open>varint\<close> is the reference encoding over the naturals that both
  encoders are shown to compute.
\<close>

section \<open>Fixed-width integers\<close>

definition EncodeFixed32 :: "u32 \<Rightarrow> slice" where
  "EncodeFixed32 value =
     [ucast (value AND 0xff),
      ucast (drop_bit 8 value AND 0xff),
      ucast (drop_bit 16 value AND 0xff),
      ucast (drop_bit 24 value AND 0xff)]"

definition EncodeFixed64 :: "u64 \<Rightarrow> slice" where
  "EncodeFixed64 value =
     [ucast (value AND 0xff),
      ucast (drop_bit 8 value AND 0xff),
      ucast (drop_bit 16 value AND 0xff),
      ucast (drop_bit 24 value AND 0xff),
      ucast (drop_bit 32 value AND 0xff),
      ucast (drop_bit 40 value AND 0xff),
      ucast (drop_bit 48 value AND 0xff),
      ucast (drop_bit 56 value AND 0xff)]"

definition PutFixed32 :: "slice \<Rightarrow> u32 \<Rightarrow> slice" where
  "PutFixed32 dst value = dst @ EncodeFixed32 value"

definition PutFixed64 :: "slice \<Rightarrow> u64 \<Rightarrow> slice" where
  "PutFixed64 dst value = dst @ EncodeFixed64 value"

definition DecodeFixed32 :: "slice \<Rightarrow> u32" where
  "DecodeFixed32 ptr =
     (ucast (ptr ! 0) OR push_bit 8 (ucast (ptr ! 1)) OR
      push_bit 16 (ucast (ptr ! 2)) OR push_bit 24 (ucast (ptr ! 3)))"

definition DecodeFixed64 :: "slice \<Rightarrow> u64" where
  "DecodeFixed64 ptr =
     (let lo = ucast (DecodeFixed32 ptr) :: u64;
          hi = ucast (DecodeFixed32 (drop 4 ptr)) :: u64
      in push_bit 32 hi OR lo)"

section \<open>Varints\<close>

text \<open>
  \<open>*(ptr++) = v\<close> stores the low byte of \<open>v\<close>: a narrowing \<open>ucast\<close>.
\<close>

definition EncodeVarint32 :: "u32 \<Rightarrow> slice" where
  "EncodeVarint32 v =
     (if v < push_bit 7 1 then [ucast v]
      else if v < push_bit 14 1 then [ucast (v OR 128), ucast (drop_bit 7 v)]
      else if v < push_bit 21 1 then
        [ucast (v OR 128), ucast (drop_bit 7 v OR 128), ucast (drop_bit 14 v)]
      else if v < push_bit 28 1 then
        [ucast (v OR 128), ucast (drop_bit 7 v OR 128), ucast (drop_bit 14 v OR 128),
         ucast (drop_bit 21 v)]
      else
        [ucast (v OR 128), ucast (drop_bit 7 v OR 128), ucast (drop_bit 14 v OR 128),
         ucast (drop_bit 21 v OR 128), ucast (drop_bit 28 v)])"

definition PutVarint32 :: "slice \<Rightarrow> u32 \<Rightarrow> slice" where
  "PutVarint32 dst v = dst @ EncodeVarint32 v"

function EncodeVarint64 :: "u64 \<Rightarrow> slice" where
  "EncodeVarint64 v =
     (if 128 \<le> v then ucast ((v AND 127) OR 128) # EncodeVarint64 (drop_bit 7 v)
      else [ucast v])"
  by pat_completeness auto
termination
  by (relation "measure unat") (auto simp: unat_drop_bit word_le_nat_alt)

definition PutVarint64 :: "slice \<Rightarrow> u64 \<Rightarrow> slice" where
  "PutVarint64 dst v = dst @ EncodeVarint64 v"

definition PutLengthPrefixedSlice :: "slice \<Rightarrow> slice \<Rightarrow> slice" where
  "PutLengthPrefixedSlice dst value = PutVarint32 dst (word_of_nat (length value)) @ value"

function VarintLength_loop :: "u64 \<Rightarrow> nat \<Rightarrow> nat" where
  "VarintLength_loop v len =
     (if 128 \<le> v then VarintLength_loop (drop_bit 7 v) (len + 1) else len)"
  by pat_completeness auto
termination
  by (relation "measure (\<lambda>(v, len). unat v)") (auto simp: unat_drop_bit word_le_nat_alt)

definition VarintLength :: "u64 \<Rightarrow> nat" where
  "VarintLength v = VarintLength_loop v 1"

text \<open>
  The decoding loop has the same text for 32 and for 64 bits; \<open>maxs\<close> is the largest shift it
  tries (28 and 63).
\<close>

fun varint_loop :: "nat \<Rightarrow> nat \<Rightarrow> 'a::len word \<Rightarrow> slice \<Rightarrow> ('a word \<times> slice) option" where
  "varint_loop maxs shift result [] = None"
| "varint_loop maxs shift result (c # p) =
     (if maxs < shift then None
      else let byte = ucast c in
        if byte AND 128 \<noteq> 0
        then varint_loop maxs (shift + 7) (result OR push_bit shift (byte AND 127)) p
        else Some (result OR push_bit shift byte, p))"

definition GetVarint32PtrFallback :: "slice \<Rightarrow> (u32 \<times> slice) option" where
  "GetVarint32PtrFallback p = varint_loop 28 0 0 p"

definition GetVarint32Ptr :: "slice \<Rightarrow> (u32 \<times> slice) option" where
  "GetVarint32Ptr p =
     (case p of
        [] \<Rightarrow> GetVarint32PtrFallback p
      | c # q \<Rightarrow>
          (let result = ucast c :: u32 in
           if result AND 128 = 0 then Some (result, q) else GetVarint32PtrFallback p))"

definition GetVarint32 :: "slice \<Rightarrow> (u32 \<times> slice) option" where
  "GetVarint32 input = GetVarint32Ptr input"

definition GetVarint64Ptr :: "slice \<Rightarrow> (u64 \<times> slice) option" where
  "GetVarint64Ptr p = varint_loop 63 0 0 p"

definition GetVarint64 :: "slice \<Rightarrow> (u64 \<times> slice) option" where
  "GetVarint64 input = GetVarint64Ptr input"

definition GetLengthPrefixedSlice :: "slice \<Rightarrow> (slice \<times> slice) option" where
  "GetLengthPrefixedSlice input =
     (case GetVarint32 input of
        None \<Rightarrow> None
      | Some (len, rest) \<Rightarrow>
          if unat len \<le> length rest then Some (take (unat len) rest, drop (unat len) rest)
          else None)"

section \<open>Fixed-width round trips\<close>

lemma ucast_and_255: "ucast (x AND 255 :: 'a::len word) = (ucast x :: byte)"
  by (rule bit_word_eqI) (auto simp: and_literals bit_simps)

lemma EncodeFixed32_le: "EncodeFixed32 v = le_bytes 4 v"
  by (simp add: EncodeFixed32_def ucast_and_255 drop_bit_drop_bit numeral_eq_Suc)

lemma EncodeFixed64_le: "EncodeFixed64 v = le_bytes 8 v"
  by (simp add: EncodeFixed64_def ucast_and_255 drop_bit_drop_bit numeral_eq_Suc)

lemma DecodeFixed32_le:
  assumes "4 \<le> length p"
  shows "DecodeFixed32 p = le_word (take 4 p)"
proof -
  from assms obtain a b c d q where "p = a # b # c # d # q"
    by (auto simp: numeral_eq_Suc Suc_le_length_iff)
  then show ?thesis
    by (simp add: DecodeFixed32_def push_bit_or push_bit_push_bit or.assoc)
qed

lemma DecodeFixed64_le:
  assumes "8 \<le> length p"
  shows "DecodeFixed64 p = le_word (take 8 p)"
proof -
  have len: "4 \<le> length p" "4 \<le> length (drop 4 p)" using assms by auto
  show ?thesis
  proof (rule bit_word_eqI)
    fix k assume "k < LENGTH(64)"
    then have "k < 64" by simp
    show "bit (DecodeFixed64 p) k = bit (le_word (take 8 p) :: u64) k"
    proof (cases "k < 32")
      case True
      then have "k div 8 < 4" by (simp add: div_less_iff_less_mult)
      with True assms show ?thesis
        by (simp add: DecodeFixed64_def Let_def DecodeFixed32_le [OF len(1)] bit_simps bit_le_word)
    next
      case False
      then obtain m where m: "k = 32 + m" by (metis le_add_diff_inverse not_less)
      then have "m div 8 < 4" using \<open>k < 64\<close> by (simp add: div_less_iff_less_mult)
      moreover have "(32 + m) div 8 = 4 + m div 8" "(32 + m) mod 8 = m mod 8" by presburger+
      ultimately show ?thesis using m \<open>k < 64\<close> assms
        by (simp add: DecodeFixed64_def Let_def DecodeFixed32_le [OF len(1)] DecodeFixed32_le [OF len(2)]
              bit_simps bit_le_word add.commute)
    qed
  qed
qed

lemma length_EncodeFixed [simp, size_simps]:
  "length (EncodeFixed32 v) = 4" "length (EncodeFixed64 w) = 8"
  by (simp_all add: EncodeFixed32_le EncodeFixed64_le)

lemma DecodeFixed32_Encode [simp, coding_simps]: "DecodeFixed32 (EncodeFixed32 v @ r) = v"
  by (simp add: DecodeFixed32_le EncodeFixed32_le le_word_le_bytes_full)

lemma DecodeFixed64_Encode [simp, coding_simps]: "DecodeFixed64 (EncodeFixed64 v @ r) = v"
  by (simp add: DecodeFixed64_le EncodeFixed64_le le_word_le_bytes_full)

section \<open>Varint round trips\<close>

text \<open>The reference encoding: base 128, least significant digit first.\<close>

fun varint :: "nat \<Rightarrow> slice" where
  "varint n = (if n < 128 then [word_of_nat n] else word_of_nat (n mod 128 + 128) # varint (n div 128))"

declare varint.simps [simp del] EncodeVarint64.simps [simp del] VarintLength_loop.simps [simp del]

lemma varint_small: "n < 128 \<Longrightarrow> varint n = [word_of_nat n]"
  by (subst varint.simps) simp

lemma varint_big: "128 \<le> n \<Longrightarrow> varint n = word_of_nat (n mod 128 + 128) # varint (n div 128)"
  by (subst varint.simps) simp

lemma byte_or_128:
  assumes "8 \<le> LENGTH('a::len)"
  shows "(ucast (v OR 128 :: 'a word) :: byte) = word_of_nat (unat v mod 128 + 128)"
proof -
  have "(ucast (v OR 128) :: byte) = take_bit 7 (ucast v) OR push_bit 7 1"
    by (rule bit_word_eqI) (use assms in \<open>auto simp: bit_128 bit_simps\<close>)
  moreover have "unat (take_bit 7 (ucast v) OR push_bit 7 1 :: byte) = unat v mod 128 + 128"
    by (subst unat_or_push_bit) (simp_all add: unat_take_bit unat_ucast_mod mod_mod_cancel)
  ultimately show ?thesis
    by (metis unat_eq_imp_word_of_nat)
qed

lemma EncodeVarint32_varint: "EncodeVarint32 v = varint (unat v)"
proof -
  have [simp]: "(push_bit 7 1 :: u32) = 128" "(push_bit 14 1 :: u32) = 16384"
     "(push_bit 21 1 :: u32) = 2097152" "(push_bit 28 1 :: u32) = 268435456"
    by (simp_all add: push_bit_eq_mult)
  have last: "(ucast (drop_bit k v) :: byte) = word_of_nat (unat v div 2 ^ k)" for k
    by (simp add: word_unat_eq_iff unat_ucast_mod unat_drop_bit unat_of_nat)
  note enc = EncodeVarint32_def word_less_nat_alt byte_or_128 last unat_drop_bit
  have step: "varint (unat v div 2 ^ k) = word_of_nat (unat v div 2 ^ k mod 128 + 128) # varint (unat v div 2 ^ (k + 7))"
    if "2 ^ (k + 7) \<le> unat v" for k
    using that varint_big [of "unat v div 2 ^ k"] by (simp add: power_add less_eq_div_iff_mult_less_eq mult.commute flip: div_mult2_eq)
  have stop: "varint (unat v div 2 ^ k) = [word_of_nat (unat v div 2 ^ k)]" if "unat v < 2 ^ (k + 7)" for k
    using that by (simp add: power_add varint_small less_mult_imp_div_less mult.commute)
  note steps = step [of 0] step [of 7] step [of 14] step [of 21]
  note stops = stop [of 0] stop [of 7] stop [of 14] stop [of 21] stop [of 28]
  consider "unat v < 2 ^ 7" | "2 ^ 7 \<le> unat v" "unat v < 2 ^ 14" | "2 ^ 14 \<le> unat v" "unat v < 2 ^ 21"
    | "2 ^ 21 \<le> unat v" "unat v < 2 ^ 28" | "2 ^ 28 \<le> unat v" by linarith
  then show ?thesis
  proof cases
    case 5
    moreover have "unat v < 2 ^ 35" using unat_less_exp [of v] by simp
    ultimately show ?thesis using steps stops by (simp add: enc)
  qed (use steps stops in \<open>simp_all add: enc\<close>)
qed

lemma EncodeVarint64_varint: "EncodeVarint64 v = varint (unat v)"
proof (induction v rule: EncodeVarint64.induct)
  case (1 v)
  show ?case
  proof (cases "128 \<le> v")
    case True
    then have ge: "128 \<le> unat v" by (simp add: word_le_nat_alt)
    have "(ucast ((v AND 127) OR 128) :: byte) = ucast (v OR 128)"
      by (rule bit_word_eqI) (auto simp: and_literals bit_128 bit_simps)
    with True 1 ge show ?thesis
      by (subst EncodeVarint64.simps) (simp add: varint_big unat_drop_bit byte_or_128)
  next
    case False
    then show ?thesis
      by (subst EncodeVarint64.simps) (simp add: varint_small word_le_nat_alt)
  qed
qed

lemma varint_loop_varint:
  fixes r :: "'a::len word"
  assumes shifts: "\<And>s. 7 dvd s \<Longrightarrow> s < LENGTH('a) \<Longrightarrow> s \<le> maxs" and len: "8 \<le> LENGTH('a)"
  shows "\<lbrakk> 7 dvd shift; shift = 0 \<or> 0 < n; unat r < 2 ^ shift; unat r + n * 2 ^ shift < 2 ^ LENGTH('a) \<rbrakk>
    \<Longrightarrow> varint_loop maxs shift r (varint n @ rest) = Some (word_of_nat (unat r + n * 2 ^ shift), rest)"
proof (induction n arbitrary: shift r rule: varint.induct)
  case (1 n)
  have "shift < LENGTH('a)"
  proof (cases "shift = 0")
    case False
    then have "2 ^ shift \<le> n * 2 ^ shift" using 1 by simp
    then have "(2::nat) ^ shift < 2 ^ LENGTH('a)" using 1 by linarith
    then show ?thesis by simp
  qed (use len in simp)
  then have shift: "\<not> maxs < shift" using shifts 1 by (simp add: not_less)
  show ?case
  proof (cases "n < 128")
    case True
    define b :: "'a word" where "b = ucast (word_of_nat n :: byte)"
    have b: "unat b = n" using True len by (simp add: b_def unat_ucast_up unat_of_nat)
    have "b AND 128 = 0"
      using True b by (simp add: and_128_eq_0 not_bit_of_unat_less)
    moreover have "unat (r OR push_bit shift b) = unat r + n * 2 ^ shift"
      using 1 b by (subst unat_or_push_bit) auto
    then have "r OR push_bit shift b = word_of_nat (unat r + n * 2 ^ shift)"
      by (rule unat_eq_imp_word_of_nat)
    ultimately show ?thesis
      using True shift by (simp add: varint_small Let_def flip: b_def)
  next
    case False
    define b :: "'a word" where "b = ucast (word_of_nat (n mod 128 + 128) :: byte)"
    have "unat (word_of_nat (n mod 128 + 128) :: byte) = n mod 128 + 128"
      by (rule unat_word_of_nat_small) simp
    then have b: "unat b = n mod 128 + 128" using len by (simp add: b_def unat_ucast_up del: of_nat_add)
    have "(n mod 128 + 128) div 128 = 1" by simp
    then have "bit b 7" by (simp add: bit_word_unat b)
    then have "b AND 128 \<noteq> 0" using len by (simp add: and_128_eq_0)
    define r' where "r' = r OR push_bit shift (b AND 127)"
    have low: "unat (b AND 127) = n mod 128" using b len by (simp add: and_literals unat_take_bit)
    have "n * 2 ^ shift = (n mod 128 + n div 128 * 128) * 2 ^ shift" by simp
    also have "\<dots> = n mod 128 * 2 ^ shift + n div 128 * 2 ^ (shift + 7)"
      unfolding distrib_right power_add by simp
    finally have "n * 2 ^ shift = n mod 128 * 2 ^ shift + n div 128 * 2 ^ (shift + 7)" .
    with 1(5) have total: "unat r + n mod 128 * 2 ^ shift + n div 128 * 2 ^ (shift + 7) = unat r + n * 2 ^ shift"
      and bound: "unat r + n mod 128 * 2 ^ shift < 2 ^ LENGTH('a)" by linarith+
    have r': "unat r' = unat r + n mod 128 * 2 ^ shift"
      unfolding r'_def using 1(4) bound by (subst unat_or_push_bit) (auto simp: low)
    have "n mod 128 * 2 ^ shift \<le> 127 * 2 ^ shift" by (rule mult_right_mono) simp_all
    with 1(4) have "unat r + n mod 128 * 2 ^ shift < 128 * 2 ^ shift" by linarith
    then have "unat r' < 2 ^ (shift + 7)" by (simp add: r' power_add mult.commute)
    moreover have "0 < n div 128" using False by (simp add: div_greater_zero_iff)
    ultimately have "varint_loop maxs (shift + 7) r' (varint (n div 128) @ rest) =
        Some (word_of_nat (unat r' + n div 128 * 2 ^ (shift + 7)), rest)"
      using False 1 total r' by (intro 1) auto
    moreover have "varint_loop maxs shift r (varint n @ rest) = varint_loop maxs (shift + 7) r' (varint (n div 128) @ rest)"
      using False [unfolded not_less] shift \<open>b AND 128 \<noteq> 0\<close>
      by (simp only: varint_big [of n] append_Cons varint_loop.simps Let_def b_def r'_def if_True if_False simp_thms)
    ultimately show ?thesis by (simp only: total r')
  qed
qed

lemma GetVarint32Ptr_Fallback: "GetVarint32Ptr p = GetVarint32PtrFallback p"
  by (auto simp: GetVarint32Ptr_def GetVarint32PtrFallback_def Let_def split: list.split)

lemma GetVarint32_varint [simp, coding_simps]:
  "n < 2 ^ 32 \<Longrightarrow> GetVarint32 (varint n @ rest) = Some (word_of_nat n, rest)"
  unfolding GetVarint32_def GetVarint32Ptr_Fallback GetVarint32PtrFallback_def
  by (subst varint_loop_varint) (auto simp: dvd_def)

lemma GetVarint64_varint [simp, coding_simps]:
  "n < 2 ^ 64 \<Longrightarrow> GetVarint64 (varint n @ rest) = Some (word_of_nat n, rest)"
  unfolding GetVarint64_def GetVarint64Ptr_def
  by (subst varint_loop_varint) (auto simp: dvd_def)

lemma Put_varint [coding_simps]:
  "PutVarint32 dst v = dst @ varint (unat v)" "PutVarint64 dst w = dst @ varint (unat w)"
  by (simp_all add: PutVarint32_def PutVarint64_def EncodeVarint32_varint EncodeVarint64_varint)

lemma GetVarint32_unat [simp]: "GetVarint32 (varint (unat (v :: u32)) @ rest) = Some (v, rest)"
  using unat_less_exp [of v] by simp

lemma GetVarint64_unat [simp]: "GetVarint64 (varint (unat (v :: u64)) @ rest) = Some (v, rest)"
  using unat_less_exp [of v] by simp

lemma GetLengthPrefixedSlice_Put [simp, coding_simps]:
  assumes "length v < 2 ^ 32"
  shows "GetLengthPrefixedSlice (PutLengthPrefixedSlice [] v @ rest) = Some (v, rest)"
  using assms
  by (simp add: PutLengthPrefixedSlice_def Put_varint GetLengthPrefixedSlice_def unat_of_nat)

lemma PutLengthPrefixedSlice_append:
  "PutLengthPrefixedSlice dst v = dst @ PutLengthPrefixedSlice [] v"
  by (simp add: PutLengthPrefixedSlice_def Put_varint)

section \<open>Lengths and progress\<close>

lemma length_varint_le: "n < 128 ^ k \<Longrightarrow> 0 < k \<Longrightarrow> length (varint n) \<le> k"
proof (induction n arbitrary: k rule: varint.induct)
  case (1 n)
  show ?case
  proof (cases "n < 128")
    case False
    then obtain j where k: "k = Suc j" "0 < j"
      using 1 by (cases k; cases "k - 1") auto
    then have "n div 128 < 128 ^ j" using 1 by (simp add: div_less_iff_less_mult mult.commute)
    then show ?thesis using 1 False k by (simp add: varint_big)
  qed (use 1 in \<open>simp add: varint_small\<close>)
qed

lemma varint_neq_Nil [simp]: "varint n \<noteq> []"
  by (subst varint.simps) simp

lemma length_EncodeVarint32: "length (EncodeVarint32 v) \<le> 5"
  using length_varint_le [of "unat v" 5] unat_less_exp [of v] by (simp add: EncodeVarint32_varint)

lemma length_EncodeVarint64: "length (EncodeVarint64 v) \<le> 10"
  using length_varint_le [of "unat v" 10] unat_less_exp [of v] by (simp add: EncodeVarint64_varint)

lemma VarintLength_loop_varint: "VarintLength_loop v len = len + length (varint (unat v)) - 1"
proof (induction v len rule: VarintLength_loop.induct)
  case (1 v len)
  have "0 < length (varint k)" for k by simp
  then show ?case
    using 1 by (subst VarintLength_loop.simps)
      (auto simp: varint_big varint_small word_le_nat_alt not_le unat_drop_bit)
qed

lemma VarintLength_varint: "VarintLength v = length (varint (unat v))"
  by (simp add: VarintLength_def VarintLength_loop_varint)

text \<open>Every successful \<open>Get\<close> returns a proper suffix of its input: the loops that call it end.\<close>

lemma varint_loop_shorter: "varint_loop m s r p = Some (v, q) \<Longrightarrow> length q < length p"
  by (induction m s r p rule: varint_loop.induct) (auto simp: Let_def split: if_splits)

lemma GetVarint_shorter [size_simps]:
  "GetVarint32 p = Some (v, q) \<Longrightarrow> length q < length p"
  "GetVarint64 p = Some (w, q) \<Longrightarrow> length q < length p"
  by (auto simp: GetVarint32_def GetVarint32Ptr_Fallback GetVarint32PtrFallback_def GetVarint64_def
      GetVarint64Ptr_def varint_loop_shorter)

lemma GetLengthPrefixedSlice_shorter [size_simps]:
  "GetLengthPrefixedSlice p = Some (v, q) \<Longrightarrow> length q < length p"
  by (auto simp: GetLengthPrefixedSlice_def split: option.splits if_splits dest!: GetVarint_shorter)

text \<open>Decoders never run past the ten bytes of the longest legal varint.\<close>

lemma varint_loop_limit:
  "varint_loop m s r p = Some (v, q) \<Longrightarrow> length p - length q \<le> (m - s) div 7 + 1 \<and> s \<le> m"
proof (induction m s r p rule: varint_loop.induct)
  case (2 m s r c p)
  show ?case
  proof (cases "(ucast c :: 'a word) AND 128 = 0")
    case False
    with 2 have "length p - length q \<le> (m - (s + 7)) div 7 + 1 \<and> s + 7 \<le> m"
      by (auto simp: Let_def split: if_splits)
    moreover from this have "(m - s) div 7 = (m - (s + 7)) div 7 + 1"
      by (subst le_div_geq) auto
    ultimately show ?thesis by simp linarith
  qed (use 2 in \<open>auto simp: Let_def split: if_splits\<close>)
qed simp

text \<open>Arrays of fixed-width numbers.\<close>

lemma foldl_PutFixed32: "foldl PutFixed32 r ws = r @ concat (map EncodeFixed32 ws)"
  by (induction ws arbitrary: r) (auto simp: PutFixed32_def)

lemma length_concat_fixed32 [simp]: "length (concat (map EncodeFixed32 ws)) = 4 * length ws"
  by (induction ws) auto

section \<open>Properties\<close>

text \<open>C33: Decoding what \<open>PutVarint32\<close> or \<open>PutVarint64\<close> appended gives back the value and
  exactly the bytes that follow it, whatever they are; the encodings take at most 5 and 10 bytes,
  the sizes of the buffers the encoders write to, and \<open>VarintLength\<close> predicts the length.\<close>

theorem varint_roundtrip:
  "GetVarint32 (PutVarint32 [] v @ rest) = Some (v, rest) \<and>
   GetVarint64 (PutVarint64 [] w @ rest) = Some (w, rest) \<and>
   length (EncodeVarint32 v) \<le> 5 \<and> length (EncodeVarint64 w) \<le> 10 \<and>
   VarintLength w = length (EncodeVarint64 w)"
  using length_EncodeVarint32 [of v] length_EncodeVarint64 [of w]
  by (simp add: Put_varint VarintLength_varint
    EncodeVarint64_varint)

text \<open>C34: A slice shorter than \<open>2 ^ 32\<close> bytes that is appended with its length prefix is read back
  unchanged, and the bytes after it are left for the next read.\<close>

theorem length_prefixed_roundtrip:
  "length v < 2 ^ 32 \<Longrightarrow>
   \<exists>enc. PutLengthPrefixedSlice dst v = dst @ enc \<and> GetLengthPrefixedSlice (enc @ rest) = Some (v, rest)"
  using PutLengthPrefixedSlice_append GetLengthPrefixedSlice_Put by blast

theorem length_prefixed_roundtrip_witness:
  "length [1, 2, 3 :: byte] < 2 ^ 32 \<and>
   (\<exists>enc. PutLengthPrefixedSlice [9] [1, 2, 3] = [9] @ enc \<and>
     GetLengthPrefixedSlice (enc @ [7]) = Some ([1, 2, 3], [7]))"
  using length_prefixed_roundtrip [of "[1, 2, 3]" "[9]" "[7]"] by simp

end
