(* ===== verification/Bloom.thy ===== *)
theory Bloom
  imports Coding
begin

unbundle bit_operations_syntax

text \<open>
  \<^verbatim>\<open>util/hash.cpp\<close>, \<^verbatim>\<open>util/bloom.cpp\<close> and the interface \<^verbatim>\<open>include/leveldb/filter_policy.h\<close>.
  A \<open>FilterPolicy\<close> object is the record of its methods; the locale \<open>filter_policy_laws\<close> is the
  documented contract (a filter is appended, and a key that went into a filter always matches it),
  which the built-in Bloom filter is shown to meet for every number of bits per key.
\<close>

section \<open>Hash\<close>

function hash_words :: "u32 \<Rightarrow> slice \<Rightarrow> u32 \<times> slice" where
  "hash_words h data =
     (if 4 \<le> length data then
        let w = DecodeFixed32 data;
            h1 = (h + w) * 0xc6a4a793
        in hash_words (h1 XOR drop_bit 16 h1) (drop 4 data)
      else (h, data))"
  by pat_completeness auto
termination
  by (relation "measure (\<lambda>(h, data). length data)") auto

declare hash_words.simps [simp del]

definition Hash :: "slice \<Rightarrow> u32 \<Rightarrow> u32" where
  "Hash data seed =
     (let m = 0xc6a4a793 :: u32;
          h = seed XOR ucast (word_of_nat (length data) * ucast m :: u64);
          (h, rest) = hash_words h data;
          finish = (\<lambda>h. let h = (h + ucast (rest ! 0)) * m in h XOR drop_bit 24 h);
          h2 = (\<lambda>h. h + push_bit 8 (ucast (rest ! 1)));
          h3 = (\<lambda>h. h + push_bit 16 (ucast (rest ! 2)))
      in if length rest = 3 then finish (h2 (h3 h))
         else if length rest = 2 then finish (h2 h)
         else if length rest = 1 then finish h
         else h)"

section \<open>Filter policies\<close>

record filter_policy =
  Filter_Name :: slice
  CreateFilter :: "slice list \<Rightarrow> slice \<Rightarrow> slice"
  KeyMayMatch :: "slice \<Rightarrow> slice \<Rightarrow> bool"

definition BloomHash :: "slice \<Rightarrow> u32" where
  "BloomHash key = Hash key 0xbc9f1d34"

text \<open>
  \<open>k_\<close> is \<open>bits_per_key * 0.69\<close> rounded down and clamped to 1..30. For fewer than 100 bits per key
  the product is at least 0.01 away from an integer, so the rounding of the double product cannot
  change the integer part; from 44 bits on the clamp decides.
\<close>

definition bloom_k :: "nat \<Rightarrow> nat" where
  "bloom_k bits_per_key =
     (let k = bits_per_key * 69 div 100;
          k = (if k < 1 then 1 else k)
      in if k > 30 then 30 else k)"

definition bloom_delta :: "u32 \<Rightarrow> u32" where
  "bloom_delta h = drop_bit 17 h OR push_bit 15 h"

definition set_bitpos :: "slice \<Rightarrow> nat \<Rightarrow> slice" where
  "set_bitpos array bitpos =
     array[bitpos div 8 := array ! (bitpos div 8) OR push_bit (bitpos mod 8) 1]"

primrec bloom_set_loop :: "nat \<Rightarrow> nat \<Rightarrow> u32 \<Rightarrow> u32 \<Rightarrow> slice \<Rightarrow> slice" where
  "bloom_set_loop bits 0 h delta array = array"
| "bloom_set_loop bits (Suc j) h delta array =
     bloom_set_loop bits j (h + delta) delta (set_bitpos array (unat h mod bits))"

primrec bloom_add_keys :: "nat \<Rightarrow> nat \<Rightarrow> slice list \<Rightarrow> slice \<Rightarrow> slice" where
  "bloom_add_keys bits k [] array = array"
| "bloom_add_keys bits k (key # keys) array =
     (let h = BloomHash key in
      bloom_add_keys bits k keys (bloom_set_loop bits k h (bloom_delta h) array))"

definition bloom_CreateFilter :: "nat \<Rightarrow> slice list \<Rightarrow> slice \<Rightarrow> slice" where
  "bloom_CreateFilter bits_per_key keys dst =
     (let bits = length keys * bits_per_key;
          bits = (if bits < 64 then 64 else bits);
          bytes = (bits + 7) div 8;
          bits = bytes * 8;
          k = bloom_k bits_per_key
      in dst @ bloom_add_keys bits k keys (replicate bytes 0) @ [word_of_nat k])"

primrec bloom_match_loop :: "slice \<Rightarrow> nat \<Rightarrow> nat \<Rightarrow> u32 \<Rightarrow> u32 \<Rightarrow> bool" where
  "bloom_match_loop array bits 0 h delta = True"
| "bloom_match_loop array bits (Suc j) h delta =
     (let bitpos = unat h mod bits in
      if array ! (bitpos div 8) AND push_bit (bitpos mod 8) 1 = 0 then False
      else bloom_match_loop array bits j (h + delta) delta)"

definition bloom_KeyMayMatch :: "slice \<Rightarrow> slice \<Rightarrow> bool" where
  "bloom_KeyMayMatch key bloom_filter =
     (let len = length bloom_filter in
      if len < 2 then False
      else let bits = (len - 1) * 8;
               k = unat (bloom_filter ! (len - 1))
           in if k > 30 then True
              else let h = BloomHash key in
                bloom_match_loop bloom_filter bits k h (bloom_delta h))"

definition NewBloomFilterPolicy :: "nat \<Rightarrow> filter_policy" where
  "NewBloomFilterPolicy bits_per_key =
     \<lparr>Filter_Name = str ''leveldb.BuiltinBloomFilter2'',
      CreateFilter = bloom_CreateFilter bits_per_key,
      KeyMayMatch = bloom_KeyMayMatch\<rparr>"

section \<open>The contract\<close>

locale filter_policy_laws =
  fixes policy :: filter_policy
  assumes create_appends: "CreateFilter policy keys dst = dst @ CreateFilter policy keys []"
    and no_false_negative: "k \<in> set keys \<Longrightarrow> KeyMayMatch policy k (CreateFilter policy keys [])"

section \<open>The Bloom filter has no false negatives\<close>

definition bit_at :: "slice \<Rightarrow> nat \<Rightarrow> bool" where
  "bit_at array p \<longleftrightarrow> bit (array ! (p div 8)) (p mod 8)"

lemma bit_at_set_bitpos:
  assumes "p < 8 * length array" "q < 8 * length array"
  shows "bit_at (set_bitpos array p) q \<longleftrightarrow> q = p \<or> bit_at array q"
proof (cases "q div 8 = p div 8")
  case True
  have "q mod 8 = p mod 8 \<longleftrightarrow> q = p" by (metis True div_mult_mod_eq)
  with True assms show ?thesis
    by (auto simp: bit_at_def set_bitpos_def bit_simps nth_list_update)
next
  case False
  with assms show ?thesis by (auto simp: bit_at_def set_bitpos_def nth_list_update)
qed

lemma length_set_bitpos [simp]: "length (set_bitpos array p) = length array"
  by (simp add: set_bitpos_def)

lemma length_bloom_set_loop [simp]: "length (bloom_set_loop bits j h d array) = length array"
  by (induction j arbitrary: h array) auto

lemma length_bloom_add_keys [simp]: "length (bloom_add_keys bits k keys array) = length array"
  by (induction keys arbitrary: array) (auto simp: Let_def)

lemma bloom_set_loop_mono:
  assumes "q < 8 * n" "length array = n" "bit_at array q"
  shows "bit_at (bloom_set_loop (8 * n) j h d array) q"
  using assms(2-3)
proof (induction j arbitrary: h array)
  case (Suc j)
  have "unat h mod (8 * n) < 8 * n" using assms(1) by simp
  with Suc assms(1) show ?case by (simp add: bit_at_set_bitpos)
qed simp

lemma bloom_add_keys_mono:
  assumes "q < 8 * n" "length array = n" "bit_at array q"
  shows "bit_at (bloom_add_keys (8 * n) k keys array) q"
  using assms(2-3) by (induction keys arbitrary: array) (auto simp: Let_def bloom_set_loop_mono assms(1))

text \<open>The probe positions of a key: every one of them is set, and they are what the match tests.\<close>

primrec probes :: "nat \<Rightarrow> nat \<Rightarrow> u32 \<Rightarrow> u32 \<Rightarrow> nat set" where
  "probes bits 0 h d = {}"
| "probes bits (Suc j) h d = insert (unat h mod bits) (probes bits j (h + d) d)"

lemma probes_bound: "0 < bits \<Longrightarrow> q \<in> probes bits j h d \<Longrightarrow> q < bits"
  by (induction j arbitrary: h) auto

lemma bloom_set_loop_probes:
  assumes "0 < n" "length array = n" "q \<in> probes (8 * n) j h d"
  shows "bit_at (bloom_set_loop (8 * n) j h d array) q"
  using assms(2-3)
proof (induction j arbitrary: h array)
  case (Suc j)
  have "unat h mod (8 * n) < 8 * n" using assms(1) by simp
  moreover from this have "bit_at (set_bitpos array (unat h mod (8 * n))) (unat h mod (8 * n))"
    using Suc.prems by (simp add: bit_at_set_bitpos)
  ultimately show ?case using Suc by (auto intro: bloom_set_loop_mono)
qed simp

lemma bloom_add_keys_probes:
  assumes "0 < n" "length array = n" "key \<in> set keys"
    and "q \<in> probes (8 * n) k (BloomHash key) (bloom_delta (BloomHash key))"
  shows "bit_at (bloom_add_keys (8 * n) k keys array) q"
  using assms(2-4)
proof (induction keys arbitrary: array)
  case (Cons key' keys)
  have "q < 8 * n" using probes_bound [of "8 * n"] assms(1,4) by simp
  show ?case
  proof (cases "key = key'")
    case True
    then have "bit_at (bloom_set_loop (8 * n) k (BloomHash key') (bloom_delta (BloomHash key')) array) q"
      using Cons.prems by (intro bloom_set_loop_probes [OF assms(1)]) auto
    then show ?thesis
      using \<open>q < 8 * n\<close> Cons.prems by (simp add: Let_def bloom_add_keys_mono)
  qed (use Cons in \<open>simp add: Let_def\<close>)
qed simp

lemma bloom_match_loop_iff:
  "bloom_match_loop array bits k h d \<longleftrightarrow> (\<forall>q \<in> probes bits k h d. bit_at array q)"
  by (induction k arbitrary: h) (auto simp: Let_def and_exp_eq_0_iff_not_bit bit_at_def)

lemma bit_at_append: "q < 8 * length array \<Longrightarrow> bit_at (array @ r) q = bit_at array q"
  by (simp add: bit_at_def nth_append div_less_iff_less_mult mult.commute)

lemma bloom_k_bounds: "1 \<le> bloom_k b" "bloom_k b \<le> 30"
  by (auto simp: bloom_k_def Let_def)

lemma bloom_no_false_negative:
  assumes "key \<in> set keys"
  shows "bloom_KeyMayMatch key (bloom_CreateFilter b keys [])"
proof -
  define bytes where "bytes = ((if length keys * b < 64 then 64 else length keys * b) + 7) div 8"
  define array where "array = bloom_add_keys (8 * bytes) (bloom_k b) keys (replicate bytes 0)"
  have filter: "bloom_CreateFilter b keys [] = array @ [word_of_nat (bloom_k b)]"
    by (simp add: bloom_CreateFilter_def Let_def array_def bytes_def mult.commute)
  have len: "length array = bytes" "0 < bytes" by (simp add: array_def, simp add: bytes_def, linarith)
  have k: "unat (word_of_nat (bloom_k b) :: byte) = bloom_k b"
    using bloom_k_bounds(2) [of b] by (intro unat_word_of_nat_small) simp
  have "bit_at (array @ r) q"
    if "q \<in> probes (8 * bytes) (bloom_k b) (BloomHash key) (bloom_delta (BloomHash key))" for q r
  proof -
    have "q < 8 * bytes" using probes_bound [OF _ that] len(2) by simp
    moreover have "bit_at array q"
      unfolding array_def by (rule bloom_add_keys_probes [OF len(2) _ assms that]) simp
    ultimately show ?thesis using len by (simp add: bit_at_append)
  qed
  then show ?thesis
    using len bloom_k_bounds(2) [of b]
    by (auto simp: filter bloom_KeyMayMatch_def Let_def k bloom_match_loop_iff mult.commute)
qed

interpretation bloom: filter_policy_laws "NewBloomFilterPolicy bits_per_key"
  by unfold_locales
    (auto simp: NewBloomFilterPolicy_def bloom_no_false_negative, simp add: bloom_CreateFilter_def Let_def)

section \<open>Properties\<close>

text \<open>C27: A Bloom filter built by \<open>CreateFilter\<close> has no false negatives: every key that was given to
  it is accepted by \<open>KeyMayMatch\<close>, whatever the number of bits per key, also after the filter was
  appended to other data.\<close>

theorem bloom_filter_complete:
  assumes "key \<in> set keys"
  shows "\<exists>f. CreateFilter (NewBloomFilterPolicy b) keys dst = dst @ f \<and>
    KeyMayMatch (NewBloomFilterPolicy b) key f"
  using bloom.create_appends bloom.no_false_negative [OF assms] by blast

theorem bloom_filter_complete_witness:
  "[1, 2] \<in> set [[1, 2], [3 :: byte]] \<and>
   (\<exists>f. CreateFilter (NewBloomFilterPolicy 10) [[1, 2], [3]] [9] = [9] @ f \<and>
     KeyMayMatch (NewBloomFilterPolicy 10) [1, 2] f)"
  using bloom_filter_complete [of "[1, 2]" "[[1, 2], [3]]" 10 "[9]"] by simp

end
