(* ===== verification/Dbformat.thy ===== *)
theory Dbformat
  imports Comparators Coding Bloom
begin

unbundle bit_operations_syntax

text \<open>
  \<^verbatim>\<open>db/dbformat.h\<close> and \<^verbatim>\<open>db/dbformat.cpp\<close>: internal keys (a user key with an eight-byte tag that
  packs the sequence number and the value type), their comparator, the filter-policy wrapper and
  \<open>LookupKey\<close>. The user comparator is a parameter; \<open>user_comparator\<close> is the locale in which the
  internal comparator is shown to obey the comparator contract on well-formed keys, so every
  component that is proved against \<open>comparator_laws\<close> or \<open>three_way\<close> applies to internal keys.
\<close>

section \<open>Constants and data\<close>

definition kNumLevels :: nat where "kNumLevels = 7"
definition kL0_CompactionTrigger :: nat where "kL0_CompactionTrigger = 99999"
definition kL0_SlowdownWritesTrigger :: nat where "kL0_SlowdownWritesTrigger = 99999"
definition kL0_StopWritesTrigger :: nat where "kL0_StopWritesTrigger = 99999"
definition kMaxMemCompactLevel :: nat where "kMaxMemCompactLevel = 2"
definition kReadBytesPeriod :: nat where "kReadBytesPeriod = 1048576"

datatype ValueType = kTypeDeletion | kTypeValue

primrec ValueType_code :: "ValueType \<Rightarrow> u64" where
  "ValueType_code kTypeDeletion = 0"
| "ValueType_code kTypeValue = 1"

definition ValueType_of :: "byte \<Rightarrow> ValueType option" where
  "ValueType_of c = (if c = 0 then Some kTypeDeletion else if c = 1 then Some kTypeValue else None)"

definition kValueTypeForSeek :: ValueType where "kValueTypeForSeek = kTypeValue"

type_synonym SequenceNumber = u64

definition kMaxSequenceNumber :: SequenceNumber where
  "kMaxSequenceNumber = push_bit 56 1 - 1"

record ParsedInternalKey =
  user_key :: slice
  sequence :: SequenceNumber
  ktype :: ValueType

section \<open>Operations on internal keys\<close>

definition InternalKeyEncodingLength :: "ParsedInternalKey \<Rightarrow> nat" where
  "InternalKeyEncodingLength key = length (user_key key) + 8"

definition PackSequenceAndType :: "u64 \<Rightarrow> ValueType \<Rightarrow> u64" where
  "PackSequenceAndType seq t = push_bit 8 seq OR ValueType_code t"

definition AppendInternalKey :: "slice \<Rightarrow> ParsedInternalKey \<Rightarrow> slice" where
  "AppendInternalKey result key =
     PutFixed64 (result @ user_key key) (PackSequenceAndType (sequence key) (ktype key))"

definition ExtractUserKey :: "slice \<Rightarrow> slice" where
  "ExtractUserKey internal_key = take (length internal_key - 8) internal_key"

text \<open>The tag that both \<open>ExtractValueType\<close> and the comparator read at \<open>data() + size() - 8\<close>.\<close>

definition internal_tag :: "slice \<Rightarrow> u64" where
  "internal_tag internal_key = DecodeFixed64 (drop (length internal_key - 8) internal_key)"

definition ExtractValueType :: "slice \<Rightarrow> ValueType option" where
  "ExtractValueType internal_key = ValueType_of (ucast (internal_tag internal_key AND 0xff))"

definition ParseInternalKey :: "slice \<Rightarrow> ParsedInternalKey option" where
  "ParseInternalKey internal_key =
     (let n = length internal_key in
      if n < 8 then None
      else let num = DecodeFixed64 (drop (n - 8) internal_key);
               c = ucast (num AND 0xff) :: byte
           in case ValueType_of c of
                None \<Rightarrow> None
              | Some t \<Rightarrow> Some \<lparr>user_key = take (n - 8) internal_key, sequence = drop_bit 8 num, ktype = t\<rparr>)"

definition InternalKey :: "slice \<Rightarrow> SequenceNumber \<Rightarrow> ValueType \<Rightarrow> slice" where
  "InternalKey u s t = AppendInternalKey [] \<lparr>user_key = u, sequence = s, ktype = t\<rparr>"

section \<open>The internal key comparator and the filter-policy wrapper\<close>

definition internal_Compare :: "comparator \<Rightarrow> slice \<Rightarrow> slice \<Rightarrow> int" where
  "internal_Compare uc akey bkey =
     (let r = Compare uc (ExtractUserKey akey) (ExtractUserKey bkey) in
      if r = 0 then
        let anum = DecodeFixed64 (drop (length akey - 8) akey);
            bnum = DecodeFixed64 (drop (length bkey - 8) bkey)
        in if anum > bnum then -1 else if anum < bnum then 1 else r
      else r)"

definition internal_FindShortestSeparator :: "comparator \<Rightarrow> slice \<Rightarrow> slice \<Rightarrow> slice" where
  "internal_FindShortestSeparator uc start limit =
     (let user_start = ExtractUserKey start;
          user_limit = ExtractUserKey limit;
          tmp = FindShortestSeparator uc user_start user_limit
      in if length tmp < length user_start \<and> Compare uc user_start tmp < 0
         then PutFixed64 tmp (PackSequenceAndType kMaxSequenceNumber kValueTypeForSeek)
         else start)"

definition internal_FindShortSuccessor :: "comparator \<Rightarrow> slice \<Rightarrow> slice" where
  "internal_FindShortSuccessor uc key =
     (let ukey = ExtractUserKey key;
          tmp = FindShortSuccessor uc ukey
      in if length tmp < length ukey \<and> Compare uc ukey tmp < 0
         then PutFixed64 tmp (PackSequenceAndType kMaxSequenceNumber kValueTypeForSeek)
         else key)"

definition InternalKeyComparator :: "comparator \<Rightarrow> comparator" where
  "InternalKeyComparator uc =
     \<lparr>Name = str ''leveldb.InternalKeyComparator'',
      Compare = internal_Compare uc,
      FindShortestSeparator = internal_FindShortestSeparator uc,
      FindShortSuccessor = internal_FindShortSuccessor uc\<rparr>"

definition InternalFilterPolicy :: "filter_policy \<Rightarrow> filter_policy" where
  "InternalFilterPolicy p =
     \<lparr>Filter_Name = Filter_Name p,
      CreateFilter = (\<lambda>keys dst. CreateFilter p (map ExtractUserKey keys) dst),
      KeyMayMatch = (\<lambda>key f. KeyMayMatch p (ExtractUserKey key) f)\<rparr>"

section \<open>Lookup keys\<close>

text \<open>The array that the constructor fills, and the offset \<open>kstart_ - start_\<close> in it.\<close>

record LookupKey =
  lk_data :: slice
  lk_kstart :: nat

definition make_LookupKey :: "slice \<Rightarrow> SequenceNumber \<Rightarrow> LookupKey" where
  "make_LookupKey ukey s =
     (let usize = length ukey;
          klength = EncodeVarint32 (word_of_nat (usize + 8))
      in \<lparr>lk_data = klength @ ukey @ EncodeFixed64 (PackSequenceAndType s kValueTypeForSeek),
          lk_kstart = length klength\<rparr>)"

definition memtable_key :: "LookupKey \<Rightarrow> slice" where
  "memtable_key k = lk_data k"

definition lk_internal_key :: "LookupKey \<Rightarrow> slice" where
  "lk_internal_key k = drop (lk_kstart k) (lk_data k)"

definition lk_user_key :: "LookupKey \<Rightarrow> slice" where
  "lk_user_key k = take (length (lk_data k) - lk_kstart k - 8) (drop (lk_kstart k) (lk_data k))"

section \<open>Packing\<close>

lemma kMaxSequenceNumber_unat: "unat kMaxSequenceNumber = 2 ^ 56 - 1"
  by (simp add: kMaxSequenceNumber_def)

lemma seq_le_max: "s \<le> kMaxSequenceNumber \<longleftrightarrow> unat s < 2 ^ 56"
  by (simp add: word_le_nat_alt kMaxSequenceNumber_unat) linarith

lemma unat_ValueType_code: "unat (ValueType_code t) < 2"
  by (cases t) auto

lemma unat_Pack:
  assumes "s \<le> kMaxSequenceNumber"
  shows "unat (PackSequenceAndType s t) = unat s * 256 + unat (ValueType_code t)"
proof -
  have "unat (ValueType_code t OR push_bit 8 s) = unat (ValueType_code t) + unat s * 2 ^ 8"
    using assms unat_ValueType_code [of t] by (intro unat_or_push_bit) (auto simp: seq_le_max)
  then show ?thesis by (simp add: PackSequenceAndType_def or.commute)
qed

lemma Pack_seq: "s \<le> kMaxSequenceNumber \<Longrightarrow> drop_bit 8 (PackSequenceAndType s t) = s"
  using unat_ValueType_code [of t] by (simp add: word_unat_eq_iff unat_drop_bit unat_Pack)

lemma Pack_type: "s \<le> kMaxSequenceNumber \<Longrightarrow> ValueType_of (ucast (PackSequenceAndType s t AND 0xff)) = Some t"
proof -
  assume "s \<le> kMaxSequenceNumber"
  then have "unat (ucast (PackSequenceAndType s t AND 0xff) :: byte) = unat (ValueType_code t)"
    using unat_ValueType_code [of t]
    by (simp add: unat_ucast_mod and_literals unat_take_bit unat_Pack)
  then have "ucast (PackSequenceAndType s t AND 0xff) = (word_of_nat (unat (ValueType_code t)) :: byte)"
    by (rule unat_eq_imp_word_of_nat)
  then show ?thesis by (cases t) (simp_all add: ValueType_of_def)
qed

lemma Pack_less:
  assumes "s \<le> kMaxSequenceNumber" "s' \<le> kMaxSequenceNumber"
  shows "PackSequenceAndType s t < PackSequenceAndType s' t' \<longleftrightarrow>
    s < s' \<or> s = s' \<and> ValueType_code t < ValueType_code t'"
  using unat_ValueType_code [of t] unat_ValueType_code [of t']
  by (simp add: word_less_nat_alt unat_Pack assms word_unat_eq_iff) linarith

lemma Pack_le_max:
  assumes "s \<le> kMaxSequenceNumber"
  shows "PackSequenceAndType s t \<le> PackSequenceAndType kMaxSequenceNumber kValueTypeForSeek"
  using assms unat_ValueType_code [of t] Pack_less [of kMaxSequenceNumber s kValueTypeForSeek t]
  by (cases t) (auto simp: kValueTypeForSeek_def not_less [symmetric])

section \<open>Internal keys\<close>

lemma InternalKey_eq: "InternalKey u s t = u @ EncodeFixed64 (PackSequenceAndType s t)"
  by (simp add: InternalKey_def AppendInternalKey_def PutFixed64_def)

lemma length_InternalKey [simp, size_simps]: "length (InternalKey u s t) = length u + 8"
  by (simp add: InternalKey_eq)

lemma ExtractUserKey_InternalKey [simp]: "ExtractUserKey (InternalKey u s t) = u"
  by (simp add: InternalKey_eq ExtractUserKey_def)

lemma DecodeFixed64_Encode_Nil [simp]: "DecodeFixed64 (EncodeFixed64 v) = v"
  using DecodeFixed64_Encode [of v "[]"] by simp

lemma internal_tag_InternalKey [simp]: "internal_tag (InternalKey u s t) = PackSequenceAndType s t"
  by (simp add: internal_tag_def InternalKey_eq)

lemma ParseInternalKey_InternalKey [simp]:
  "s \<le> kMaxSequenceNumber \<Longrightarrow>
   ParseInternalKey (InternalKey u s t) = Some \<lparr>user_key = u, sequence = s, ktype = t\<rparr>"
  by (simp add: ParseInternalKey_def InternalKey_eq Let_def Pack_type Pack_seq)

lemma le_word_take_8:
  assumes "8 \<le> length k"
  shows "drop (length k - 8) k = EncodeFixed64 (DecodeFixed64 (drop (length k - 8) k))"
  using assms by (simp add: DecodeFixed64_le EncodeFixed64_le le_bytes_le_word)

text \<open>Parsing is the inverse of appending also in the other direction.\<close>

lemma ParseInternalKey_Some:
  assumes "ParseInternalKey k = Some p"
  shows "AppendInternalKey [] p = k" and "sequence p \<le> kMaxSequenceNumber"
proof -
  let ?num = "DecodeFixed64 (drop (length k - 8) k)"
  from assms have len: "8 \<le> length k" and p: "user_key p = take (length k - 8) k" "sequence p = drop_bit 8 ?num"
    and t: "ValueType_of (ucast (?num AND 0xff)) = Some (ktype p)"
    by (auto simp: ParseInternalKey_def Let_def split: if_splits option.splits)
  show seq: "sequence p \<le> kMaxSequenceNumber"
    using unat_less_exp [of ?num] by (simp add: p seq_le_max unat_drop_bit div_less_iff_less_mult)
  have "unat (ucast (?num AND 0xff) :: byte) = unat ?num mod 256"
    by (simp add: unat_ucast_mod and_literals unat_take_bit)
  then have "unat ?num mod 256 = unat (ValueType_code (ktype p))"
    using t by (auto simp: ValueType_of_def split: if_splits)
  then have "PackSequenceAndType (sequence p) (ktype p) = ?num"
    using seq div_mult_mod_eq [of "unat ?num" 256] by (simp add: word_unat_eq_iff unat_Pack) (simp add: p unat_drop_bit)
  then show "AppendInternalKey [] p = k"
    using le_word_take_8 [OF len] by (simp add: AppendInternalKey_def PutFixed64_def p(1))
qed

section \<open>The comparator contract for internal keys\<close>

lemma internal_Compare_tag:
  "internal_Compare uc a b =
     (let r = Compare uc (ExtractUserKey a) (ExtractUserKey b) in
      if r = 0 then if internal_tag a > internal_tag b then -1 else if internal_tag a < internal_tag b then 1 else 0
      else r)"
  by (simp add: internal_Compare_def internal_tag_def Let_def)

lemma internal_Compare_InternalKey:
  assumes "s \<le> kMaxSequenceNumber" "s' \<le> kMaxSequenceNumber"
  shows "internal_Compare uc (InternalKey u s t) (InternalKey u' s' t') =
     (if Compare uc u u' \<noteq> 0 then Compare uc u u'
      else if s' < s \<or> s = s' \<and> ValueType_code t' < ValueType_code t then -1
      else if s < s' \<or> s = s' \<and> ValueType_code t < ValueType_code t' then 1 else 0)"
  using assms by (auto simp: internal_Compare_tag Let_def Pack_less)

text \<open>
  The internal comparator also calls the user comparator's \<open>FindShortestSeparator\<close> on two equal user
  keys, a case for which \<^verbatim>\<open>include/leveldb/comparator.h\<close> promises nothing; \<open>separator_equal\<close> is what
  the assertion after the call needs there.
\<close>

locale user_comparator = comparator_laws uc "\<lambda>_. True" for uc :: comparator +
  assumes separator_equal: "Compare uc a b = 0 \<Longrightarrow> 0 \<le> Compare uc a (FindShortestSeparator uc a b)"
begin

lemma internal_flip: "0 < internal_Compare uc a b \<longleftrightarrow> internal_Compare uc b a < 0"
  using cmp_flip [of "ExtractUserKey a" "ExtractUserKey b"] cmp_eq_flip [of "ExtractUserKey a" "ExtractUserKey b"]
  by (auto simp: internal_Compare_tag Let_def)

lemma internal_le_iff:
  "internal_Compare uc a b \<le> 0 \<longleftrightarrow>
     Compare uc (ExtractUserKey a) (ExtractUserKey b) < 0 \<or>
     Compare uc (ExtractUserKey a) (ExtractUserKey b) = 0 \<and> internal_tag b \<le> internal_tag a"
  by (auto simp: internal_Compare_tag Let_def)

lemma internal_le_trans:
  assumes "internal_Compare uc a b \<le> 0" "internal_Compare uc b d \<le> 0"
  shows "internal_Compare uc a d \<le> 0"
  using assms cmp_less_trans cmp_eq_trans cmp_eq_cong cmp_eq_cong_right unfolding internal_le_iff
  by (meson order_trans)

lemma internal_separator:
  assumes "8 \<le> length a" "8 \<le> length b" "internal_Compare uc a b < 0"
  shows "8 \<le> length (internal_FindShortestSeparator uc a b) \<and>
    internal_Compare uc a (internal_FindShortestSeparator uc a b) \<le> 0 \<and>
    internal_Compare uc (internal_FindShortestSeparator uc a b) b < 0"
proof -
  let ?ua = "ExtractUserKey a" and ?ub = "ExtractUserKey b"
  let ?t = "FindShortestSeparator uc ?ua ?ub"
  have refl: "internal_Compare uc a a = 0" using internal_flip [of a a] by linarith
  show ?thesis
  proof (cases "length ?t < length ?ua \<and> Compare uc ?ua ?t < 0")
    case True
    let ?s = "InternalKey ?t kMaxSequenceNumber kValueTypeForSeek"
    have sep: "internal_FindShortestSeparator uc a b = ?s"
      using True by (simp add: internal_FindShortestSeparator_def Let_def InternalKey_eq PutFixed64_def)
    have "Compare uc ?ua ?ub < 0"
    proof (rule ccontr)
      assume "\<not> Compare uc ?ua ?ub < 0"
      then have eq: "Compare uc ?ua ?ub = 0" using assms(3) by (auto simp: internal_Compare_tag Let_def split: if_splits)
      then show False using True separator_equal [OF eq] by simp
    qed
    then have "Compare uc ?t ?ub < 0" using separator by blast
    then show ?thesis using True unfolding sep by (simp add: internal_Compare_tag Let_def)
  next
    case False
    then have "internal_FindShortestSeparator uc a b = a"
      by (auto simp: internal_FindShortestSeparator_def Let_def)
    then show ?thesis using assms refl by simp
  qed
qed

lemma internal_successor:
  assumes "8 \<le> length a"
  shows "8 \<le> length (internal_FindShortSuccessor uc a) \<and> internal_Compare uc a (internal_FindShortSuccessor uc a) \<le> 0"
proof (cases "length (FindShortSuccessor uc (ExtractUserKey a)) < length (ExtractUserKey a) \<and>
    Compare uc (ExtractUserKey a) (FindShortSuccessor uc (ExtractUserKey a)) < 0")
  case True
  then have "internal_FindShortSuccessor uc a =
      InternalKey (FindShortSuccessor uc (ExtractUserKey a)) kMaxSequenceNumber kValueTypeForSeek"
    by (simp add: internal_FindShortSuccessor_def Let_def InternalKey_eq PutFixed64_def)
  then show ?thesis using True by (simp add: internal_le_iff)
next
  case False
  then have "internal_FindShortSuccessor uc a = a" by (auto simp: internal_FindShortSuccessor_def Let_def)
  then show ?thesis using assms by (simp add: internal_le_iff)
qed

end

sublocale user_comparator \<subseteq> internal: comparator_laws "InternalKeyComparator uc" "\<lambda>k. 8 \<le> length k"
  by unfold_locales
    (auto simp: InternalKeyComparator_def internal_flip intro: internal_le_trans
      dest: internal_separator internal_successor)

lemma bytewise_separator_equal: "0 \<le> Slice_compare a (bytewise_FindShortestSeparator a a)"
  by (cases rule: bytewise_separator_cases [of a a]) auto

interpretation bytewise_user: user_comparator BytewiseComparator
  by unfold_locales (simp add: BytewiseComparator_def, metis bytewise_separator_equal)

lemma Compare_InternalKeyComparator [simp]: "Compare (InternalKeyComparator uc) = internal_Compare uc"
  by (simp add: InternalKeyComparator_def)

section \<open>Filters over user keys\<close>

lemma internal_filter_policy_laws:
  assumes "filter_policy_laws p"
  shows "filter_policy_laws (InternalFilterPolicy p)"
proof
  fix k keys dst
  show "CreateFilter (InternalFilterPolicy p) keys dst = dst @ CreateFilter (InternalFilterPolicy p) keys []"
    by (simp add: InternalFilterPolicy_def) (rule filter_policy_laws.create_appends [OF assms])
  show "k \<in> set keys \<Longrightarrow> KeyMayMatch (InternalFilterPolicy p) k (CreateFilter (InternalFilterPolicy p) keys [])"
    using filter_policy_laws.no_false_negative [OF assms] by (simp add: InternalFilterPolicy_def)
qed

interpretation internal_bloom: filter_policy_laws "InternalFilterPolicy (NewBloomFilterPolicy bits_per_key)"
  by (rule internal_filter_policy_laws, rule bloom.filter_policy_laws_axioms)

section \<open>Lookup keys\<close>

lemma memtable_key_eq:
  "memtable_key (make_LookupKey u s) =
     EncodeVarint32 (word_of_nat (length u + 8)) @ lk_internal_key (make_LookupKey u s)"
  by (simp add: memtable_key_def make_LookupKey_def lk_internal_key_def Let_def)

lemma lk_internal_key_eq [simp]: "lk_internal_key (make_LookupKey u s) = InternalKey u s kValueTypeForSeek"
  by (simp add: make_LookupKey_def lk_internal_key_def Let_def InternalKey_eq)

lemma lk_user_key_eq [simp]: "lk_user_key (make_LookupKey u s) = u"
  by (simp add: make_LookupKey_def lk_user_key_def Let_def)

lemma memtable_key_prefixed:
  "length u + 8 < 2 ^ 32 \<Longrightarrow>
   memtable_key (make_LookupKey u s) = PutLengthPrefixedSlice [] (InternalKey u s kValueTypeForSeek)"
  by (simp add: memtable_key_eq PutLengthPrefixedSlice_def PutVarint32_def)

text \<open>The buffer of \<open>usize + 13\<close> bytes is large enough.\<close>

lemma length_memtable_key: "length (memtable_key (make_LookupKey u s)) \<le> length u + 13"
  using length_EncodeVarint32 [of "word_of_nat (length u + 8)"] by (simp add: memtable_key_eq del: of_nat_add)

section \<open>Properties\<close>

text \<open>C20: A byte string parses as the internal key \<open>k\<close> exactly when it is what \<open>AppendInternalKey\<close>
  writes for \<open>k\<close> and the sequence number fits the 56 bits reserved for it: parsing and appending
  are inverse to each other, and strings with a wrong length or type byte are rejected.\<close>

theorem internal_key_codec:
  "ParseInternalKey b = Some k \<longleftrightarrow> AppendInternalKey [] k = b \<and> sequence k \<le> kMaxSequenceNumber"
proof
  assume "ParseInternalKey b = Some k"
  then show "AppendInternalKey [] k = b \<and> sequence k \<le> kMaxSequenceNumber"
    using ParseInternalKey_Some by blast
next
  assume "AppendInternalKey [] k = b \<and> sequence k \<le> kMaxSequenceNumber"
  then show "ParseInternalKey b = Some k"
    using ParseInternalKey_InternalKey [of "sequence k" "user_key k" "ktype k"]
    by (cases k) (auto simp: InternalKey_def)
qed

text \<open>C19: The assertions of \<open>InternalKeyComparator::FindShortestSeparator\<close> and \<open>FindShortSuccessor\<close>
  never fail with the bytewise user comparator: the separator of two well-formed keys
  \<open>a < b\<close> lies in \<open>[a, b)\<close>, the successor of \<open>a\<close> is at or after \<open>a\<close>, and both are again
  well-formed internal keys.\<close>

theorem internal_shortening:
  assumes "8 \<le> length a" "8 \<le> length b" "internal_Compare BytewiseComparator a b < 0"
  shows "(let s = internal_FindShortestSeparator BytewiseComparator a b in
      8 \<le> length s \<and> internal_Compare BytewiseComparator a s \<le> 0 \<and> internal_Compare BytewiseComparator s b < 0) \<and>
    (let s = internal_FindShortSuccessor BytewiseComparator a in
      8 \<le> length s \<and> internal_Compare BytewiseComparator a s \<le> 0)"
  using bytewise_user.internal_separator [OF assms] bytewise_user.internal_successor [OF assms(1)]
  by (simp add: Let_def)

theorem internal_shortening_witness:
  "let a = InternalKey (str ''abcdef'') 5 kTypeValue; b = InternalKey (str ''axy'') 3 kTypeValue;
       s = internal_FindShortestSeparator BytewiseComparator a b
   in 8 \<le> length s \<and> internal_Compare BytewiseComparator a s \<le> 0 \<and> internal_Compare BytewiseComparator s b < 0"
proof -
  let ?a = "InternalKey (str ''abcdef'') 5 kTypeValue" and ?b = "InternalKey (str ''axy'') 3 kTypeValue"
  have "8 \<le> length ?a" "8 \<le> length ?b" "internal_Compare BytewiseComparator ?a ?b < 0"
    by (simp_all add: internal_Compare_tag Let_def)
  from internal_shortening [OF this] show ?thesis unfolding Let_def by blast
qed

text \<open>C21: The key that \<open>LookupKey\<close> builds for a user key and a snapshot separates the entries of that
  user key: those written after the snapshot sort before it and all others at or after it, so the
  first entry not before it is the newest one the snapshot may see.\<close>

theorem lookup_key_separates:
  assumes "s \<le> kMaxSequenceNumber" "s' \<le> kMaxSequenceNumber"
  shows "internal_Compare BytewiseComparator (InternalKey u s' t) (lk_internal_key (make_LookupKey u s)) < 0
    \<longleftrightarrow> s < s'"
  using assms by (cases t) (auto simp: internal_Compare_InternalKey kValueTypeForSeek_def)

theorem lookup_key_separates_witness:
  "(3 :: SequenceNumber) \<le> kMaxSequenceNumber \<and> (7 :: SequenceNumber) \<le> kMaxSequenceNumber \<and>
   internal_Compare BytewiseComparator (InternalKey [1, 2] 7 kTypeDeletion)
     (lk_internal_key (make_LookupKey [1, 2] 3)) < 0"
  using lookup_key_separates [of 3 7 "[1, 2]" kTypeDeletion] by (simp add: seq_le_max)

end
