(* ===== verification/Filter_Block.thy ===== *)
theory Filter_Block
  imports Dbformat
begin

unbundle bit_operations_syntax

text \<open>
  \<^verbatim>\<open>table/filter_block.h\<close> and \<^verbatim>\<open>table/filter_block.cpp\<close>: one filter for every 2 KB of data blocks.
  The builder is a record with the fields of \<open>FilterBlockBuilder\<close> (\<open>tmp_keys_\<close> is empty between
  calls and is left out); the reader parses the block. Inside \<open>filter_policy_laws\<close> it is shown that
  a key that was added under a block offset always matches at that offset.
\<close>

section \<open>Builder\<close>

definition kFilterBaseLg :: nat where "kFilterBaseLg = 11"
definition kFilterBase :: u64 where "kFilterBase = push_bit kFilterBaseLg 1"

record FilterBlockBuilder =
  fb_keys :: slice
  fb_start :: "nat list"
  fb_result :: slice
  fb_offsets :: "u32 list"

definition new_FilterBlockBuilder :: FilterBlockBuilder where
  "new_FilterBlockBuilder = \<lparr>fb_keys = [], fb_start = [], fb_result = [], fb_offsets = []\<rparr>"

definition fb_tmp_keys :: "slice \<Rightarrow> nat list \<Rightarrow> nat \<Rightarrow> slice list" where
  "fb_tmp_keys keys start num_keys =
     map (\<lambda>i. take (start ! (i + 1) - start ! i) (drop (start ! i) keys)) [0..<num_keys]"

definition GenerateFilter :: "filter_policy \<Rightarrow> FilterBlockBuilder \<Rightarrow> FilterBlockBuilder" where
  "GenerateFilter policy b =
     (let num_keys = length (fb_start b) in
      if num_keys = 0 then
        b\<lparr>fb_offsets := fb_offsets b @ [word_of_nat (length (fb_result b))]\<rparr>
      else
        let start = fb_start b @ [length (fb_keys b)];
            tmp_keys = fb_tmp_keys (fb_keys b) start num_keys
        in b\<lparr>fb_offsets := fb_offsets b @ [word_of_nat (length (fb_result b))],
             fb_result := CreateFilter policy tmp_keys (fb_result b),
             fb_keys := [],
             fb_start := []\<rparr>)"

function StartBlock_loop :: "filter_policy \<Rightarrow> nat \<Rightarrow> FilterBlockBuilder \<Rightarrow> FilterBlockBuilder" where
  "StartBlock_loop policy filter_index b =
     (if filter_index > length (fb_offsets b)
      then StartBlock_loop policy filter_index (GenerateFilter policy b)
      else b)"
  by pat_completeness auto
termination
  by (relation "measure (\<lambda>(p, i, b). i - length (fb_offsets b))") (auto simp: GenerateFilter_def Let_def)

definition StartBlock :: "filter_policy \<Rightarrow> u64 \<Rightarrow> FilterBlockBuilder \<Rightarrow> FilterBlockBuilder" where
  "StartBlock policy block_offset b = StartBlock_loop policy (unat (block_offset div kFilterBase)) b"

definition AddKey :: "slice \<Rightarrow> FilterBlockBuilder \<Rightarrow> FilterBlockBuilder" where
  "AddKey key b = b\<lparr>fb_start := fb_start b @ [length (fb_keys b)], fb_keys := fb_keys b @ key\<rparr>"

definition Finish_filter :: "filter_policy \<Rightarrow> FilterBlockBuilder \<Rightarrow> slice" where
  "Finish_filter policy b =
     (let b = (if fb_start b \<noteq> [] then GenerateFilter policy b else b);
          array_offset = word_of_nat (length (fb_result b)) :: u32;
          result = foldl PutFixed32 (fb_result b) (fb_offsets b);
          result = PutFixed32 result array_offset
      in result @ [word_of_nat kFilterBaseLg])"

section \<open>Reader\<close>

text \<open>\<open>data_\<close> is \<^term>\<open>None\<close> when the constructor returned early; \<open>fr_offset\<close> is \<open>offset_ - data_\<close>.\<close>

record FilterBlockReader =
  fr_data :: "slice option"
  fr_offset :: nat
  fr_num :: nat
  fr_base_lg :: nat

definition make_FilterBlockReader :: "slice \<Rightarrow> FilterBlockReader" where
  "make_FilterBlockReader contents =
     (let n = length contents;
          r = \<lparr>fr_data = None, fr_offset = 0, fr_num = 0, fr_base_lg = 0\<rparr>
      in if n < 5 then r
         else
           let r = r\<lparr>fr_base_lg := unat (contents ! (n - 1))\<rparr>;
               last_word = unat (DecodeFixed32 (drop (n - 5) contents))
           in if last_word > n - 5 then r
              else r\<lparr>fr_data := Some contents, fr_offset := last_word, fr_num := (n - 5 - last_word) div 4\<rparr>)"

definition FilterBlock_KeyMayMatch :: "filter_policy \<Rightarrow> FilterBlockReader \<Rightarrow> u64 \<Rightarrow> slice \<Rightarrow> bool" where
  "FilterBlock_KeyMayMatch policy r block_offset key =
     (let index = unat (drop_bit (fr_base_lg r) block_offset) in
      case fr_data r of
        None \<Rightarrow> True
      | Some data \<Rightarrow>
          if index < fr_num r then
            let start = unat (DecodeFixed32 (drop (fr_offset r + index * 4) data));
                limit = unat (DecodeFixed32 (drop (fr_offset r + index * 4 + 4) data))
            in if start \<le> limit \<and> limit \<le> fr_offset r
               then KeyMayMatch policy key (take (limit - start) (drop start data))
               else if start = limit then False else True
          else True)"

text \<open>The calls that build a block: \<open>(StartBlock AddKey*)* Finish\<close>.\<close>

definition build_filter_block :: "filter_policy \<Rightarrow> (u64 \<times> slice list) list \<Rightarrow> slice" where
  "build_filter_block policy blocks =
     Finish_filter policy
       (fold (\<lambda>(off, keys) b. fold AddKey keys (StartBlock policy off b)) blocks new_FilterBlockBuilder)"

declare StartBlock_loop.simps [simp del]

section \<open>Flattened keys\<close>

fun offsets_of :: "nat \<Rightarrow> 'a list list \<Rightarrow> nat list" where
  "offsets_of base [] = []"
| "offsets_of base (x # xs) = base # offsets_of (base + length x) xs"

lemma length_offsets_of [simp]: "length (offsets_of b xs) = length xs"
  by (induction xs arbitrary: b) auto

lemma offsets_of_append: "offsets_of b (xs @ ys) = offsets_of b xs @ offsets_of (b + length (concat xs)) ys"
  by (induction xs arbitrary: b) (auto simp: add.assoc)

lemma nth_offsets_of: "i < length xs \<Longrightarrow> offsets_of b xs ! i = b + length (concat (take i xs))"
proof (induction xs arbitrary: b i)
  case (Cons x xs)
  then show ?case by (cases i) auto
qed simp

lemma nth_offsets_of_snoc:
  "i \<le> length xs \<Longrightarrow> (offsets_of 0 xs @ [length (concat xs)]) ! i = length (concat (take i xs))"
  by (auto simp: nth_append nth_offsets_of)

lemma concat_segment:
  assumes "i < length xs"
  shows "take (length (concat (take (Suc i) xs)) - length (concat (take i xs)))
    (drop (length (concat (take i xs))) (concat xs)) = xs ! i"
proof -
  have "concat xs = concat (take i xs) @ xs ! i @ concat (drop (Suc i) xs)"
    using id_take_nth_drop [OF assms] by (metis concat.simps(2) concat_append)
  moreover have "concat (take (Suc i) xs) = concat (take i xs) @ xs ! i"
    using assms by (simp add: take_Suc_conv_app_nth)
  ultimately show ?thesis by simp
qed

lemma fb_tmp_keys_flatten:
  "fb_tmp_keys (concat ks) (offsets_of 0 ks @ [length (concat ks)]) (length ks) = ks"
  by (rule nth_equalityI)
    (auto simp: fb_tmp_keys_def nth_offsets_of_snoc concat_segment simp del: append.simps)

section \<open>What the builder has recorded\<close>

text \<open>
  \<open>fb_rel p b done pend\<close>: the builder has emitted one filter for each key list of \<open>done\<close> (none for
  an empty list) and holds the flattened keys \<open>pend\<close> for the next one.
\<close>

definition filters :: "filter_policy \<Rightarrow> slice list list \<Rightarrow> slice list" where
  "filters p done = map (\<lambda>ks. if ks = [] then [] else CreateFilter p ks []) done"

definition fb_rel :: "filter_policy \<Rightarrow> FilterBlockBuilder \<Rightarrow> slice list list \<Rightarrow> slice list \<Rightarrow> bool" where
  "fb_rel p b done pend \<longleftrightarrow>
     fb_keys b = concat pend \<and> fb_start b = offsets_of 0 pend \<and>
     fb_result b = concat (filters p done) \<and>
     fb_offsets b = map word_of_nat (offsets_of 0 (filters p done))"

definition filter_index :: "u64 \<Rightarrow> nat" where
  "filter_index off = unat (off div kFilterBase)"

lemma filter_index_shift: "filter_index off = unat (drop_bit kFilterBaseLg off)"
  by (simp add: filter_index_def kFilterBase_def kFilterBaseLg_def drop_bit_eq_div)

lemma fb_rel_new: "fb_rel p new_FilterBlockBuilder [] []"
  by (simp add: fb_rel_def new_FilterBlockBuilder_def filters_def)

lemma fb_rel_length [size_simps]: "fb_rel p b done pend \<Longrightarrow> length (fb_offsets b) = length done"
  by (simp add: fb_rel_def filters_def)

lemma fb_rel_AddKey: "fb_rel p b done pend \<Longrightarrow> fb_rel p (AddKey key b) done (pend @ [key])"
  by (simp add: fb_rel_def AddKey_def offsets_of_append)

lemma fb_rel_AddKeys: "fb_rel p b done pend \<Longrightarrow> fb_rel p (fold AddKey keys b) done (pend @ keys)"
proof (induction keys arbitrary: b pend)
  case (Cons key keys)
  from Cons.IH [OF fb_rel_AddKey [OF Cons.prems]] show ?case by simp
qed simp

context filter_policy_laws
begin

lemma fb_rel_GenerateFilter:
  assumes "fb_rel policy b done pend"
  shows "fb_rel policy (GenerateFilter policy b) (done @ [pend]) []"
proof (cases "pend = []")
  case True
  with assms show ?thesis
    by (simp add: fb_rel_def GenerateFilter_def filters_def offsets_of_append)
next
  case False
  then have "fb_start b \<noteq> []" using assms by (cases pend) (auto simp: fb_rel_def)
  moreover have "CreateFilter policy pend (fb_result b) = fb_result b @ CreateFilter policy pend []"
    by (rule create_appends)
  ultimately show ?thesis
    using assms False
    by (simp add: fb_rel_def GenerateFilter_def filters_def offsets_of_append Let_def fb_tmp_keys_flatten)
qed

lemma fb_rel_StartBlock_loop:
  assumes "fb_rel policy b done pend" "length done \<le> i"
  shows "\<exists>done' pend' ext. fb_rel policy (StartBlock_loop policy i b) done' pend' \<and> length done' = i \<and>
    done' @ [pend'] = done @ [pend] @ ext"
  using assms
proof (induction "i - length done" arbitrary: b "done" pend)
  case 0
  then have "StartBlock_loop policy i b = b"
    by (subst StartBlock_loop.simps) (simp add: fb_rel_length)
  with 0 show ?case by (intro exI [of _ "done"] exI [of _ pend] exI [of _ "[]"]) simp
next
  case (Suc n)
  have step: "StartBlock_loop policy i b = StartBlock_loop policy i (GenerateFilter policy b)"
    using Suc by (subst StartBlock_loop.simps) (simp add: fb_rel_length)
  have less: "n = i - length (done @ [pend])" "length (done @ [pend]) \<le> i" using Suc.hyps(2) by auto
  obtain done' pend' ext where "fb_rel policy (StartBlock_loop policy i (GenerateFilter policy b)) done' pend'"
    "length done' = i" "done' @ [pend'] = (done @ [pend]) @ [[]] @ ext"
    using Suc.hyps(1) [OF less(1) fb_rel_GenerateFilter [OF Suc.prems(1)] less(2)] by auto
  then show ?case unfolding step
    by (intro exI [of _ done'] exI [of _ pend'] exI [of _ "[[]] @ ext"]) simp
qed

text \<open>After any sequence of calls each key is filed under the index of its block offset.\<close>

lemma fb_rel_blocks:
  assumes "fb_rel policy b done pend" "sorted (map (filter_index \<circ> fst) blocks)"
    and "\<And>off keys. (off, keys) \<in> set blocks \<Longrightarrow> length done \<le> filter_index off"
  shows "\<exists>done' pend'. length done \<le> length done' \<and>
    fb_rel policy (fold (\<lambda>(off, keys) b. fold AddKey keys (StartBlock policy off b)) blocks b) done' pend' \<and>
    (\<forall>i \<le> length done. set ((done @ [pend]) ! i) \<subseteq> set ((done' @ [pend']) ! i)) \<and>
    (\<forall>(off, keys) \<in> set blocks. filter_index off \<le> length done' \<and>
       set keys \<subseteq> set ((done' @ [pend']) ! filter_index off))"
  using assms
proof (induction blocks arbitrary: b "done" pend)
  case Nil
  then show ?case by auto
next
  case (Cons blk blocks)
  obtain off keys where blk: "blk = (off, keys)" by (cases blk)
  let ?b = "fold AddKey keys (StartBlock policy off b)"
  have "length done \<le> filter_index off" using Cons.prems(3) [of off keys] blk by simp
  then obtain d1 p1 ext where 1: "fb_rel policy (StartBlock policy off b) d1 p1" "length d1 = filter_index off"
    "d1 @ [p1] = done @ [pend] @ ext"
    using fb_rel_StartBlock_loop [OF Cons.prems(1)] unfolding StartBlock_def filter_index_def by metis
  then have rel: "fb_rel policy ?b d1 (p1 @ keys)" by (intro fb_rel_AddKeys)
  have "filter_index off \<le> filter_index off'" if "(off', keys') \<in> set blocks" for off' keys'
    using Cons.prems(2) that blk by (force simp: comp_def)
  then obtain d2 p2 where 2: "length d1 \<le> length d2"
    "fb_rel policy (fold (\<lambda>(off, keys) b. fold AddKey keys (StartBlock policy off b)) blocks ?b) d2 p2"
    and mono: "\<And>i. i \<le> length d1 \<Longrightarrow> set ((d1 @ [p1 @ keys]) ! i) \<subseteq> set ((d2 @ [p2]) ! i)"
    and filed: "\<forall>(off, keys) \<in> set blocks. filter_index off \<le> length d2 \<and> set keys \<subseteq> set ((d2 @ [p2]) ! filter_index off)"
    using Cons.IH [OF rel] Cons.prems(2) 1(2) by auto
  have "set ((done @ [pend]) ! i) \<subseteq> set ((d2 @ [p2]) ! i)" if "i \<le> length done" for i
  proof -
    have "(done @ [pend]) ! i = (d1 @ [p1]) ! i" using that by (simp add: 1(3) nth_append)
    moreover have "i \<le> length d1" using that 1(3) by (metis \<open>length done \<le> filter_index off\<close> 1(2) order_trans)
    ultimately show ?thesis using mono [of i] by (cases "i = length d1") (auto simp: nth_append)
  qed
  moreover have "set keys \<subseteq> set ((d2 @ [p2]) ! filter_index off)"
    using mono [of "filter_index off"] 1(2) by (auto simp: nth_append)
  moreover have "length done \<le> length d2" using \<open>length done \<le> filter_index off\<close> 1(2) 2(1) by simp
  ultimately show ?case using 2 filed 1(2) by (auto simp: blk intro!: exI [of _ d2] exI [of _ p2])
qed

end

section \<open>Reading a finished block\<close>

lemma drop_fixed32_array:
  "i < length ws \<Longrightarrow> drop (4 * i) (concat (map EncodeFixed32 ws) @ r) =
     EncodeFixed32 (ws ! i) @ concat (map EncodeFixed32 (drop (Suc i) ws)) @ r"
proof (induction ws arbitrary: i)
  case (Cons w ws)
  then show ?case by (cases i) auto
qed simp

lemma DecodeFixed32_array:
  "i < length ws \<Longrightarrow> DecodeFixed32 (drop (4 * i) (concat (map EncodeFixed32 ws) @ r)) = ws ! i"
  by (subst drop_fixed32_array) simp_all

definition filter_layout :: "slice list \<Rightarrow> slice" where
  "filter_layout fs =
     concat fs @ concat (map EncodeFixed32 (map word_of_nat (offsets_of 0 fs @ [length (concat fs)]))) @
     [word_of_nat kFilterBaseLg]"

lemma reader_layout:
  assumes "length (concat fs) < 2 ^ 32"
  shows "make_FilterBlockReader (filter_layout fs) =
    \<lparr>fr_data = Some (filter_layout fs), fr_offset = length (concat fs), fr_num = length fs, fr_base_lg = kFilterBaseLg\<rparr>"
proof -
  let ?n = "length (concat fs) + 4 * length fs + 5"
  have len: "length (filter_layout fs) = ?n"
    by (simp add: filter_layout_def del: length_concat map_append map_map)
  have "drop (?n - 5) (filter_layout fs) = EncodeFixed32 (word_of_nat (length (concat fs))) @ [word_of_nat kFilterBaseLg]"
    by (simp add: filter_layout_def del: length_concat map_map)
  moreover have "filter_layout fs ! (?n - 1) = word_of_nat kFilterBaseLg"
    by (simp add: filter_layout_def nth_append del: length_concat map_map)
  ultimately show ?thesis
    using assms by (simp add: make_FilterBlockReader_def Let_def len unat_word_of_nat_small kFilterBaseLg_def del: length_concat)
qed

lemma concat_take_mono: "i \<le> j \<Longrightarrow> length (concat (take i xs)) \<le> length (concat (take j xs))"
  by (metis append_take_drop_id concat_append length_append le_add1 min.absorb1 take_take)

lemma length_concat_take: "length (concat (take j xs)) \<le> length (concat xs)"
  by (metis append_take_drop_id concat_append length_append le_add1)

lemma KeyMayMatch_layout:
  assumes "length (concat fs) < 2 ^ 32" "filter_index off < length fs"
  shows "FilterBlock_KeyMayMatch p (make_FilterBlockReader (filter_layout fs)) off key \<longleftrightarrow>
    KeyMayMatch p key (fs ! filter_index off)"
proof -
  define i where "i = filter_index off"
  define ws :: "u32 list" where "ws = map word_of_nat (offsets_of 0 fs @ [length (concat fs)])"
  define q where "q = length (concat fs)"
  have total: "length (concat (take j fs)) \<le> q" for j
    unfolding q_def by (rule length_concat_take)
  have word: "unat (DecodeFixed32 (drop (q + j * 4) (filter_layout fs))) = length (concat (take j fs))"
    if "j \<le> length fs" for j
  proof -
    have "drop (q + j * 4) (filter_layout fs) = drop (4 * j) (concat (map EncodeFixed32 ws) @ [word_of_nat kFilterBaseLg])"
      by (simp add: filter_layout_def ws_def q_def mult.commute del: length_concat)
    moreover have "j < length ws" using that by (simp add: ws_def)
    moreover have "ws ! j = word_of_nat (length (concat (take j fs)))"
      using that nth_offsets_of_snoc [OF that] by (simp add: ws_def del: length_concat map_append)
    ultimately show ?thesis
      using total [of j] assms(1)
      by (simp only: DecodeFixed32_array) (simp add: unat_word_of_nat_small q_def del: length_concat)
  qed
  have i: "i < length fs" using assms(2) by (simp add: i_def)
  have "take (length (concat (take (Suc i) fs)) - length (concat (take i fs)))
      (drop (length (concat (take i fs))) (filter_layout fs)) = fs ! i"
  proof -
    have "length (concat (take (Suc i) fs)) \<le> length (concat fs)" using total [of "Suc i"] by (simp add: q_def)
    then show ?thesis
      using concat_segment [OF i] concat_take_mono [of i "Suc i" fs]
      by (simp add: filter_layout_def del: length_concat)
  qed
  moreover have "q + i * 4 + 4 = q + Suc i * 4" by simp
  then have "unat (DecodeFixed32 (drop (q + i * 4 + 4) (filter_layout fs))) = length (concat (take (Suc i) fs))"
    using word [of "Suc i"] i by (simp only: Suc_leI)
  ultimately show ?thesis
    using word [of i] i total [of "Suc i"] concat_take_mono [of i "Suc i" fs]
    by (simp add: FilterBlock_KeyMayMatch_def reader_layout [OF assms(1)] Let_def
        filter_index_shift [symmetric] i_def [symmetric] q_def [symmetric] del: length_concat)
qed

lemma Finish_filter_layout:
  assumes "filter_policy_laws p" "fb_rel p b done pend"
  shows "Finish_filter p b = filter_layout (filters p (if pend = [] then done else done @ [pend]))"
proof -
  have "fb_start b = [] \<longleftrightarrow> pend = []" using assms(2) by (cases pend) (auto simp: fb_rel_def)
  moreover have "fb_rel p (if pend = [] then b else GenerateFilter p b) (if pend = [] then done else done @ [pend]) []"
    using assms filter_policy_laws.fb_rel_GenerateFilter by auto
  ultimately show ?thesis
    by (auto simp: Finish_filter_def Let_def fb_rel_def filter_layout_def foldl_PutFixed32 PutFixed32_def
        simp del: length_concat)
qed

section \<open>Properties\<close>

lemma filter_block_sound:
  assumes "filter_policy_laws p" "sorted (map (filter_index \<circ> fst) blocks)" "(off, keys) \<in> set blocks" "k \<in> set keys"
    and "length (build_filter_block p blocks) < 2 ^ 32"
  shows "FilterBlock_KeyMayMatch p (make_FilterBlockReader (build_filter_block p blocks)) off k"
proof -
  obtain d q where rel: "fb_rel p (fold (\<lambda>(off, keys) b. fold AddKey keys (StartBlock p off b)) blocks new_FilterBlockBuilder) d q"
    and filed: "filter_index off \<le> length d" "set keys \<subseteq> set ((d @ [q]) ! filter_index off)"
    using filter_policy_laws.fb_rel_blocks [OF assms(1) fb_rel_new assms(2)] assms(3) by fastforce
  define all where "all = (if q = [] then d else d @ [q])"
  have layout: "build_filter_block p blocks = filter_layout (filters p all)"
    unfolding build_filter_block_def all_def by (rule Finish_filter_layout [OF assms(1) rel])
  have idx: "filter_index off < length all" "k \<in> set (all ! filter_index off)"
    using filed assms(4) by (auto simp: all_def nth_append less_Suc_eq_le split: if_splits)
  then have "filters p all ! filter_index off = CreateFilter p (all ! filter_index off) []"
    by (auto simp: filters_def)
  moreover have "length (concat (filters p all)) < 2 ^ 32"
    using assms(5) by (simp add: layout filter_layout_def del: length_concat)
  ultimately show ?thesis
    using idx filter_policy_laws.no_false_negative [OF assms(1)]
    by (simp add: layout KeyMayMatch_layout filters_def)
qed

text \<open>C14: A filter block never hides a key: whatever sequence of \<open>StartBlock\<close> (at non-decreasing
  offsets) and \<open>AddKey\<close> calls built it, the reader answers that the key may be there for each key
  at the offset of the block it was added for, as long as the block is smaller than 4 GiB. The policy
  is the one a table uses: a Bloom filter wrapped to look at user keys only.\<close>

theorem filter_block_no_false_negative:
  assumes "sorted (map (filter_index \<circ> fst) blocks)" "(off, keys) \<in> set blocks" "k \<in> set keys"
    and "length (build_filter_block (InternalFilterPolicy (NewBloomFilterPolicy b)) blocks) < 2 ^ 32"
  shows "FilterBlock_KeyMayMatch (InternalFilterPolicy (NewBloomFilterPolicy b))
    (make_FilterBlockReader (build_filter_block (InternalFilterPolicy (NewBloomFilterPolicy b)) blocks)) off k"
  by (rule filter_block_sound [OF internal_bloom.filter_policy_laws_axioms assms])

theorem filter_block_no_false_negative_witness:
  "FilterBlock_KeyMayMatch (InternalFilterPolicy (NewBloomFilterPolicy 10))
    (make_FilterBlockReader (build_filter_block (InternalFilterPolicy (NewBloomFilterPolicy 10))
       [(0, [InternalKey [97] 1 kTypeValue]), (5000, [InternalKey [98] 2 kTypeValue])]))
    5000 (InternalKey [98] 2 kTypeValue)"
proof (rule filter_block_no_false_negative [where keys = "[InternalKey [98] 2 kTypeValue]"])
  let ?blocks = "[(0, [InternalKey [97] 1 kTypeValue]), (5000 :: u64, [InternalKey [98] 2 kTypeValue])]"
  show "sorted (map (filter_index \<circ> fst) ?blocks)" by code_simp
  show "length (build_filter_block (InternalFilterPolicy (NewBloomFilterPolicy 10)) ?blocks) < 2 ^ 32"
    by (simp add: build_filter_block_def new_FilterBlockBuilder_def AddKey_def StartBlock_def StartBlock_loop.simps
        GenerateFilter_def Finish_filter_def kFilterBase_def kFilterBaseLg_def PutFixed32_def Let_def
        InternalFilterPolicy_def NewBloomFilterPolicy_def bloom_CreateFilter_def fb_tmp_keys_def)
qed simp_all

end
