(* ===== verification/Random_Gen.thy ===== *)
theory Random_Gen
  imports Prelude
begin

unbundle bit_operations_syntax

text \<open>
  \<^verbatim>\<open>util/random.h\<close>: the generator behind the tower heights of the skip list and the sampling of
  reads. It is shown to compute the multiplicative congruence modulo \<open>2 ^ 31 - 1\<close> that its comment
  states, without overflow, and never to reach the two values that would stop it.
\<close>

section \<open>Model\<close>

definition Random :: "u32 \<Rightarrow> u32" where
  "Random s =
     (let seed = s AND 0x7fffffff in if seed = 0 \<or> seed = 2147483647 then 1 else seed)"

definition Random_Next :: "u32 \<Rightarrow> u32" where
  "Random_Next seed =
     (let M = 2147483647 :: u32;
          product = ucast seed * 16807 :: u64;
          seed = ucast (drop_bit 31 product + (product AND ucast M)) :: u32
      in if seed > M then seed - M else seed)"

text \<open>The methods that return a number return the new state with it.\<close>

definition Random_Uniform :: "u32 \<Rightarrow> u32 \<Rightarrow> u32 \<times> u32" where
  "Random_Uniform seed n = (let s = Random_Next seed in (s mod n, s))"

definition Random_OneIn :: "u32 \<Rightarrow> u32 \<Rightarrow> bool \<times> u32" where
  "Random_OneIn seed n = (let s = Random_Next seed in (s mod n = 0, s))"

definition Random_Skewed :: "u32 \<Rightarrow> u32 \<Rightarrow> u32 \<times> u32" where
  "Random_Skewed seed max_log =
     (let (base, s) = Random_Uniform seed (max_log + 1) in Random_Uniform s (push_bit (unat base) 1))"

definition good_seed :: "u32 \<Rightarrow> bool" where
  "good_seed s \<longleftrightarrow> 0 < unat s \<and> unat s < 2 ^ 31 - 1"

section \<open>Lemmas\<close>

lemma good_seed_Random: "good_seed (Random s)"
proof -
  have "(0x7fffffff :: u32) = mask 31" by (simp add: mask_eq_exp_minus_1)
  then have "unat (s AND 0x7fffffff) < 2 ^ 31" by (simp only: unat_and_mask) simp
  moreover have "unat (s AND 0x7fffffff) \<noteq> 2147483647" if "s AND 0x7fffffff \<noteq> 2147483647"
    using that unat_eq_imp_word_of_nat [of "s AND 0x7fffffff" 2147483647] by auto
  ultimately show ?thesis by (auto simp: good_seed_def Random_def Let_def unat_gt_0)
qed

lemma mersenne_step:
  fixes p :: nat
  assumes "p < (2 ^ 31 - 1) * 2 ^ 31"
  shows "p mod (2 ^ 31 - 1) = (p div 2 ^ 31 + p mod 2 ^ 31) mod (2 ^ 31 - 1)"
proof -
  have "p = (2 ^ 31 - 1) * (p div 2 ^ 31) + (p div 2 ^ 31 + p mod 2 ^ 31)"
    using div_mult_mod_eq [of p "2 ^ 31"] by simp
  then show ?thesis by (metis mod_mult_self4)
qed

lemma product_not_multiple:
  assumes "0 < s" "s < (2 ^ 31 - 1 :: nat)"
  shows "s * 16807 mod (2 ^ 31 - 1) \<noteq> 0"
proof
  assume "s * 16807 mod (2 ^ 31 - 1) = 0"
  then have "(2 ^ 31 - 1) dvd s * 16807" by (simp add: mod_eq_0_iff_dvd)
  moreover have "coprime (2 ^ 31 - 1 :: nat) 16807"
    by (simp add: coprime_iff_gcd_eq_1 gcd_non_0_nat)
  ultimately have "(2 ^ 31 - 1) dvd s" by (simp add: coprime_dvd_mult_left_iff)
  then show False using assms by (auto dest: dvd_imp_le)
qed

lemma Random_Next_unat:
  assumes "good_seed s"
  shows "unat (Random_Next s) = unat s * 16807 mod (2 ^ 31 - 1)"
proof -
  define p where "p = unat s * 16807"
  have s: "unat s < 2 ^ 31 - 1" "0 < unat s" using assms by (auto simp: good_seed_def)
  have p: "p < 2 ^ 31 * 16807" using s by (simp add: p_def)
  define q where "q = (ucast s * 16807 :: u64)"
  define r where "r = (ucast (drop_bit 31 q + (q AND ucast (2147483647 :: u32))) :: u32)"
  have product: "unat q = p" using s by (simp add: q_def unat_word_ariths unat_ucast_up p_def)
  have "(ucast (2147483647 :: u32) :: u64) = mask 31" by (simp add: mask_eq_exp_minus_1)
  then have "unat (q AND ucast (2147483647 :: u32)) = p mod 2 ^ 31" by (simp only: unat_and_mask product)
  then have "unat (drop_bit 31 q + (q AND ucast (2147483647 :: u32))) = p div 2 ^ 31 + p mod 2 ^ 31"
    using p by (simp add: unat_word_ariths unat_drop_bit product)
  then have sum: "unat r = p div 2 ^ 31 + p mod 2 ^ 31"
    using p unfolding r_def by (simp add: unat_ucast_mod)
  have mod: "p mod (2 ^ 31 - 1) = (p div 2 ^ 31 + p mod 2 ^ 31) mod (2 ^ 31 - 1)" "p mod (2 ^ 31 - 1) \<noteq> 0"
    using mersenne_step [of p] p product_not_multiple [OF s(2,1)] by (simp_all add: p_def)
  have "unat r < 2 * (2 ^ 31 - 1)" using sum p by simp
  then have "unat r mod (2 ^ 31 - 1) = (if unat r < 2 ^ 31 - 1 then unat r else unat r - (2 ^ 31 - 1))"
    by (auto simp: mod_if)
  moreover have "unat r \<noteq> 2 ^ 31 - 1" using mod sum by auto
  ultimately have "unat (if r > 2147483647 then r - 2147483647 else r) = unat r mod (2 ^ 31 - 1)"
    by (auto simp: word_less_nat_alt unat_sub_if')
  moreover have "Random_Next s = (if r > 2147483647 then r - 2147483647 else r)"
    unfolding Random_Next_def Let_def r_def q_def by (rule refl)
  ultimately show ?thesis using mod(1) sum by (simp only: p_def)
qed

section \<open>Properties\<close>

text \<open>C35: The generator computes \<open>seed * 16807 mod (2 ^ 31 - 1)\<close>, and from any initial value its state
  stays strictly between 0 and \<open>2 ^ 31 - 1\<close>, so it never gets stuck.\<close>

theorem random_next:
  "good_seed (Random s) \<and>
   (good_seed t \<longrightarrow> unat (Random_Next t) = unat t * 16807 mod (2 ^ 31 - 1) \<and> good_seed (Random_Next t))"
proof -
  have "good_seed (Random_Next t)" if "good_seed t"
    using that product_not_multiple [of "unat t"]
    by (auto simp: good_seed_def Random_Next_unat [OF that] simp del: One_nat_def)
  then show ?thesis using good_seed_Random Random_Next_unat by blast
qed

theorem random_next_witness:
  "good_seed 7 \<and> unat (Random_Next 7) = 117649 \<and> good_seed (Random_Next 7)"
  using random_next [of 0 7] by (simp add: good_seed_def)

end
