(* ===== verification/Skiplist.thy ===== *)
theory Skiplist
  imports Comparators Random_Gen
begin

text \<open>
  \<^verbatim>\<open>db/skiplist.h\<close>: the ordered table under the memtable. Nodes live in an explicit heap: a pointer
  is a number, \<open>NULL\<close> is \<^term>\<open>None\<close>, \<open>sl_key\<close> and \<open>sl_next\<close> are the fields of the nodes and
  \<open>sl_alloc\<close> is the next address the arena hands out. The search loops follow pointers and are
  \<open>partial_function\<close>s: that they return is part of what is proved. \<open>sl_inv\<close> relates the heap to the
  list of its nodes in key order, one sorted chain per level; under it the three searches, the
  iterator and \<open>Insert\<close> do what a sorted list does.
\<close>

section \<open>Model\<close>

definition kMaxHeight :: nat where "kMaxHeight = 12"

record 'k SkipList =
  sl_key :: "nat \<Rightarrow> 'k"
  sl_next :: "nat \<Rightarrow> nat \<Rightarrow> nat option"
  sl_head :: nat
  sl_alloc :: nat
  sl_max_height :: nat
  sl_rnd :: u32

text \<open>\<open>NewNode\<close> fills in the key only; the links of a fresh node are whatever the arena left there.\<close>

definition NewNode :: "'k \<Rightarrow> 'k SkipList \<Rightarrow> nat \<times> 'k SkipList" where
  "NewNode key sl = (sl_alloc sl, sl\<lparr>sl_key := (sl_key sl)(sl_alloc sl := key), sl_alloc := sl_alloc sl + 1\<rparr>)"

definition SetNext :: "nat \<Rightarrow> nat \<Rightarrow> nat option \<Rightarrow> 'k SkipList \<Rightarrow> 'k SkipList" where
  "SetNext x n y sl = sl\<lparr>sl_next := (sl_next sl)(x := (sl_next sl x)(n := y))\<rparr>"

text \<open>The constructor: \<open>mem\<close> is the heap before it runs and \<open>k0\<close> the key that will do for the head.\<close>

definition new_SkipList :: "'k \<Rightarrow> (nat \<Rightarrow> 'k) \<Rightarrow> (nat \<Rightarrow> nat \<Rightarrow> nat option) \<Rightarrow> 'k SkipList" where
  "new_SkipList k0 mem_key mem_next =
     (let (h, sl) = NewNode k0 \<lparr>sl_key = mem_key, sl_next = mem_next, sl_head = 0, sl_alloc = 0,
                      sl_max_height = 1, sl_rnd = Random 0xdeadbeef\<rparr>
      in fold (\<lambda>i. SetNext h i None) [0..<kMaxHeight] (sl\<lparr>sl_head := h\<rparr>))"

function RandomHeight_loop :: "nat \<Rightarrow> u32 \<Rightarrow> nat \<times> u32" where
  "RandomHeight_loop height rnd =
     (if height < kMaxHeight then
        let rnd' = Random_Next rnd in
        if rnd' mod 4 = 0 then RandomHeight_loop (height + 1) rnd' else (height, rnd')
      else (height, rnd))"
  by pat_completeness auto
termination
  by (relation "measure (\<lambda>(height, rnd). kMaxHeight - height)") auto

definition RandomHeight :: "u32 \<Rightarrow> nat \<times> u32" where
  "RandomHeight rnd = RandomHeight_loop 1 rnd"

definition KeyIsAfterNode :: "('k \<Rightarrow> 'k \<Rightarrow> int) \<Rightarrow> 'k SkipList \<Rightarrow> 'k \<Rightarrow> nat option \<Rightarrow> bool" where
  "KeyIsAfterNode cmp sl key n = (case n of None \<Rightarrow> False | Some p \<Rightarrow> cmp (sl_key sl p) key < 0)"

partial_function (option) FindGreaterOrEqual_loop ::
  "('k \<Rightarrow> 'k \<Rightarrow> int) \<Rightarrow> 'k SkipList \<Rightarrow> 'k \<Rightarrow> nat \<Rightarrow> nat \<Rightarrow> (nat \<rightharpoonup> nat) \<Rightarrow> (nat option \<times> (nat \<rightharpoonup> nat)) option"
where
  "FindGreaterOrEqual_loop cmp sl key x level prev =
     (let nxt = sl_next sl x level in
      if KeyIsAfterNode cmp sl key nxt
      then FindGreaterOrEqual_loop cmp sl key (the nxt) level prev
      else
        let prev = prev(level \<mapsto> x) in
        if level = 0 then Some (nxt, prev)
        else FindGreaterOrEqual_loop cmp sl key x (level - 1) prev)"

definition FindGreaterOrEqual ::
  "('k \<Rightarrow> 'k \<Rightarrow> int) \<Rightarrow> 'k SkipList \<Rightarrow> 'k \<Rightarrow> (nat option \<times> (nat \<rightharpoonup> nat)) option"
where
  "FindGreaterOrEqual cmp sl key =
     FindGreaterOrEqual_loop cmp sl key (sl_head sl) (sl_max_height sl - 1) Map.empty"

partial_function (option) FindLessThan_loop ::
  "('k \<Rightarrow> 'k \<Rightarrow> int) \<Rightarrow> 'k SkipList \<Rightarrow> 'k \<Rightarrow> nat \<Rightarrow> nat \<Rightarrow> nat option"
where
  "FindLessThan_loop cmp sl key x level =
     (case sl_next sl x level of
        None \<Rightarrow> if level = 0 then Some x else FindLessThan_loop cmp sl key x (level - 1)
      | Some y \<Rightarrow>
          if cmp (sl_key sl y) key \<ge> 0
          then if level = 0 then Some x else FindLessThan_loop cmp sl key x (level - 1)
          else FindLessThan_loop cmp sl key y level)"

definition FindLessThan :: "('k \<Rightarrow> 'k \<Rightarrow> int) \<Rightarrow> 'k SkipList \<Rightarrow> 'k \<Rightarrow> nat option" where
  "FindLessThan cmp sl key = FindLessThan_loop cmp sl key (sl_head sl) (sl_max_height sl - 1)"

partial_function (option) FindLast_loop :: "'k SkipList \<Rightarrow> nat \<Rightarrow> nat \<Rightarrow> nat option" where
  "FindLast_loop sl x level =
     (case sl_next sl x level of
        None \<Rightarrow> if level = 0 then Some x else FindLast_loop sl x (level - 1)
      | Some y \<Rightarrow> FindLast_loop sl y level)"

definition FindLast :: "'k SkipList \<Rightarrow> nat option" where
  "FindLast sl = FindLast_loop sl (sl_head sl) (sl_max_height sl - 1)"

text \<open>
  \<open>Insert\<close>. \<open>prev\<close> is an uninitialised array in the code: following an entry that was not filled in
  is the result \<^term>\<open>None\<close>. \<open>link_level\<close> is one iteration of the linking loop.
\<close>

definition raise_height :: "nat \<Rightarrow> 'k SkipList \<Rightarrow> (nat \<rightharpoonup> nat) \<Rightarrow> 'k SkipList \<times> (nat \<rightharpoonup> nat)" where
  "raise_height height sl prev =
     (if height > sl_max_height sl
      then (sl\<lparr>sl_max_height := height\<rparr>,
            \<lambda>i. if sl_max_height sl \<le> i \<and> i < height then Some (sl_head sl) else prev i)
      else (sl, prev))"

definition link_level :: "nat \<Rightarrow> (nat \<rightharpoonup> nat) \<Rightarrow> nat \<Rightarrow> 'k SkipList \<Rightarrow> 'k SkipList option" where
  "link_level x prev i sl =
     (case prev i of
        None \<Rightarrow> None
      | Some p \<Rightarrow> Some (SetNext p i (Some x) (SetNext x i (sl_next sl p i) sl)))"

primrec link_levels :: "nat \<Rightarrow> (nat \<rightharpoonup> nat) \<Rightarrow> nat list \<Rightarrow> 'k SkipList \<Rightarrow> 'k SkipList option" where
  "link_levels x prev [] sl = Some sl"
| "link_levels x prev (i # is) sl =
     (case link_level x prev i sl of None \<Rightarrow> None | Some sl' \<Rightarrow> link_levels x prev is sl')"

definition Insert :: "('k \<Rightarrow> 'k \<Rightarrow> int) \<Rightarrow> 'k \<Rightarrow> 'k SkipList \<Rightarrow> 'k SkipList option" where
  "Insert cmp key sl =
     (case FindGreaterOrEqual cmp sl key of
        None \<Rightarrow> None
      | Some (_, prev) \<Rightarrow>
          (let (height, rnd) = RandomHeight (sl_rnd sl);
               (sl, prev) = raise_height height (sl\<lparr>sl_rnd := rnd\<rparr>) prev;
               (x, sl) = NewNode key sl
           in link_levels x prev [0..<height] sl))"

definition Contains :: "('k \<Rightarrow> 'k \<Rightarrow> int) \<Rightarrow> 'k SkipList \<Rightarrow> 'k \<Rightarrow> bool option" where
  "Contains cmp sl key =
     (case FindGreaterOrEqual cmp sl key of
        None \<Rightarrow> None
      | Some (x, _) \<Rightarrow> Some (case x of None \<Rightarrow> False | Some p \<Rightarrow> cmp key (sl_key sl p) = 0))"

text \<open>The iterator is its \<open>node_\<close>; the moves that search return it inside an option.\<close>

definition it_Valid :: "nat option \<Rightarrow> bool" where
  "it_Valid node \<longleftrightarrow> node \<noteq> None"

definition it_key :: "'k SkipList \<Rightarrow> nat option \<Rightarrow> 'k" where
  "it_key sl node = sl_key sl (the node)"

definition it_Next :: "'k SkipList \<Rightarrow> nat option \<Rightarrow> nat option" where
  "it_Next sl node = sl_next sl (the node) 0"

definition it_Prev :: "('k \<Rightarrow> 'k \<Rightarrow> int) \<Rightarrow> 'k SkipList \<Rightarrow> nat option \<Rightarrow> nat option option" where
  "it_Prev cmp sl node =
     map_option (\<lambda>n. if n = sl_head sl then None else Some n) (FindLessThan cmp sl (it_key sl node))"

definition it_Seek :: "('k \<Rightarrow> 'k \<Rightarrow> int) \<Rightarrow> 'k SkipList \<Rightarrow> 'k \<Rightarrow> nat option option" where
  "it_Seek cmp sl target = map_option fst (FindGreaterOrEqual cmp sl target)"

definition it_SeekToFirst :: "'k SkipList \<Rightarrow> nat option" where
  "it_SeekToFirst sl = sl_next sl (sl_head sl) 0"

definition it_SeekToLast :: "'k SkipList \<Rightarrow> nat option option" where
  "it_SeekToLast sl = map_option (\<lambda>n. if n = sl_head sl then None else Some n) (FindLast sl)"

declare RandomHeight_loop.simps [simp del]

section \<open>Chains and the invariant\<close>

fun chain :: "(nat \<Rightarrow> nat option) \<Rightarrow> nat \<Rightarrow> nat list \<Rightarrow> bool" where
  "chain nx x [] \<longleftrightarrow> nx x = None"
| "chain nx x (y # ys) \<longleftrightarrow> nx x = Some y \<and> chain nx y ys"

text \<open>
  \<open>ps\<close> are the nodes in list order and \<open>hgt\<close> the height of their towers, which the nodes do not store.
\<close>

definition sl_inv :: "('k \<Rightarrow> 'k \<Rightarrow> int) \<Rightarrow> (nat \<Rightarrow> nat) \<Rightarrow> 'k SkipList \<Rightarrow> nat list \<Rightarrow> bool" where
  "sl_inv cmp hgt sl ps \<longleftrightarrow>
     distinct (sl_head sl # ps) \<and> (\<forall>p \<in> set (sl_head sl # ps). p < sl_alloc sl) \<and>
     1 \<le> sl_max_height sl \<and> sl_max_height sl \<le> kMaxHeight \<and>
     (\<forall>p \<in> set ps. 1 \<le> hgt p \<and> hgt p \<le> sl_max_height sl) \<and>
     (\<forall>l < kMaxHeight. chain (\<lambda>p. sl_next sl p l) (sl_head sl) (filter (\<lambda>p. l < hgt p) ps)) \<and>
     sorted_wrt (\<lambda>p q. cmp (sl_key sl p) (sl_key sl q) < 0) ps"

lemma chain_cong: "(\<And>p. p \<in> set (x # ys) \<Longrightarrow> nx p = nx' p) \<Longrightarrow> chain nx x ys = chain nx' x ys"
  by (induction ys arbitrary: x) auto

lemma chain_append: "chain nx x (as @ bs) \<Longrightarrow> chain nx (last (x # as)) bs"
  by (induction as arbitrary: x) auto

lemma chain_upd: "p \<notin> set (x # ys) \<Longrightarrow> chain (nx(p := v)) x ys = chain nx x ys"
  by (rule chain_cong) auto

lemma chain_insert:
  assumes "chain nx x (as @ bs)" "distinct (x # as @ bs)" "n \<notin> set (x # as @ bs)"
  shows "chain (nx(n := nx (last (x # as)), last (x # as) := Some n)) x (as @ n # bs)"
  using assms
proof (induction as arbitrary: x)
  case Nil
  then show ?case by (cases bs) (auto simp: chain_upd simp del: fun_upd_apply, auto)
next
  case (Cons a as)
  then have "last (a # as) \<in> set (a # as)" by (intro last_in_set) simp
  then have "x \<noteq> last (a # as)" using Cons.prems(2) by auto
  with Cons show ?case by auto
qed

section \<open>Descending through the levels\<close>

text \<open>
  All three searches walk right while a condition holds and down otherwise. \<open>as\<close> are the nodes that
  satisfy the condition, a prefix of the list; \<open>on_path\<close> is the set of nodes the walk may be at.
\<close>

definition on_path :: "(nat \<Rightarrow> nat) \<Rightarrow> nat \<Rightarrow> nat list \<Rightarrow> nat \<Rightarrow> nat \<Rightarrow> bool" where
  "on_path hgt head as x l \<longleftrightarrow> x \<in> set (head # as) \<and> (x = head \<or> l < hgt x)"

lemma filter_chain_suffix:
  assumes "chain nx h (filter P ps)" "h # ps = pre @ x # post" "distinct (h # ps)" "x = h \<or> P x"
  shows "chain nx x (filter P post)"
proof (cases pre)
  case Nil
  then show ?thesis using assms by simp
next
  case (Cons a pre')
  then have ps: "ps = pre' @ x # post" and "x \<noteq> h" using assms by auto
  with assms have "chain nx h ((filter P pre' @ [x]) @ filter P post)" by simp
  from chain_append [OF this] show ?thesis by simp
qed

lemma last_filter_path:
  assumes "h # as = pre @ x # mid" "distinct (h # as)" "x = h \<or> P x" "filter P mid = []"
  shows "last (h # filter P as) = x"
proof (cases pre)
  case Nil
  then show ?thesis using assms by simp
next
  case (Cons a pre')
  then show ?thesis using assms by auto
qed

lemma walk_right:
  assumes inv: "sl_inv cmp hgt sl (as @ bs)" and l: "l < kMaxHeight"
    and move: "\<And>x y. sl_next sl x l = Some y \<Longrightarrow> y \<in> set as \<Longrightarrow> Q y \<Longrightarrow> Q x"
    and fin: "\<And>x. x = last (sl_head sl # filter (\<lambda>p. l < hgt p) as) \<Longrightarrow>
      chain (\<lambda>p. sl_next sl p l) x (filter (\<lambda>p. l < hgt p) bs) \<Longrightarrow> on_path hgt (sl_head sl) as x l \<Longrightarrow> Q x"
  shows "sl_head sl # as = pre @ x # mid \<Longrightarrow> on_path hgt (sl_head sl) as x l \<Longrightarrow> Q x"
proof (induction mid arbitrary: pre x rule: length_induct)
  case (1 mid)
  have dist: "distinct (sl_head sl # as)" "distinct (sl_head sl # as @ bs)"
    using inv by (auto simp: sl_inv_def)
  have path: "x = sl_head sl \<or> l < hgt x" using 1 by (simp add: on_path_def)
  have "chain (\<lambda>p. sl_next sl p l) (sl_head sl) (filter (\<lambda>p. l < hgt p) (as @ bs))"
    using inv l by (simp add: sl_inv_def)
  then have chain: "chain (\<lambda>p. sl_next sl p l) x (filter (\<lambda>p. l < hgt p) (mid @ bs))"
    by (rule filter_chain_suffix [where pre = pre]) (use 1(2) dist(2) path in auto)
  show ?case
  proof (cases "filter (\<lambda>p. l < hgt p) mid")
    case Nil
    then show ?thesis
      using chain 1 last_filter_path [OF 1(2) dist(1) path Nil] by (intro fin) auto
  next
    case (Cons y ys)
    then obtain m1 m2 where mid: "mid = m1 @ y # m2" "l < hgt y" by (auto simp: filter_eq_Cons_iff)
    have y: "y \<in> set as" using 1(2) mid(1) by (cases pre) auto
    have "sl_head sl # as = (pre @ x # m1) @ y # m2" using 1(2) mid(1) by simp
    moreover have "length m2 < length mid" "on_path hgt (sl_head sl) as y l"
      using mid y by (auto simp: on_path_def)
    ultimately have "Q y" using 1(1) by blast
    then show ?thesis using move chain Cons y by simp
  qed
qed

lemma descend_induct [consumes 3, case_names move down stop]:
  assumes inv: "sl_inv cmp hgt sl (as @ bs)"
    and path: "on_path hgt (sl_head sl) as x l" and l: "l < kMaxHeight"
    and move: "\<And>x y l. sl_next sl x l = Some y \<Longrightarrow> y \<in> set as \<Longrightarrow> Q y l \<Longrightarrow> Q x l"
    and down: "\<And>x l. x = last (sl_head sl # filter (\<lambda>p. Suc l < hgt p) as) \<Longrightarrow>
      (\<forall>y. sl_next sl x (Suc l) = Some y \<longrightarrow> y \<in> set bs) \<Longrightarrow> Q x l \<Longrightarrow> Q x (Suc l)"
    and stop: "\<And>x. x = last (sl_head sl # as) \<Longrightarrow>
      sl_next sl x 0 = (case bs of [] \<Rightarrow> None | y # _ \<Rightarrow> Some y) \<Longrightarrow> Q x 0"
  shows "Q x l"
  using path l
proof (induction l arbitrary: x)
  case 0
  obtain pre mid where *: "sl_head sl # as = pre @ x # mid"
    using 0(1) by (metis on_path_def split_list)
  have full: "filter (\<lambda>p. 0 < hgt p) zs = zs" if "set zs \<subseteq> set (as @ bs)" for zs
    using that inv by (auto simp: sl_inv_def filter_id_conv Suc_le_eq dest!: subsetD)
  show ?case
  proof (rule walk_right [OF inv \<open>0 < kMaxHeight\<close> _ _ * 0(1), of "\<lambda>x. Q x 0"])
    fix y assume "y = last (sl_head sl # filter (\<lambda>p. 0 < hgt p) as)"
      "chain (\<lambda>p. sl_next sl p 0) y (filter (\<lambda>p. 0 < hgt p) bs)"
    then show "Q y 0" by (intro stop) (auto simp: full split: list.splits)
  qed (rule move)
next
  case (Suc l)
  obtain pre mid where *: "sl_head sl # as = pre @ x # mid"
    using Suc(2) by (metis on_path_def split_list)
  show ?case
  proof (rule walk_right [OF inv \<open>Suc l < kMaxHeight\<close> _ _ * Suc(2), of "\<lambda>x. Q x (Suc l)"])
    fix y assume y: "y = last (sl_head sl # filter (\<lambda>p. Suc l < hgt p) as)"
      and chain: "chain (\<lambda>p. sl_next sl p (Suc l)) y (filter (\<lambda>p. Suc l < hgt p) bs)"
      and path: "on_path hgt (sl_head sl) as y (Suc l)"
    have "z \<in> set bs" if "sl_next sl y (Suc l) = Some z" for z
      using chain that by (cases "filter (\<lambda>p. Suc l < hgt p) bs") (auto dest: filter_eq_ConsD)
    moreover have "Q y l" using path Suc.prems(2) by (intro Suc.IH) (auto simp: on_path_def)
    ultimately show "Q y (Suc l)" using y by (intro down) auto
  qed (rule move)
qed

lemma on_path_head [simp]: "on_path hgt h as h l"
  by (simp add: on_path_def)

definition list_hd :: "'a list \<Rightarrow> 'a option" where
  "list_hd xs = (case xs of [] \<Rightarrow> None | x # _ \<Rightarrow> Some x)"

lemma list_hd_simps [simp]: "list_hd [] = None" "list_hd (x # xs) = Some x"
  by (simp_all add: list_hd_def)

lemma FindGreaterOrEqual_loop_spec:
  assumes inv: "sl_inv cmp hgt sl (as @ bs)" and path: "on_path hgt (sl_head sl) as x l" and "l < kMaxHeight"
    and as: "\<And>p. p \<in> set as \<Longrightarrow> cmp (sl_key sl p) key < 0"
    and bs: "\<And>p. p \<in> set bs \<Longrightarrow> \<not> cmp (sl_key sl p) key < 0"
  shows "\<exists>prev'. FindGreaterOrEqual_loop cmp sl key x l prev = Some (list_hd bs, prev') \<and>
    (\<forall>i. prev' i = (if i \<le> l then Some (last (sl_head sl # filter (\<lambda>p. i < hgt p) as)) else prev i))"
  using inv path assms(3)
proof (induction x l arbitrary: prev rule: descend_induct)
  case (move x y l)
  then show ?case
    by (subst FindGreaterOrEqual_loop.simps) (simp add: KeyIsAfterNode_def as)
next
  case (down x l)
  have "\<not> KeyIsAfterNode cmp sl key (sl_next sl x (Suc l))"
    using down(2) bs by (auto simp: KeyIsAfterNode_def split: option.splits)
  then have step: "FindGreaterOrEqual_loop cmp sl key x (Suc l) prev =
      FindGreaterOrEqual_loop cmp sl key x l (prev(Suc l \<mapsto> x))"
    by (subst FindGreaterOrEqual_loop.simps) (simp add: Let_def)
  obtain prev' where "FindGreaterOrEqual_loop cmp sl key x l (prev(Suc l \<mapsto> x)) = Some (list_hd bs, prev')"
    "\<forall>i. prev' i = (if i \<le> l then Some (last (sl_head sl # filter (\<lambda>p. i < hgt p) as)) else (prev(Suc l \<mapsto> x)) i)"
    using down(3) by blast
  then show ?case
    unfolding step
    by (intro exI [of _ prev'] conjI) (auto simp: le_Suc_eq down(1) [symmetric] simp del: last.simps)
next
  case (stop x)
  have "\<not> KeyIsAfterNode cmp sl key (sl_next sl x 0)"
    using stop(2) bs by (auto simp: KeyIsAfterNode_def split: option.splits list.splits)
  moreover have "filter (\<lambda>p. 0 < hgt p) as = as"
    using inv by (auto simp: sl_inv_def filter_id_conv Suc_le_eq)
  ultimately show ?case
    using stop by (subst FindGreaterOrEqual_loop.simps) (simp add: Let_def list_hd_def)
qed

lemma FindLessThan_loop_spec:
  assumes inv: "sl_inv cmp hgt sl (as @ bs)" and path: "on_path hgt (sl_head sl) as x l" and "l < kMaxHeight"
    and as: "\<And>p. p \<in> set as \<Longrightarrow> cmp (sl_key sl p) key < 0"
    and bs: "\<And>p. p \<in> set bs \<Longrightarrow> \<not> cmp (sl_key sl p) key < 0"
  shows "FindLessThan_loop cmp sl key x l = Some (last (sl_head sl # as))"
  using inv path assms(3)
proof (induction x l rule: descend_induct)
  case (move x y l)
  then show ?case using as [of y] by (subst FindLessThan_loop.simps) simp
next
  case (down x l)
  then show ?case
    using bs by (subst FindLessThan_loop.simps) (auto simp: not_less split: option.splits)
next
  case (stop x)
  then show ?case
    using bs by (subst FindLessThan_loop.simps) (auto simp: not_less split: option.splits list.splits)
qed

lemma FindLast_loop_spec:
  assumes inv: "sl_inv cmp hgt sl ps" and path: "on_path hgt (sl_head sl) ps x l" and "l < kMaxHeight"
  shows "FindLast_loop sl x l = Some (last (sl_head sl # ps))"
proof -
  have "sl_inv cmp hgt sl (ps @ [])" using inv by simp
  from this path assms(3) show ?thesis
  proof (induction x l rule: descend_induct)
    case (move x y l)
    then show ?case by (subst FindLast_loop.simps) simp
  next
    case (down x l)
    then show ?case by (subst FindLast_loop.simps) (auto split: option.splits)
  next
    case (stop x)
    then show ?case by (subst FindLast_loop.simps) auto
  qed
qed

section \<open>Searching\<close>

context three_way
begin

lemma split_at_key:
  assumes "sl_inv cmp hgt sl ps"
  obtains as bs where "ps = as @ bs"
    and "as = takeWhile (\<lambda>p. cmp (sl_key sl p) key < 0) ps" "bs = dropWhile (\<lambda>p. cmp (sl_key sl p) key < 0) ps"
    and "\<And>p. p \<in> set as \<Longrightarrow> cmp (sl_key sl p) key < 0" "\<And>p. p \<in> set bs \<Longrightarrow> \<not> cmp (sl_key sl p) key < 0"
proof -
  let ?lt = "\<lambda>p. cmp (sl_key sl p) key < 0"
  have "sorted_wrt (\<lambda>p q. cmp (sl_key sl p) (sl_key sl q) < 0) ps" using assms by (simp add: sl_inv_def)
  then have "sorted_wrt (\<lambda>p q. ?lt q \<longrightarrow> ?lt p) ps"
    by (rule sorted_wrt_mono_rel [rotated]) (auto intro: cmp_less_trans)
  then have drop: "dropWhile ?lt ps = filter (\<lambda>p. \<not> ?lt p) ps"
    by (induction ps) (auto simp: filter_id_conv)
  show thesis
  proof (rule that [of "takeWhile ?lt ps" "dropWhile ?lt ps"])
    show "cmp (sl_key sl p) key < 0" if "p \<in> set (takeWhile ?lt ps)" for p
      using that by (auto dest: set_takeWhileD)
    show "\<not> cmp (sl_key sl p) key < 0" if "p \<in> set (dropWhile ?lt ps)" for p
      using that by (simp add: drop)
  qed simp_all
qed

lemma FindGreaterOrEqual_spec:
  fixes key :: 'k
  assumes "sl_inv cmp hgt sl ps"
  defines "as \<equiv> takeWhile (\<lambda>p. cmp (sl_key sl p) key < 0) ps"
  shows "\<exists>prev. FindGreaterOrEqual cmp sl key = Some (list_hd (dropWhile (\<lambda>p. cmp (sl_key sl p) key < 0) ps), prev) \<and>
    (\<forall>i < sl_max_height sl. prev i = Some (last (sl_head sl # filter (\<lambda>p. i < hgt p) as)))"
proof -
  obtain bs where ps: "ps = as @ bs" "bs = dropWhile (\<lambda>p. cmp (sl_key sl p) key < 0) ps"
    and parts: "\<And>p. p \<in> set as \<Longrightarrow> cmp (sl_key sl p) key < 0" "\<And>p. p \<in> set bs \<Longrightarrow> \<not> cmp (sl_key sl p) key < 0"
    using split_at_key [OF assms(1)] unfolding as_def by metis
  have "sl_max_height sl - 1 < kMaxHeight" "0 < sl_max_height sl" using assms(1) by (auto simp: sl_inv_def)
  then obtain prev' where "FindGreaterOrEqual cmp sl key = Some (list_hd bs, prev')"
    "\<forall>i. prev' i = (if i \<le> sl_max_height sl - 1 then Some (last (sl_head sl # filter (\<lambda>p. i < hgt p) as)) else None)"
    using FindGreaterOrEqual_loop_spec [OF assms(1) [unfolded ps(1)] on_path_head _ parts] unfolding FindGreaterOrEqual_def by metis
  then show ?thesis using ps(2) \<open>0 < sl_max_height sl\<close> by auto
qed

lemma FindLessThan_spec:
  assumes "sl_inv cmp hgt sl ps"
  shows "FindLessThan cmp sl key = Some (last (sl_head sl # takeWhile (\<lambda>p. cmp (sl_key sl p) key < 0) ps))"
proof (rule split_at_key [OF assms, of key])
  fix as bs
  assume *: "ps = as @ bs" "as = takeWhile (\<lambda>p. cmp (sl_key sl p) key < 0) ps"
    "\<And>p. p \<in> set as \<Longrightarrow> cmp (sl_key sl p) key < 0" "\<And>p. p \<in> set bs \<Longrightarrow> \<not> cmp (sl_key sl p) key < 0"
  have "sl_max_height sl - 1 < kMaxHeight" using assms by (auto simp: sl_inv_def)
  then show ?thesis
    unfolding FindLessThan_def *(2) [symmetric]
    by (rule FindLessThan_loop_spec [OF assms [unfolded *(1)] on_path_head _ *(3,4)])
qed

end

lemma FindLast_spec:
  assumes "sl_inv cmp hgt sl ps"
  shows "FindLast sl = Some (last (sl_head sl # ps))"
  unfolding FindLast_def
  by (rule FindLast_loop_spec [OF assms on_path_head]) (use assms in \<open>auto simp: sl_inv_def\<close>)

section \<open>Linking a node level by level\<close>

definition chains :: "(nat \<Rightarrow> nat) \<Rightarrow> 'k SkipList \<Rightarrow> nat list \<Rightarrow> bool" where
  "chains hgt sl ps \<longleftrightarrow> (\<forall>l < kMaxHeight. chain (\<lambda>p. sl_next sl p l) (sl_head sl) (filter (\<lambda>p. l < hgt p) ps))"

lemma filter_tower:
  "distinct (as @ n # bs) \<Longrightarrow> filter (\<lambda>p. l < (hgt(n := k)) p) (as @ n # bs) =
     filter (\<lambda>p. l < hgt p) as @ (if l < k then [n] else []) @ filter (\<lambda>p. l < hgt p) bs"
proof -
  assume "distinct (as @ n # bs)"
  then have "filter (\<lambda>p. l < (hgt(n := k)) p) zs = filter (\<lambda>p. l < hgt p) zs" if "zs = as \<or> zs = bs" for zs
    using that by (intro filter_cong) auto
  then show ?thesis by simp
qed

lemma chains_tower:
  "distinct (as @ n # bs) \<Longrightarrow> chains (hgt(n := k)) sl (as @ n # bs) \<longleftrightarrow>
     (\<forall>l < kMaxHeight. chain (\<lambda>p. sl_next sl p l) (sl_head sl)
       (filter (\<lambda>p. l < hgt p) as @ (if l < k then [n] else []) @ filter (\<lambda>p. l < hgt p) bs))"
  by (simp only: chains_def filter_tower)

lemma link_level_chains:
  assumes "chains (hgt(n := k)) sl (as @ n # bs)" "distinct (sl_head sl # as @ n # bs)" "k < kMaxHeight"
    and "prev k = Some (last (sl_head sl # filter (\<lambda>p. k < hgt p) as))"
  shows "\<exists>nx. link_level n prev k sl = Some (sl\<lparr>sl_next := nx\<rparr>) \<and>
    chains (hgt(n := Suc k)) (sl\<lparr>sl_next := nx\<rparr>) (as @ n # bs)"
proof -
  define p where "p = last (sl_head sl # filter (\<lambda>p. k < hgt p) as)"
  define nx where "nx = (sl_next sl)(n := (sl_next sl n)(k := sl_next sl p k))"
  define nx' where "nx' = nx(p := (nx p)(k := Some n))"
  have dist: "distinct (as @ n # bs)" using assms(2) by simp
  have "p \<in> set (sl_head sl # filter (\<lambda>p. k < hgt p) as)" unfolding p_def by (intro last_in_set) simp
  then have "p \<noteq> n" using assms(2) by auto
  have link: "link_level n prev k sl = Some (sl\<lparr>sl_next := nx'\<rparr>)"
    using assms(4) \<open>p \<noteq> n\<close> by (simp add: link_level_def SetNext_def nx'_def nx_def p_def [symmetric] del: last.simps)
  have level: "(\<lambda>q. nx' q l) = (if l = k then (\<lambda>q. sl_next sl q k)(n := sl_next sl p k, p := Some n) else (\<lambda>q. sl_next sl q l))" for l
    by (auto simp: nx'_def nx_def fun_eq_iff)
  have "chain (\<lambda>q. nx' q l) (sl_head sl)
      (filter (\<lambda>p. l < hgt p) as @ (if l < Suc k then [n] else []) @ filter (\<lambda>p. l < hgt p) bs)"
    if "l < kMaxHeight" for l
  proof -
    have old: "chain (\<lambda>q. sl_next sl q l) (sl_head sl)
        (filter (\<lambda>p. l < hgt p) as @ (if l < k then [n] else []) @ filter (\<lambda>p. l < hgt p) bs)"
      using assms(1) that unfolding chains_tower [OF dist] by blast
    show ?thesis
    proof (cases "l = k")
      case True
      have "chain ((\<lambda>q. sl_next sl q k)(n := sl_next sl p k, p := Some n)) (sl_head sl)
          (filter (\<lambda>p. k < hgt p) as @ n # filter (\<lambda>p. k < hgt p) bs)"
        unfolding p_def using old True assms(2) by (intro chain_insert) auto
      then show ?thesis using True level by simp
    next
      case False
      then show ?thesis using old level by (simp add: less_Suc_eq)
    qed
  qed
  then have "chains (hgt(n := Suc k)) (sl\<lparr>sl_next := nx'\<rparr>) (as @ n # bs)"
    unfolding chains_tower [OF dist] by simp
  then show ?thesis using link by blast
qed

lemma link_levels_chains:
  assumes "chains (hgt(n := j)) sl (as @ n # bs)" "distinct (sl_head sl # as @ n # bs)" "j \<le> h" "h \<le> kMaxHeight"
    and "\<And>i. i < h \<Longrightarrow> prev i = Some (last (sl_head sl # filter (\<lambda>p. i < hgt p) as))"
  shows "\<exists>nx. link_levels n prev [j..<h] sl = Some (sl\<lparr>sl_next := nx\<rparr>) \<and>
    chains (hgt(n := h)) (sl\<lparr>sl_next := nx\<rparr>) (as @ n # bs)"
  using assms
proof (induction "h - j" arbitrary: j sl)
  case 0
  then show ?case by (intro exI [of _ "sl_next sl"]) simp
next
  case (Suc d)
  have "j < kMaxHeight" "j < h" using Suc by linarith+
  then obtain nx where link: "link_level n prev j sl = Some (sl\<lparr>sl_next := nx\<rparr>)"
    and step: "chains (hgt(n := Suc j)) (sl\<lparr>sl_next := nx\<rparr>) (as @ n # bs)"
    using link_level_chains [where k = j and hgt = hgt and prev = prev, OF Suc.prems(1,2)] Suc.prems(5) by blast
  have "\<exists>nx'. link_levels n prev [Suc j..<h] (sl\<lparr>sl_next := nx\<rparr>) = Some (sl\<lparr>sl_next := nx, sl_next := nx'\<rparr>) \<and>
    chains (hgt(n := h)) (sl\<lparr>sl_next := nx, sl_next := nx'\<rparr>) (as @ n # bs)"
  proof (rule Suc.hyps(1))
    show "prev i = Some (last (sl_head (sl\<lparr>sl_next := nx\<rparr>) # filter (\<lambda>p. i < hgt p) as))" if "i < h" for i
      using Suc.prems(5) [OF that] by simp
  qed (use Suc step \<open>j < h\<close> in auto)
  moreover have "[j..<h] = j # [Suc j..<h]" using Suc.hyps(2) by (intro upt_conv_Cons) simp
  ultimately show ?case using link by simp
qed

lemma RandomHeight_loop_bounds:
  "h \<le> kMaxHeight \<Longrightarrow> h \<le> fst (RandomHeight_loop h r) \<and> fst (RandomHeight_loop h r) \<le> kMaxHeight"
proof (induction h r rule: RandomHeight_loop.induct)
  case (1 h r)
  show ?case
  proof (cases "h < kMaxHeight \<and> Random_Next r mod 4 = 0")
    case True
    then have "RandomHeight_loop h r = RandomHeight_loop (h + 1) (Random_Next r)"
      by (subst RandomHeight_loop.simps) (simp only: Let_def if_True simp_thms)
    then show ?thesis using 1 True by simp
  next
    case False
    then have "fst (RandomHeight_loop h r) = h" by (subst RandomHeight_loop.simps) (auto simp: Let_def)
    then show ?thesis using 1 by simp
  qed
qed

lemma RandomHeight_bounds: "1 \<le> fst (RandomHeight r)" "fst (RandomHeight r) \<le> kMaxHeight"
  using RandomHeight_loop_bounds [of 1 r] by (auto simp: RandomHeight_def kMaxHeight_def)

section \<open>Insertion\<close>

lemma raise_height_prev:
  assumes inv: "sl_inv cmp hgt sl (as @ bs)" and "i < h"
    and prev: "\<And>i. i < sl_max_height sl \<Longrightarrow> prev i = Some (last (sl_head sl # filter (\<lambda>p. i < hgt p) as))"
  shows "snd (raise_height h (sl\<lparr>sl_rnd := rnd\<rparr>) prev) i = Some (last (sl_head sl # filter (\<lambda>p. i < hgt p) as))"
proof (cases "i < sl_max_height sl")
  case True
  then show ?thesis using prev by (simp add: raise_height_def del: last.simps)
next
  case False
  have "\<not> i < hgt p" if "p \<in> set as" for p
  proof -
    have "hgt p \<le> sl_max_height sl" using inv that by (simp add: sl_inv_def)
    with False show ?thesis by simp
  qed
  then have "filter (\<lambda>p. i < hgt p) as = []" by (simp add: filter_empty_conv)
  then show ?thesis using False assms(2) by (simp add: raise_height_def)
qed

context three_way
begin

text \<open>A heap in which a fresh node has been linked on its first \<open>k\<close> levels between \<open>as\<close> and \<open>bs\<close>.\<close>

lemma linked_inv:
  assumes inv: "sl_inv cmp hgt sl (as @ bs)" and n: "n = sl_alloc sl"
    and as: "\<And>p. p \<in> set as \<Longrightarrow> cmp (sl_key sl p) key < 0"
    and bs: "\<And>p. p \<in> set bs \<Longrightarrow> 0 < cmp (sl_key sl p) key"
    and sl2: "sl_head sl2 = sl_head sl" "sl_alloc sl2 = n + 1" "sl_key sl2 = (sl_key sl)(n := key)"
      "sl_max_height sl \<le> sl_max_height sl2" "sl_max_height sl2 \<le> kMaxHeight" "k \<le> sl_max_height sl2"
    and chains: "chains (hgt(n := k)) sl2 (as @ n # bs)"
  shows "sl_inv cmp (hgt(n := k)) sl2 (if k = 0 then as @ bs else as @ n # bs)"
proof -
  have inv': "distinct (sl_head sl # as @ bs)" "\<And>p. p \<in> set (sl_head sl # as @ bs) \<Longrightarrow> p < n" "1 \<le> sl_max_height sl"
    "\<And>p. p \<in> set (as @ bs) \<Longrightarrow> 1 \<le> hgt p \<and> hgt p \<le> sl_max_height sl"
    "sorted_wrt (\<lambda>p q. cmp (sl_key sl p) (sl_key sl q) < 0) (as @ bs)"
    using inv n by (auto simp: sl_inv_def)
  have fresh: "n \<notin> set (sl_head sl # as @ bs)" using inv'(2) by blast
  have dist: "distinct (as @ n # bs)" using inv'(1) fresh by auto
  have key: "sl_key sl2 p = (if p = n then key else sl_key sl p)" for p by (simp add: sl2)
  have sorted: "sorted_wrt (\<lambda>p q. cmp (sl_key sl2 p) (sl_key sl2 q) < 0) (as @ n # bs)"
  proof -
    have "sorted_wrt (\<lambda>p q. cmp (sl_key sl2 p) (sl_key sl2 q) < 0) (as @ bs)"
      using inv'(5) fresh by (elim sorted_wrt_mono_rel [rotated]) (auto simp: key)
    moreover have "cmp (sl_key sl2 n) (sl_key sl2 q) < 0" if "q \<in> set bs" for q
      using bs [OF that] that fresh cmp_flip [of "sl_key sl q" key] by (auto simp: key)
    moreover have "cmp (sl_key sl2 q) (sl_key sl2 n) < 0" if "q \<in> set as" for q
      using as [OF that] that fresh by (auto simp: key)
    ultimately show ?thesis by (auto simp: sorted_wrt_append)
  qed
  have tower: "1 \<le> (hgt(n := k)) p \<and> (hgt(n := k)) p \<le> sl_max_height sl2" if "p \<in> set (as @ bs) \<or> p = n \<and> k \<noteq> 0" for p
    using that inv'(4) [of p] fresh sl2(4,6) by (cases "p = n") auto
  have below: "p < sl_alloc sl2" if "p \<in> set (sl_head sl2 # as @ n # bs)" for p
    using that inv'(2) [of p] by (auto simp: sl2)
  show ?thesis
  proof (cases "k = 0")
    case True
    then have "chains (hgt(n := k)) sl2 (as @ bs)" using chains by (simp add: chains_def)
    moreover have "sorted_wrt (\<lambda>p q. cmp (sl_key sl2 p) (sl_key sl2 q) < 0) (as @ bs)"
      using sorted by (auto simp: sorted_wrt_append)
    ultimately show ?thesis
      using True tower below inv'(1,3) sl2 unfolding sl_inv_def chains_def by (auto simp del: fun_upd_apply filter_append)
  next
    case False
    then show ?thesis
      using tower below inv'(1,3) fresh sl2 chains sorted unfolding sl_inv_def chains_def
      by (auto simp del: fun_upd_apply filter_append)
  qed
qed

text \<open>
  The loop links level 0 first, so after any number \<open>k\<close> of its iterations the heap is again a skip
  list: of the old keys before the first link, and of the old keys with the new one afterwards.
\<close>

lemma Insert_steps:
  fixes key :: 'k
  assumes inv: "sl_inv cmp hgt sl ps" and new: "\<And>p. p \<in> set ps \<Longrightarrow> cmp (sl_key sl p) key \<noteq> 0"
  defines "as \<equiv> takeWhile (\<lambda>p. cmp (sl_key sl p) key < 0) ps" and "bs \<equiv> dropWhile (\<lambda>p. cmp (sl_key sl p) key < 0) ps"
    and "n \<equiv> sl_alloc sl"
  obtains h sl1 prev where "Insert cmp key sl = link_levels n prev [0..<h] sl1" "1 \<le> h"
    and "sl_key sl1 = (sl_key sl)(n := key)"
    and "\<And>k. k \<le> h \<Longrightarrow> \<exists>nx. link_levels n prev [0..<k] sl1 = Some (sl1\<lparr>sl_next := nx\<rparr>) \<and>
      sl_inv cmp (hgt(n := k)) (sl1\<lparr>sl_next := nx\<rparr>) (if k = 0 then ps else as @ n # bs)"
proof -
  have parts: "\<And>p. p \<in> set as \<Longrightarrow> cmp (sl_key sl p) key < 0" "\<And>p. p \<in> set bs \<Longrightarrow> \<not> cmp (sl_key sl p) key < 0"
    and ps: "ps = as @ bs" unfolding as_def bs_def using split_at_key [OF inv, of key] by metis+
  have bs: "0 < cmp (sl_key sl p) key" if "p \<in> set bs" for p
    using parts(2) [OF that] new [of p] that ps by (auto simp: not_less order_le_less)
  obtain prev where find: "FindGreaterOrEqual cmp sl key = Some (list_hd bs, prev)"
    and prev: "\<And>i. i < sl_max_height sl \<Longrightarrow> prev i = Some (last (sl_head sl # filter (\<lambda>p. i < hgt p) as))"
    using FindGreaterOrEqual_spec [OF inv] unfolding as_def bs_def by blast
  obtain h rnd where h: "RandomHeight (sl_rnd sl) = (h, rnd)" by (cases "RandomHeight (sl_rnd sl)")
  have hb: "1 \<le> h" "h \<le> kMaxHeight" using RandomHeight_bounds [of "sl_rnd sl"] h by simp_all
  define slr where "slr = fst (raise_height h (sl\<lparr>sl_rnd := rnd\<rparr>) prev)"
  define prev' where "prev' = snd (raise_height h (sl\<lparr>sl_rnd := rnd\<rparr>) prev)"
  define sl1 where "sl1 = slr\<lparr>sl_key := (sl_key sl)(n := key), sl_alloc := n + 1\<rparr>"
  have slr: "sl_key slr = sl_key sl" "sl_next slr = sl_next sl" "sl_head slr = sl_head sl" "sl_alloc slr = n"
    "sl_max_height slr = max h (sl_max_height sl)"
    by (simp_all add: slr_def raise_height_def n_def)
  have ins: "Insert cmp key sl = link_levels n prev' [0..<h] sl1"
    by (simp add: Insert_def find h NewNode_def Let_def case_prod_unfold slr sl1_def flip: slr_def prev'_def)
  have dist: "distinct (as @ n # bs)" "distinct (sl_head sl1 # as @ n # bs)"
    using inv ps by (auto simp: sl_inv_def sl1_def slr n_def)
  have prev': "prev' i = Some (last (sl_head sl1 # filter (\<lambda>p. i < hgt p) as))" if "i < h" for i
    using raise_height_prev [OF inv [unfolded ps] that prev] by (simp add: prev'_def sl1_def slr)
  have chains0: "chains (hgt(n := 0)) sl1 (as @ n # bs)"
    using inv unfolding chains_tower [OF dist(1)] by (simp add: sl_inv_def ps sl1_def slr)
  have "\<exists>nx. link_levels n prev' [0..<k] sl1 = Some (sl1\<lparr>sl_next := nx\<rparr>) \<and>
      sl_inv cmp (hgt(n := k)) (sl1\<lparr>sl_next := nx\<rparr>) (if k = 0 then ps else as @ n # bs)" if "k \<le> h" for k
  proof -
    have "\<exists>nx. link_levels n prev' [0..<k] sl1 = Some (sl1\<lparr>sl_next := nx\<rparr>) \<and>
        chains (hgt(n := k)) (sl1\<lparr>sl_next := nx\<rparr>) (as @ n # bs)"
      using that hb(2) by (intro link_levels_chains [OF chains0 dist(2)] prev') auto
    then obtain nx where "link_levels n prev' [0..<k] sl1 = Some (sl1\<lparr>sl_next := nx\<rparr>)"
      "chains (hgt(n := k)) (sl1\<lparr>sl_next := nx\<rparr>) (as @ n # bs)" by blast
    moreover have "sl_max_height sl \<le> kMaxHeight" using inv by (simp add: sl_inv_def)
    ultimately show ?thesis
      unfolding ps using that hb(2)
      by (intro exI [of _ nx] conjI linked_inv [OF inv [unfolded ps] meta_eq_to_obj_eq [OF n_def] parts(1) bs]) (auto simp: sl1_def slr)
  qed
  then show thesis using that [OF ins hb(1)] by (simp add: sl1_def)
qed

lemma Insert_spec:
  fixes key :: 'k
  assumes "sl_inv cmp hgt sl ps" "\<And>p. p \<in> set ps \<Longrightarrow> cmp (sl_key sl p) key \<noteq> 0"
  shows "\<exists>sl' h. Insert cmp key sl = Some sl' \<and> sl_key sl' = (sl_key sl)(sl_alloc sl := key) \<and>
    sl_inv cmp (hgt(sl_alloc sl := h)) sl'
      (takeWhile (\<lambda>p. cmp (sl_key sl p) key < 0) ps @ sl_alloc sl # dropWhile (\<lambda>p. cmp (sl_key sl p) key < 0) ps)"
proof (rule Insert_steps [OF assms])
  fix h sl1 prev
  assume h: "Insert cmp key sl = link_levels (sl_alloc sl) prev [0..<h] sl1" "1 \<le> h"
    "sl_key sl1 = (sl_key sl)(sl_alloc sl := key)"
    and "\<And>k. k \<le> h \<Longrightarrow> \<exists>nx. link_levels (sl_alloc sl) prev [0..<k] sl1 = Some (sl1\<lparr>sl_next := nx\<rparr>) \<and>
      sl_inv cmp (hgt(sl_alloc sl := k)) (sl1\<lparr>sl_next := nx\<rparr>) (if k = 0 then ps else
        takeWhile (\<lambda>p. cmp (sl_key sl p) key < 0) ps @ sl_alloc sl # dropWhile (\<lambda>p. cmp (sl_key sl p) key < 0) ps)"
  from this(4) [of h] h show ?thesis by (auto intro!: exI [of _ h])
qed blast+

end

section \<open>The table as a sorted list\<close>

text \<open>The contract of the table towards the memtable: \<open>rep s ks\<close> says that it holds the keys \<open>ks\<close>.\<close>

locale ordered_table = three_way cmp for cmp :: "'k \<Rightarrow> 'k \<Rightarrow> int" +
  fixes rep :: "'s \<Rightarrow> 'k list \<Rightarrow> bool"
    and insert_key :: "'k \<Rightarrow> 's \<Rightarrow> 's option"
    and seek_key :: "'s \<Rightarrow> 'k \<Rightarrow> 'k option option"
  assumes rep_sorted: "rep s ks \<Longrightarrow> sorted_wrt (\<lambda>a b. cmp a b < 0) ks"
    and rep_insert: "rep s ks \<Longrightarrow> \<forall>k' \<in> set ks. cmp k' k \<noteq> 0 \<Longrightarrow> \<exists>s'. insert_key k s = Some s' \<and>
      rep s' (takeWhile (\<lambda>k'. cmp k' k < 0) ks @ k # dropWhile (\<lambda>k'. cmp k' k < 0) ks)"
    and rep_seek: "rep s ks \<Longrightarrow> seek_key s t = Some (list_hd (dropWhile (\<lambda>k'. cmp k' t < 0) ks))"
begin

text \<open>A seek returns a least key that is not below the target, and fails only if there is none.\<close>

lemma seek_least:
  assumes "rep s ks"
  shows "seek_key s t = Some None \<Longrightarrow> k \<in> set ks \<Longrightarrow> cmp k t < 0"
    and "seek_key s t = Some (Some k') \<Longrightarrow> k' \<in> set ks \<and> 0 \<le> cmp k' t"
    and "seek_key s t = Some (Some k') \<Longrightarrow> k \<in> set ks \<Longrightarrow> 0 \<le> cmp k t \<Longrightarrow> k = k' \<or> cmp k' k < 0"
proof -
  let ?lt = "\<lambda>k'. cmp k' t < 0"
  note sorted = rep_sorted [OF assms]
  have seek: "seek_key s t = Some (list_hd (dropWhile ?lt ks))" by (rule rep_seek [OF assms])
  show "cmp k t < 0" if "seek_key s t = Some None" "k \<in> set ks"
    using that seek by (auto simp: list_hd_def split: list.splits)
  show "k' \<in> set ks \<and> 0 \<le> cmp k' t" if *: "seek_key s t = Some (Some k')"
  proof -
    obtain bs where bs: "dropWhile ?lt ks = k' # bs"
      using * seek by (auto simp: list_hd_def split: list.splits)
    then have "k' \<in> set ks" using set_dropWhileD [of k' ?lt ks] by simp
    then show ?thesis using bs by (simp add: dropWhile_eq_Cons_conv not_less)
  qed
  show "k = k' \<or> cmp k' k < 0" if *: "seek_key s t = Some (Some k')" "k \<in> set ks" "0 \<le> cmp k t"
  proof -
    obtain bs where bs: "dropWhile ?lt ks = k' # bs"
      using *(1) seek by (auto simp: list_hd_def split: list.splits)
    then have "ks = takeWhile ?lt ks @ k' # bs" by (metis takeWhile_dropWhile_id)
    then have "sorted_wrt (\<lambda>a b. cmp a b < 0) (takeWhile ?lt ks @ k' # bs)" using sorted by simp
    moreover have "k \<notin> set (takeWhile ?lt ks)" using *(3) by (auto dest: set_takeWhileD)
    moreover have "k \<in> set (takeWhile ?lt ks @ k' # bs)" using *(2) \<open>ks = _\<close> by simp
    ultimately show ?thesis by (auto simp: sorted_wrt_append)
  qed
qed

lemma insert_set:
  assumes "rep s ks" "\<forall>k' \<in> set ks. cmp k' k \<noteq> 0"
  obtains s' ks' where "insert_key k s = Some s'" "rep s' ks'" "set ks' = insert k (set ks)"
proof -
  have "set (takeWhile (\<lambda>k'. cmp k' k < 0) ks) \<union> set (dropWhile (\<lambda>k'. cmp k' k < 0) ks) = set ks"
    by (metis set_append takeWhile_dropWhile_id)
  then show thesis using rep_insert [OF assms] that by fastforce
qed

end

definition sl_rep :: "('k \<Rightarrow> 'k \<Rightarrow> int) \<Rightarrow> 'k SkipList \<Rightarrow> 'k list \<Rightarrow> bool" where
  "sl_rep cmp sl ks \<longleftrightarrow> (\<exists>hgt ps. sl_inv cmp hgt sl ps \<and> ks = map (sl_key sl) ps)"

definition sl_seek :: "('k \<Rightarrow> 'k \<Rightarrow> int) \<Rightarrow> 'k SkipList \<Rightarrow> 'k \<Rightarrow> 'k option option" where
  "sl_seek cmp sl t = map_option (map_option (sl_key sl)) (it_Seek cmp sl t)"

lemma map_option_list_hd: "map_option f (list_hd xs) = list_hd (map f xs)"
  by (cases xs) auto

lemma takeWhile_map_key:
  "takeWhile P (map f xs) = map f (takeWhile (P \<circ> f) xs)" "dropWhile P (map f xs) = map f (dropWhile (P \<circ> f) xs)"
  by (auto simp: takeWhile_map dropWhile_map)

sublocale three_way \<subseteq> skiplist: ordered_table cmp "sl_rep cmp" "Insert cmp" "sl_seek cmp"
proof
  fix s :: "'k SkipList" and ks k t
  assume rep: "sl_rep cmp s ks"
  then obtain hgt ps where inv: "sl_inv cmp hgt s ps" and ks: "ks = map (sl_key s) ps"
    by (auto simp: sl_rep_def)
  show "sorted_wrt (\<lambda>a b. cmp a b < 0) ks" using inv by (simp add: ks sl_inv_def sorted_wrt_map)
  show "sl_seek cmp s t = Some (list_hd (dropWhile (\<lambda>k'. cmp k' t < 0) ks))"
    using FindGreaterOrEqual_spec [OF inv, of t]
    by (auto simp: sl_seek_def it_Seek_def ks map_option_list_hd takeWhile_map_key comp_def)
  show "\<exists>s'. Insert cmp k s = Some s' \<and>
      sl_rep cmp s' (takeWhile (\<lambda>k'. cmp k' k < 0) ks @ k # dropWhile (\<lambda>k'. cmp k' k < 0) ks)"
    if "\<forall>k' \<in> set ks. cmp k' k \<noteq> 0"
  proof -
    have "\<And>p. p \<in> set ps \<Longrightarrow> cmp (sl_key s p) k \<noteq> 0" using that ks by auto
    from Insert_spec [OF inv this] obtain s' h where s': "Insert cmp k s = Some s'"
      "sl_key s' = (sl_key s)(sl_alloc s := k)"
      "sl_inv cmp (hgt(sl_alloc s := h)) s' (takeWhile (\<lambda>p. cmp (sl_key s p) k < 0) ps @ sl_alloc s #
         dropWhile (\<lambda>p. cmp (sl_key s p) k < 0) ps)" by blast
    have "sl_alloc s \<notin> set ps" using inv by (auto simp: sl_inv_def)
    then have "sl_alloc s \<notin> set (takeWhile P ps)" "sl_alloc s \<notin> set (dropWhile P ps)" for P
      by (auto dest: set_takeWhileD set_dropWhileD)
    then have "takeWhile (\<lambda>k'. cmp k' k < 0) ks @ k # dropWhile (\<lambda>k'. cmp k' k < 0) ks =
        map (sl_key s') (takeWhile (\<lambda>p. cmp (sl_key s p) k < 0) ps @ sl_alloc s # dropWhile (\<lambda>p. cmp (sl_key s p) k < 0) ps)"
      using s'(2) by (simp add: ks takeWhile_map_key comp_def)
    then show ?thesis using s'(1,3) unfolding sl_rep_def by metis
  qed
qed

section \<open>Construction, membership and iteration\<close>

lemma fold_SetNext_None:
  "fold (\<lambda>i. SetNext h i None) is sl =
     sl\<lparr>sl_next := (sl_next sl)(h := (\<lambda>l. if l \<in> set is then None else sl_next sl h l))\<rparr>"
  by (induction "is" arbitrary: sl) (auto simp: SetNext_def fun_upd_def fun_eq_iff)

lemma new_SkipList_inv: "sl_inv cmp hgt (new_SkipList k0 mk mn) []"
  by (simp add: new_SkipList_def NewNode_def fold_SetNext_None sl_inv_def kMaxHeight_def)

lemma new_SkipList_rep: "sl_rep cmp (new_SkipList k0 mk mn) []"
  using new_SkipList_inv [of cmp "\<lambda>_. 0"] by (fastforce simp: sl_rep_def)

lemma chain_next:
  assumes "chain nx h ps" "i < length ps"
  shows "nx (ps ! i) = (if Suc i < length ps then Some (ps ! Suc i) else None)"
  using assms
proof (induction ps arbitrary: h i)
  case (Cons p ps)
  then show ?case by (cases i; cases ps) auto
qed simp

lemma sl_inv_level0: "sl_inv cmp hgt sl ps \<Longrightarrow> chain (\<lambda>p. sl_next sl p 0) (sl_head sl) ps"
proof -
  assume inv: "sl_inv cmp hgt sl ps"
  then have "filter (\<lambda>p. 0 < hgt p) ps = ps" by (auto simp: sl_inv_def filter_id_conv Suc_le_eq)
  with inv show ?thesis by (auto simp: sl_inv_def kMaxHeight_def dest!: spec [of _ 0])
qed

lemma it_SeekToFirst_spec: "sl_inv cmp hgt sl ps \<Longrightarrow> it_SeekToFirst sl = list_hd ps"
  using sl_inv_level0 [of cmp hgt sl ps] by (cases ps) (auto simp: it_SeekToFirst_def)

lemma it_Next_spec:
  "sl_inv cmp hgt sl ps \<Longrightarrow> i < length ps \<Longrightarrow>
   it_Next sl (Some (ps ! i)) = (if Suc i < length ps then Some (ps ! Suc i) else None)"
  using chain_next [OF sl_inv_level0, of cmp hgt sl ps i] by (simp add: it_Next_def)

lemma it_SeekToLast_spec: "sl_inv cmp hgt sl ps \<Longrightarrow> it_SeekToLast sl = Some (if ps = [] then None else Some (last ps))"
proof -
  assume inv: "sl_inv cmp hgt sl ps"
  then have "sl_head sl \<notin> set ps" by (simp add: sl_inv_def)
  with FindLast_spec [OF inv] show ?thesis by (cases ps rule: rev_cases) (auto simp: it_SeekToLast_def)
qed

context three_way
begin

lemma takeWhile_below_nth:
  assumes "sl_inv cmp hgt sl ps" "i < length ps"
  shows "takeWhile (\<lambda>p. cmp (sl_key sl p) (sl_key sl (ps ! i)) < 0) ps = take i ps"
proof (rule takeWhile_eq_take_P_nth)
  have sorted: "sorted_wrt (\<lambda>p q. cmp (sl_key sl p) (sl_key sl q) < 0) ps" using assms by (simp add: sl_inv_def)
  then show "cmp (sl_key sl (ps ! j)) (sl_key sl (ps ! i)) < 0" if "j < i" "j < length ps" for j
    using sorted_wrt_nth_less [OF sorted that(1) assms(2)] by simp
qed simp

lemma it_Prev_spec:
  assumes "sl_inv cmp hgt sl ps" "i < length ps"
  shows "it_Prev cmp sl (Some (ps ! i)) = Some (if i = 0 then None else Some (ps ! (i - 1)))"
proof -
  have "sl_head sl \<notin> set ps" using assms by (simp add: sl_inv_def)
  moreover have "last (take i ps) = ps ! (i - 1) \<and> take i ps \<noteq> []" if "i \<noteq> 0"
    using that assms(2) by (cases i) (auto simp: take_Suc_conv_app_nth)
  ultimately show ?thesis
    using FindLessThan_spec [OF assms(1), of "sl_key sl (ps ! i)"] assms(2)
    by (auto simp: it_Prev_def it_key_def takeWhile_below_nth [OF assms] in_set_conv_nth)
qed

lemmas sl_rep_insert = skiplist.rep_insert

lemma Contains_spec:
  assumes "sl_rep cmp sl ks"
  shows "Contains cmp sl key = Some (\<exists>k \<in> set ks. cmp k key = 0)"
proof -
  obtain hgt ps where inv: "sl_inv cmp hgt sl ps" and ks: "ks = map (sl_key sl) ps"
    using assms by (auto simp: sl_rep_def)
  obtain prev where find: "FindGreaterOrEqual cmp sl key = Some (list_hd (dropWhile (\<lambda>p. cmp (sl_key sl p) key < 0) ps), prev)"
    using FindGreaterOrEqual_spec [OF inv] by blast
  have seek: "sl_seek cmp sl key = Some (list_hd (dropWhile (\<lambda>k. cmp k key < 0) ks))"
    by (rule skiplist.rep_seek [OF assms])
  show ?thesis
  proof (cases "list_hd (dropWhile (\<lambda>p. cmp (sl_key sl p) key < 0) ps)")
    case None
    then have "sl_seek cmp sl key = Some None" by (simp add: sl_seek_def it_Seek_def find)
    then have "cmp k key < 0" if "k \<in> set ks" for k using skiplist.seek_least(1) [OF assms] that by blast
    then show ?thesis using find None by (force simp: Contains_def)
  next
    case (Some p)
    then have found: "sl_seek cmp sl key = Some (Some (sl_key sl p))" by (simp add: sl_seek_def it_Seek_def find)
    have "cmp k key = 0 \<Longrightarrow> k \<in> set ks \<Longrightarrow> cmp (sl_key sl p) key = 0" for k
      using skiplist.seek_least(2,3) [OF assms found] cmp_less_le_trans [of "sl_key sl p" k key] by fastforce
    then have "cmp key (sl_key sl p) = 0 \<longleftrightarrow> (\<exists>k \<in> set ks. cmp k key = 0)"
      using skiplist.seek_least(2) [OF assms found] cmp_eq_flip by blast
    then show ?thesis using find Some by (simp add: Contains_def)
  qed
qed

end

section \<open>Properties\<close>

interpretation bytes_order: three_way Slice_compare
  by (rule bytewise.three_way_axioms [unfolded Compare_BytewiseComparator])

text \<open>C5: The skip list refines a sorted list. With any three-way comparison, inserting a key that is
  not yet there always returns (the searches terminate and no uninitialised \<open>prev\<close> entry is
  followed), yields a heap that satisfies the invariant again, puts the key at its place in the
  order and leaves all other keys; \<open>Contains\<close> then decides membership.\<close>

theorem skiplist_insert:
  assumes "three_way cmp" "sl_rep cmp sl ks" "\<forall>k' \<in> set ks. cmp k' k \<noteq> 0"
  shows "\<exists>sl'. Insert cmp k sl = Some sl' \<and>
    sl_rep cmp sl' (takeWhile (\<lambda>k'. cmp k' k < 0) ks @ k # dropWhile (\<lambda>k'. cmp k' k < 0) ks) \<and>
    (\<forall>t. Contains cmp sl' t = Some (cmp k t = 0 \<or> (\<exists>k' \<in> set ks. cmp k' t = 0)))"
proof -
  obtain sl' where "Insert cmp k sl = Some sl'"
    and rep: "sl_rep cmp sl' (takeWhile (\<lambda>k'. cmp k' k < 0) ks @ k # dropWhile (\<lambda>k'. cmp k' k < 0) ks)"
    using three_way.sl_rep_insert [OF assms] by blast
  moreover have "set ks = set (takeWhile (\<lambda>k'. cmp k' k < 0) ks) \<union> set (dropWhile (\<lambda>k'. cmp k' k < 0) ks)"
    by (metis set_append takeWhile_dropWhile_id)
  ultimately show ?thesis using three_way.Contains_spec [OF assms(1) rep] by auto
qed

theorem skiplist_insert_witness:
  "\<exists>sl'. Insert Slice_compare [2] (new_SkipList [] (\<lambda>_. []) (\<lambda>_ _. None)) = Some sl' \<and>
    sl_rep Slice_compare sl' [[2]] \<and> Contains Slice_compare sl' [2] = Some True"
  using skiplist_insert [OF bytes_order.three_way_axioms
      new_SkipList_rep [of _ "[]" "\<lambda>_. []" "\<lambda>_ _. None"], of "[2]"] by fastforce

text \<open>C6: The iterator of a skip list that holds the nodes \<open>ps\<close> in key order starts at the first node,
  steps forward and backward along \<open>ps\<close>, becomes invalid at either end, and seeks to the first node
  whose key is not before the target.\<close>

theorem skiplist_iterator:
  assumes "three_way cmp" "sl_inv cmp hgt sl ps"
  shows "it_SeekToFirst sl = list_hd ps \<and>
    it_SeekToLast sl = Some (if ps = [] then None else Some (last ps)) \<and>
    it_Seek cmp sl t = Some (list_hd (dropWhile (\<lambda>p. cmp (sl_key sl p) t < 0) ps)) \<and>
    (\<forall>i < length ps. it_Next sl (Some (ps ! i)) = (if Suc i < length ps then Some (ps ! Suc i) else None) \<and>
       it_Prev cmp sl (Some (ps ! i)) = Some (if i = 0 then None else Some (ps ! (i - 1))))"
  using it_SeekToFirst_spec [OF assms(2)] it_SeekToLast_spec [OF assms(2)] it_Next_spec [OF assms(2)]
    three_way.it_Prev_spec [OF assms] three_way.FindGreaterOrEqual_spec [OF assms, of t]
  by (auto simp: it_Seek_def)

theorem skiplist_iterator_witness:
  "\<exists>sl' hgt n. Insert Slice_compare [2] (new_SkipList [] (\<lambda>_. []) (\<lambda>_ _. None)) = Some sl' \<and>
    sl_inv Slice_compare hgt sl' [n] \<and> it_SeekToFirst sl' = Some n \<and> it_Next sl' (Some n) = None"
proof -
  obtain sl' h where "Insert Slice_compare [2] (new_SkipList [] (\<lambda>_. []) (\<lambda>_ _. None)) = Some sl'"
    and inv: "sl_inv Slice_compare h sl' [sl_alloc (new_SkipList [] (\<lambda>_. []) (\<lambda>_ _. None) :: slice SkipList)]"
    using bytes_order.Insert_spec [OF new_SkipList_inv [of _ "\<lambda>_. 0" "[]" "\<lambda>_. []" "\<lambda>_ _. None"], of "[2]"] by auto
  then show ?thesis using skiplist_iterator [OF bytes_order.three_way_axioms inv] by fastforce
qed



end
