(* ===== verification/Status.thy ===== *)
theory Status
  imports Coding
begin

text \<open>
  \<^verbatim>\<open>include/leveldb/status.h\<close> and \<^verbatim>\<open>util/status.cpp\<close>: the result of operations that may fail.
  As in the class, a status is its \<open>state_\<close> pointer: \<^term>\<open>None\<close> for \<open>NULL\<close>, which means success,
  and otherwise an array that holds the length of the message, the code and the message.
\<close>

section \<open>Data\<close>

type_synonym status = "slice option"

datatype Code = kOk | kNotFound | kCorruption | kNotSupported | kInvalidArgument | kIOError

primrec Code_byte :: "Code \<Rightarrow> byte" where
  "Code_byte kOk = 0"
| "Code_byte kNotFound = 1"
| "Code_byte kCorruption = 2"
| "Code_byte kNotSupported = 3"
| "Code_byte kInvalidArgument = 4"
| "Code_byte kIOError = 5"

section \<open>Operations\<close>

text \<open>The private constructor: the size arithmetic is the 32-bit one of the source.\<close>

definition Status :: "Code \<Rightarrow> slice \<Rightarrow> slice \<Rightarrow> status" where
  "Status c msg msg2 =
     (let len1 = word_of_nat (length msg) :: u32;
          len2 = word_of_nat (length msg2) :: u32;
          size = len1 + (if len2 \<noteq> 0 then 2 + len2 else 0)
      in Some (EncodeFixed32 size @ [Code_byte c] @ take (unat len1) msg @
           (if len2 \<noteq> 0 then str '': '' @ take (unat len2) msg2 else [])))"

definition OK :: status where
  "OK = None"

definition NotFound :: "slice \<Rightarrow> slice \<Rightarrow> status" where
  "NotFound msg msg2 = Status kNotFound msg msg2"

definition Corruption :: "slice \<Rightarrow> slice \<Rightarrow> status" where
  "Corruption msg msg2 = Status kCorruption msg msg2"

definition NotSupported :: "slice \<Rightarrow> slice \<Rightarrow> status" where
  "NotSupported msg msg2 = Status kNotSupported msg msg2"

definition InvalidArgument :: "slice \<Rightarrow> slice \<Rightarrow> status" where
  "InvalidArgument msg msg2 = Status kInvalidArgument msg msg2"

definition IOError :: "slice \<Rightarrow> slice \<Rightarrow> status" where
  "IOError msg msg2 = Status kIOError msg msg2"

definition ok :: "status \<Rightarrow> bool" where
  "ok s \<longleftrightarrow> s = None"

definition code :: "status \<Rightarrow> byte" where
  "code s = (case s of None \<Rightarrow> Code_byte kOk | Some state \<Rightarrow> state ! 4)"

definition IsNotFound :: "status \<Rightarrow> bool" where
  "IsNotFound s \<longleftrightarrow> code s = Code_byte kNotFound"

definition IsCorruption :: "status \<Rightarrow> bool" where
  "IsCorruption s \<longleftrightarrow> code s = Code_byte kCorruption"

definition IsIOError :: "status \<Rightarrow> bool" where
  "IsIOError s \<longleftrightarrow> code s = Code_byte kIOError"

definition IsNotSupportedError :: "status \<Rightarrow> bool" where
  "IsNotSupportedError s \<longleftrightarrow> code s = Code_byte kNotSupported"

definition IsInvalidArgument :: "status \<Rightarrow> bool" where
  "IsInvalidArgument s \<longleftrightarrow> code s = Code_byte kInvalidArgument"

definition CopyState :: "slice \<Rightarrow> slice" where
  "CopyState state = take (unat (DecodeFixed32 state) + 5) state"

definition Status_copy :: "status \<Rightarrow> status" where
  "Status_copy s = (case s of None \<Rightarrow> None | Some state \<Rightarrow> Some (CopyState state))"

text \<open>The \<open>default\<close> case prints the code as a signed integer.\<close>

definition Status_ToString :: "status \<Rightarrow> slice" where
  "Status_ToString s =
     (case s of
        None \<Rightarrow> str ''OK''
      | Some state \<Rightarrow>
          (let type =
             (if code s = Code_byte kOk then str ''OK''
              else if code s = Code_byte kNotFound then str ''NotFound: ''
              else if code s = Code_byte kCorruption then str ''Corruption: ''
              else if code s = Code_byte kNotSupported then str ''Not implemented: ''
              else if code s = Code_byte kInvalidArgument then str ''Invalid argument: ''
              else if code s = Code_byte kIOError then str ''IO error: ''
              else str ''Unknown code('' @ dec_int (sint (code s)) @ str ''): '')
           in type @ take (unat (DecodeFixed32 state)) (drop 5 state)))"

section \<open>Lemmas\<close>

lemmas status_defs = NotFound_def Corruption_def NotSupported_def InvalidArgument_def IOError_def

lemma code_Status [simp]: "code (Status c msg msg2) = Code_byte c"
  by (simp add: Status_def code_def Let_def nth_append)

lemma code_OK [simp]: "code OK = Code_byte kOk" "code None = Code_byte kOk"
  by (simp_all add: OK_def code_def)

lemma ok_OK [simp]: "ok OK" "ok None"
  by (simp_all add: ok_def OK_def)

lemma not_ok_Status [simp]: "\<not> ok (Status c msg msg2)"
  by (simp add: Status_def ok_def Let_def)

lemma not_ok_errors [simp]:
  "\<not> ok (NotFound m m2)" "\<not> ok (Corruption m m2)" "\<not> ok (NotSupported m m2)"
  "\<not> ok (InvalidArgument m m2)" "\<not> ok (IOError m m2)"
  by (simp_all add: status_defs)

lemma IsNotFound_simps [simp]:
  "IsNotFound (NotFound m m2)" "\<not> IsNotFound (Corruption m m2)" "\<not> IsNotFound (NotSupported m m2)"
  "\<not> IsNotFound (InvalidArgument m m2)" "\<not> IsNotFound (IOError m m2)" "\<not> IsNotFound OK" "\<not> IsNotFound None"
  by (simp_all add: IsNotFound_def status_defs)

lemma IsCorruption_simps [simp]:
  "IsCorruption (Corruption m m2)" "\<not> IsCorruption (NotFound m m2)" "\<not> IsCorruption (NotSupported m m2)"
  "\<not> IsCorruption (InvalidArgument m m2)" "\<not> IsCorruption (IOError m m2)" "\<not> IsCorruption OK"
  by (simp_all add: IsCorruption_def status_defs)

lemma Status_layout:
  assumes "length msg + length msg2 + 2 < 2 ^ 32"
  obtains m where "m = msg @ (if msg2 = [] then [] else str '': '' @ msg2)"
    and "Status c msg msg2 = Some (EncodeFixed32 (word_of_nat (length m)) @ Code_byte c # m)"
    and "unat (word_of_nat (length m) :: u32) = length m"
proof
  let ?m = "msg @ (if msg2 = [] then [] else str '': '' @ msg2)"
  have "(word_of_nat (length msg2) :: u32) = 0 \<longleftrightarrow> msg2 = []"
    using assms(1) unat_word_of_nat_small [of "length msg2", where ?'a = 32] by auto
  then show "Status c msg msg2 = Some (EncodeFixed32 (word_of_nat (length ?m)) @ Code_byte c # ?m)"
    using assms(1) by (cases "msg2 = []") (simp_all add: Status_def Let_def unat_word_of_nat_small add.left_commute)
  show "unat (word_of_nat (length ?m) :: u32) = length ?m"
    using assms by (intro unat_word_of_nat_small) auto
qed simp

lemma Status_copy_id:
  assumes "length msg + length msg2 + 2 < 2 ^ 32"
  shows "Status_copy (Status c msg msg2) = Status c msg msg2"
proof -
  obtain m where "Status c msg msg2 = Some (EncodeFixed32 (word_of_nat (length m)) @ Code_byte c # m)"
    and "unat (word_of_nat (length m) :: u32) = length m"
    by (rule Status_layout [OF assms])
  then show ?thesis by (simp add: Status_copy_def CopyState_def)
qed

lemma Status_ToString_message:
  assumes "length msg + length msg2 + 2 < 2 ^ 32" "c \<noteq> kOk"
  shows "\<exists>type. Status_ToString (Status c msg msg2) =
    type @ msg @ (if msg2 = [] then [] else str '': '' @ msg2)"
proof -
  obtain m where m: "m = msg @ (if msg2 = [] then [] else str '': '' @ msg2)"
    and "Status c msg msg2 = Some (EncodeFixed32 (word_of_nat (length m)) @ Code_byte c # m)"
    and "unat (word_of_nat (length m) :: u32) = length m"
    by (rule Status_layout [OF assms(1)])
  then show ?thesis
    unfolding m [symmetric] by (simp add: Status_ToString_def Let_def)
qed

end
