(* ===== verification/Memtable.thy ===== *)
theory Memtable
  imports Dbformat Skiplist Status
begin

unbundle bit_operations_syntax

text \<open>
  \<^verbatim>\<open>db/memtable.h\<close> and \<^verbatim>\<open>db/memtable.cpp\<close>: the memtable is a skip list of encoded entries. A
  \<open>const char*\<close> key of the skip list is the list of bytes from the pointer on. \<open>mt_rep\<close> relates a
  memtable to the set of entries (user key, sequence number, type, value) it holds; \<open>Add\<close> inserts
  into that set and \<open>Get\<close> returns the newest entry a snapshot may see.
\<close>

section \<open>Model\<close>

text \<open>
  The file-local \<open>GetLengthPrefixedSlice\<close> reads the length from at most five bytes and assumes that
  they are not corrupted: a failing read leaves pointer and length undefined, here \<^term>\<open>the None\<close>.
  It returns the slice together with the bytes that follow it.
\<close>

definition mem_GetLengthPrefixedSlice :: "slice \<Rightarrow> slice \<times> slice" where
  "mem_GetLengthPrefixedSlice data =
     (let (len, p) = the (GetVarint32Ptr (take 5 data));
          body = drop (length (take 5 data) - length p) data
      in (take (unat len) body, drop (unat len) body))"

definition MemTable_KeyComparator :: "comparator \<Rightarrow> slice \<Rightarrow> slice \<Rightarrow> int" where
  "MemTable_KeyComparator uc aptr bptr =
     (let a = fst (mem_GetLengthPrefixedSlice aptr);
          b = fst (mem_GetLengthPrefixedSlice bptr)
      in Compare (InternalKeyComparator uc) a b)"

record MemTable =
  mt_table :: "slice SkipList"
  mt_refs :: int

definition new_MemTable :: "slice SkipList \<Rightarrow> MemTable" where
  "new_MemTable table = \<lparr>mt_table = table, mt_refs = 0\<rparr>"

definition MemTable_Ref :: "MemTable \<Rightarrow> MemTable" where
  "MemTable_Ref m = m\<lparr>mt_refs := mt_refs m + 1\<rparr>"

text \<open>\<open>Unref\<close> deletes the object when the count reaches zero.\<close>

definition MemTable_Unref :: "MemTable \<Rightarrow> MemTable option" where
  "MemTable_Unref m =
     (let m = m\<lparr>mt_refs := mt_refs m - 1\<rparr> in if mt_refs m \<le> 0 then None else Some m)"

definition MemTable_EncodeKey :: "slice \<Rightarrow> slice" where
  "MemTable_EncodeKey target = PutVarint32 [] (word_of_nat (length target)) @ target"

definition mem_entry :: "SequenceNumber \<Rightarrow> ValueType \<Rightarrow> slice \<Rightarrow> slice \<Rightarrow> slice" where
  "mem_entry s type key value =
     (let key_size = length key;
          val_size = length value;
          internal_key_size = key_size + 8
      in EncodeVarint32 (word_of_nat internal_key_size) @ key @
         EncodeFixed64 (push_bit 8 s OR ValueType_code type) @
         EncodeVarint32 (word_of_nat val_size) @ value)"

definition mem_encoded_len :: "slice \<Rightarrow> slice \<Rightarrow> nat" where
  "mem_encoded_len key value =
     (let internal_key_size = length key + 8; val_size = length value
      in VarintLength (word_of_nat internal_key_size) + internal_key_size +
         VarintLength (word_of_nat val_size) + val_size)"

definition MemTable_Add ::
  "comparator \<Rightarrow> SequenceNumber \<Rightarrow> ValueType \<Rightarrow> slice \<Rightarrow> slice \<Rightarrow> MemTable \<Rightarrow> MemTable option"
where
  "MemTable_Add uc s type key value m =
     map_option (\<lambda>t. m\<lparr>mt_table := t\<rparr>)
       (Insert (MemTable_KeyComparator uc) (mem_entry s type key value) (mt_table m))"

text \<open>The out-parameters \<open>value\<close> and \<open>s\<close> are passed in and returned with the result.\<close>

definition MemTable_Get ::
  "comparator \<Rightarrow> MemTable \<Rightarrow> LookupKey \<Rightarrow> slice \<Rightarrow> status \<Rightarrow> (bool \<times> slice \<times> status) option"
where
  "MemTable_Get uc m key value s =
     (case it_Seek (MemTable_KeyComparator uc) (mt_table m) (memtable_key key) of
        None \<Rightarrow> None
      | Some iter \<Rightarrow>
          Some (if it_Valid iter then
            let entry = it_key (mt_table m) iter;
                (key_length, p) = the (GetVarint32Ptr (take 5 entry));
                key_ptr = drop (length (take 5 entry) - length p) entry
            in if Compare uc (take (unat (key_length - 8)) key_ptr) (lk_user_key key) = 0 then
                 let tag = DecodeFixed64 (drop (unat (key_length - 8)) key_ptr) in
                 case ValueType_of (ucast (tag AND 0xff)) of
                   Some kTypeValue \<Rightarrow> (True, fst (mem_GetLengthPrefixedSlice (drop (unat key_length) key_ptr)), s)
                 | Some kTypeDeletion \<Rightarrow> (True, value, NotFound [] [])
                 | None \<Rightarrow> (False, value, s)
               else (False, value, s)
          else (False, value, s)))"

text \<open>\<open>MemTableIterator\<close>: the skip list iterator with the entry decoded.\<close>

definition MemTableIterator_Seek :: "comparator \<Rightarrow> MemTable \<Rightarrow> slice \<Rightarrow> nat option option" where
  "MemTableIterator_Seek uc m k = it_Seek (MemTable_KeyComparator uc) (mt_table m) (MemTable_EncodeKey k)"

definition MemTableIterator_key :: "MemTable \<Rightarrow> nat option \<Rightarrow> slice" where
  "MemTableIterator_key m iter = fst (mem_GetLengthPrefixedSlice (it_key (mt_table m) iter))"

definition MemTableIterator_value :: "MemTable \<Rightarrow> nat option \<Rightarrow> slice" where
  "MemTableIterator_value m iter =
     (let (key_slice, rest) = mem_GetLengthPrefixedSlice (it_key (mt_table m) iter)
      in fst (mem_GetLengthPrefixedSlice rest))"

section \<open>Entries\<close>

type_synonym entry = "slice \<times> SequenceNumber \<times> ValueType \<times> slice"

fun entry_bytes :: "entry \<Rightarrow> slice" where
  "entry_bytes (u, s, t, v) = mem_entry s t u v"

fun entry_ikey :: "entry \<Rightarrow> slice" where
  "entry_ikey (u, s, t, v) = InternalKey u s t"

fun entry_ok :: "entry \<Rightarrow> bool" where
  "entry_ok (u, s, t, v) \<longleftrightarrow> s \<le> kMaxSequenceNumber \<and> length u + 8 < 2 ^ 32 \<and> length v < 2 ^ 32"

lemma take_varint:
  assumes "n < 2 ^ 32"
  shows "take 5 (varint n @ r) = varint n @ take (5 - length (varint n)) r"
  using assms length_varint_le [of n 5] by simp

lemma mem_entry_eq:
  "mem_entry s t u v = EncodeVarint32 (word_of_nat (length u + 8)) @ InternalKey u s t @
     EncodeVarint32 (word_of_nat (length v)) @ v"
  by (simp add: mem_entry_def Let_def InternalKey_eq PackSequenceAndType_def del: of_nat_add)

lemma GetVarint32Ptr_take5:
  assumes "n < 2 ^ 32"
  shows "GetVarint32Ptr (take 5 (varint n @ r)) = Some (word_of_nat n, take (5 - length (varint n)) r)"
  using GetVarint32_varint [OF assms] unfolding take_varint [OF assms] GetVarint32_def by blast

lemma mem_GetLengthPrefixedSlice_varint:
  assumes "n < 2 ^ 32"
  shows "mem_GetLengthPrefixedSlice (varint n @ r) = (take n r, drop n r)"
proof -
  have "length (take 5 (varint n @ r)) - length (take (5 - length (varint n)) r) = length (varint n)"
    unfolding take_varint [OF assms] by simp
  then show ?thesis
    using assms by (simp add: mem_GetLengthPrefixedSlice_def GetVarint32Ptr_take5 unat_word_of_nat_small del: length_take take_append)
qed

lemma EncodeVarint32_nat: "n < 2 ^ 32 \<Longrightarrow> EncodeVarint32 (word_of_nat n) = varint n"
  by (simp add: EncodeVarint32_varint unat_word_of_nat_small)

lemma mem_entry_varint:
  assumes "length u + 8 < 2 ^ 32" "length v < 2 ^ 32"
  shows "mem_entry s t u v = varint (length u + 8) @ InternalKey u s t @ varint (length v) @ v"
  using assms by (simp add: mem_entry_eq EncodeVarint32_nat del: of_nat_add)

text \<open>The assertion of \<open>Add\<close>: the entry fills the allocated buffer exactly.\<close>

lemma length_mem_entry:
  assumes "length u + 8 < 2 ^ 32" "length v < 2 ^ 32"
  shows "length (mem_entry s t u v) = mem_encoded_len u v"
  using assms by (simp add: mem_entry_varint mem_encoded_len_def Let_def VarintLength_varint unat_word_of_nat_small del: of_nat_add)

lemma entry_decode:
  assumes "entry_ok e"
  shows "fst (mem_GetLengthPrefixedSlice (entry_bytes e)) = entry_ikey e"
    and "fst (mem_GetLengthPrefixedSlice (snd (mem_GetLengthPrefixedSlice (entry_bytes e)))) = snd (snd (snd e))"
  using assms by (cases e; simp add: mem_entry_varint mem_GetLengthPrefixedSlice_varint)+

lemma memtable_key_decode:
  "length u + 8 < 2 ^ 32 \<Longrightarrow>
   fst (mem_GetLengthPrefixedSlice (memtable_key (make_LookupKey u s))) = InternalKey u s kTypeValue"
  by (simp add: memtable_key_eq EncodeVarint32_nat mem_GetLengthPrefixedSlice_varint kValueTypeForSeek_def del: of_nat_add)

section \<open>The memtable as a set of entries\<close>

definition mt_rep :: "comparator \<Rightarrow> MemTable \<Rightarrow> entry set \<Rightarrow> bool" where
  "mt_rep uc m E \<longleftrightarrow> (\<exists>ks. sl_rep (MemTable_KeyComparator uc) (mt_table m) ks \<and> set ks = entry_bytes ` E) \<and>
     (\<forall>e \<in> E. entry_ok e)"

text \<open>The entries of user key \<open>u\<close> that a reader at sequence number \<open>snap\<close> may see, and the newest one.\<close>

fun visible :: "comparator \<Rightarrow> slice \<Rightarrow> SequenceNumber \<Rightarrow> entry \<Rightarrow> bool" where
  "visible uc u snap (u', s, t, v) \<longleftrightarrow> Compare uc u' u = 0 \<and> s \<le> snap"

fun newer_eq :: "entry \<Rightarrow> entry \<Rightarrow> bool" where
  "newer_eq (u, s, t, v) (u', s', t', v') \<longleftrightarrow> s' < s \<or> s' = s \<and> ValueType_code t' \<le> ValueType_code t"

definition newest :: "comparator \<Rightarrow> entry set \<Rightarrow> slice \<Rightarrow> SequenceNumber \<Rightarrow> entry \<Rightarrow> bool" where
  "newest uc E u snap e \<longleftrightarrow> e \<in> E \<and> visible uc u snap e \<and> (\<forall>e' \<in> E. visible uc u snap e' \<longrightarrow> newer_eq e e')"

lemma new_MemTable_rep: "mt_rep uc (new_MemTable (new_SkipList k0 mk mn)) {}"
  using new_SkipList_rep by (fastforce simp: mt_rep_def new_MemTable_def)

lemma MemTable_KeyComparator_entry:
  "entry_ok e \<Longrightarrow> entry_ok e' \<Longrightarrow>
   MemTable_KeyComparator uc (entry_bytes e) (entry_bytes e') = internal_Compare uc (entry_ikey e) (entry_ikey e')"
  by (simp add: MemTable_KeyComparator_def entry_decode)

lemma MemTable_KeyComparator_target:
  "entry_ok e \<Longrightarrow> length u + 8 < 2 ^ 32 \<Longrightarrow>
   MemTable_KeyComparator uc (entry_bytes e) (memtable_key (make_LookupKey u s)) =
     internal_Compare uc (entry_ikey e) (InternalKey u s kTypeValue)"
  by (simp add: MemTable_KeyComparator_def entry_decode memtable_key_decode)

sublocale user_comparator \<subseteq> memkey: three_way "MemTable_KeyComparator uc"
  by unfold_locales
    (auto simp: MemTable_KeyComparator_def internal_flip intro: internal_le_trans)

context user_comparator
begin

lemma entry_compare:
  assumes "entry_ok (u, s, t, v)" "snap \<le> kMaxSequenceNumber"
  shows "0 \<le> internal_Compare uc (entry_ikey (u, s, t, v)) (InternalKey u' snap kTypeValue) \<longleftrightarrow>
    0 < Compare uc u u' \<or> visible uc u' snap (u, s, t, v)"
  using assms by (cases t) (auto simp: internal_Compare_InternalKey not_less)

lemma newest_is_least:
  assumes e: "newest uc E u snap e" and "entry_ok e" "entry_ok e'" "e' \<in> E" "snap \<le> kMaxSequenceNumber"
    and ge: "0 \<le> internal_Compare uc (entry_ikey e') (InternalKey u snap kTypeValue)"
  shows "internal_Compare uc (entry_ikey e) (entry_ikey e') \<le> 0"
proof -
  obtain u1 s1 t1 v1 where e1: "e = (u1, s1, t1, v1)" by (cases e)
  obtain u2 s2 t2 v2 where e2: "e' = (u2, s2, t2, v2)" by (cases e')
  have u1: "Compare uc u1 u = 0" using e by (simp add: newest_def e1)
  consider "0 < Compare uc u2 u" | "visible uc u snap e'"
    using ge entry_compare [of u2 s2 t2 v2 snap u] assms by (auto simp: e2)
  then show ?thesis
  proof cases
    case 1
    then have "Compare uc u u2 < 0" by (simp add: cmp_flip)
    then have "Compare uc u1 u2 < 0" using u1 cmp_eq_cong by blast
    then show ?thesis using assms by (simp add: e1 e2 internal_Compare_InternalKey)
  next
    case 2
    then have "Compare uc u1 u2 = 0" using u1 cmp_eq_trans cmp_eq_flip by (metis e2 visible.simps)
    moreover have "newer_eq e e'" using e 2 assms(4) by (simp add: newest_def)
    ultimately show ?thesis using assms by (auto simp: e1 e2 internal_Compare_InternalKey)
  qed
qed

lemma MemTable_Add_rep:
  assumes rep: "mt_rep uc m E" and ok: "entry_ok (u, s, t, v)"
    and new: "\<And>u' t' v'. (u', s, t', v') \<in> E \<Longrightarrow> Compare uc u' u \<noteq> 0 \<or> t' \<noteq> t"
  shows "\<exists>m'. MemTable_Add uc s t u v m = Some m' \<and> mt_rep uc m' (insert (u, s, t, v) E) \<and> mt_refs m' = mt_refs m"
proof -
  obtain ks where ks: "sl_rep (MemTable_KeyComparator uc) (mt_table m) ks" "set ks = entry_bytes ` E"
    and E: "\<And>e. e \<in> E \<Longrightarrow> entry_ok e"
    using rep by (auto simp: mt_rep_def)
  have "MemTable_KeyComparator uc (entry_bytes e) (entry_bytes (u, s, t, v)) \<noteq> 0" if "e \<in> E" for e
  proof -
    obtain u' s' t' v' where e: "e = (u', s', t', v')" by (cases e)
    have "Compare uc u' u \<noteq> 0 \<or> s' \<noteq> s \<or> t' \<noteq> t" using new that e by blast
    then have "internal_Compare uc (entry_ikey e) (entry_ikey (u, s, t, v)) \<noteq> 0"
      using E [OF that] ok by (cases t; cases t') (auto simp: e internal_Compare_InternalKey)
    then show ?thesis using MemTable_KeyComparator_entry E [OF that] ok by metis
  qed
  then have "\<forall>k \<in> set ks. MemTable_KeyComparator uc k (entry_bytes (u, s, t, v)) \<noteq> 0" using ks(2) by auto
  then obtain tb ks' where "Insert (MemTable_KeyComparator uc) (entry_bytes (u, s, t, v)) (mt_table m) = Some tb"
    "sl_rep (MemTable_KeyComparator uc) tb ks'" "set ks' = insert (entry_bytes (u, s, t, v)) (set ks)"
    using memkey.skiplist.insert_set [OF ks(1)] by metis
  then show ?thesis using ks(2) E ok by (auto simp: MemTable_Add_def mt_rep_def)
qed

lemma MemTable_Get_None:
  assumes "it_Seek (MemTable_KeyComparator uc) (mt_table m) (memtable_key (make_LookupKey u snap)) = Some None"
  shows "MemTable_Get uc m (make_LookupKey u snap) value st = Some (False, value, st)"
  using assms by (simp add: MemTable_Get_def it_Valid_def)

lemma MemTable_Get_Some:
  assumes "it_Seek (MemTable_KeyComparator uc) (mt_table m) (memtable_key (make_LookupKey u snap)) = Some (Some n)"
    and "sl_key (mt_table m) n = entry_bytes (u', s, t, v)" and ok: "entry_ok (u', s, t, v)"
  shows "MemTable_Get uc m (make_LookupKey u snap) value st =
    Some (if Compare uc u' u = 0 then case t of kTypeValue \<Rightarrow> (True, v, st) | kTypeDeletion \<Rightarrow> (True, value, NotFound [] [])
          else (False, value, st))"
proof -
  let ?n = "length u' + 8"
  have n: "?n < 2 ^ 32" using ok by simp
  define body where "body = InternalKey u' s t @ varint (length v) @ v"
  have entry: "it_key (mt_table m) (Some n) = varint ?n @ body"
    using assms ok by (simp add: it_key_def mem_entry_varint body_def)
  have key: "drop (length (take 5 (varint ?n @ body)) - length (take (5 - length (varint ?n)) body)) (varint ?n @ body) = body"
    unfolding take_varint [OF n] by simp
  have len: "unat (word_of_nat ?n - 8 :: u32) = length u'" "unat (word_of_nat ?n :: u32) = ?n"
    using n unat_word_of_nat_small [of "length u'", where ?'a = 32] unat_word_of_nat_small [of ?n, where ?'a = 32] by simp_all
  have parts: "take (length u') body = u'" "DecodeFixed64 (drop (length u') body) = PackSequenceAndType s t"
    "drop ?n body = varint (length v) @ v"
    by (simp_all add: body_def InternalKey_eq)
  have v: "fst (mem_GetLengthPrefixedSlice (varint (length v) @ v)) = v"
    using ok by (simp add: mem_GetLengthPrefixedSlice_varint)
  have tag: "ValueType_of (ucast (PackSequenceAndType s t AND 0xff)) = Some t" using ok by (intro Pack_type) simp
  show ?thesis
    unfolding MemTable_Get_def assms(1) option.case it_Valid_def entry GetVarint32Ptr_take5 [OF n] option.sel prod.case Let_def
      key len parts tag v lk_user_key_eq
    by (cases t) simp_all
qed

lemma MemTable_seek_cases:
  assumes rep: "mt_rep uc m E" and snap: "snap \<le> kMaxSequenceNumber" and u: "length u + 8 < 2 ^ 32"
  obtains "it_Seek (MemTable_KeyComparator uc) (mt_table m) (memtable_key (make_LookupKey u snap)) = Some None"
    "\<And>e. e \<in> E \<Longrightarrow> internal_Compare uc (entry_ikey e) (InternalKey u snap kTypeValue) < 0"
  | n e where "it_Seek (MemTable_KeyComparator uc) (mt_table m) (memtable_key (make_LookupKey u snap)) = Some (Some n)"
    "e \<in> E" "sl_key (mt_table m) n = entry_bytes e"
    "0 \<le> internal_Compare uc (entry_ikey e) (InternalKey u snap kTypeValue)"
    "\<And>e'. e' \<in> E \<Longrightarrow> 0 \<le> internal_Compare uc (entry_ikey e') (InternalKey u snap kTypeValue) \<Longrightarrow>
      entry_bytes e' = entry_bytes e \<or> internal_Compare uc (entry_ikey e) (entry_ikey e') < 0"
proof -
  let ?cmp = "MemTable_KeyComparator uc" and ?t = "memtable_key (make_LookupKey u snap)"
  obtain ks where ks: "sl_rep ?cmp (mt_table m) ks" "set ks = entry_bytes ` E"
    and E: "\<And>e. e \<in> E \<Longrightarrow> entry_ok e" using rep by (auto simp: mt_rep_def)
  note target = MemTable_KeyComparator_target [OF E u] and least = memkey.skiplist.seek_least [OF ks(1)]
  have "sl_seek ?cmp (mt_table m) ?t \<noteq> None" using memkey.skiplist.rep_seek [OF ks(1)] by simp
  then obtain node where node: "it_Seek ?cmp (mt_table m) ?t = Some node" by (auto simp: sl_seek_def)
  show thesis
  proof (cases node)
    case None
    then have "sl_seek ?cmp (mt_table m) ?t = Some None" using node by (simp add: sl_seek_def)
    then have "?cmp (entry_bytes e) ?t < 0" if "e \<in> E" for e using least(1) ks(2) that by blast
    then show thesis using that(1) node None target by metis
  next
    case (Some n)
    then have found: "sl_seek ?cmp (mt_table m) ?t = Some (Some (sl_key (mt_table m) n))" using node by (simp add: sl_seek_def)
    then obtain e where e: "e \<in> E" "sl_key (mt_table m) n = entry_bytes e" "0 \<le> ?cmp (entry_bytes e) ?t"
      using least(2) ks(2) by (metis imageE)
    have "entry_bytes e' = entry_bytes e \<or> ?cmp (entry_bytes e) (entry_bytes e') < 0"
      if "e' \<in> E" "0 \<le> ?cmp (entry_bytes e') ?t" for e'
      using least(3) [OF found, of "entry_bytes e'"] that ks(2) e(2) by auto
    then show thesis
      using that(2) [of n e] node Some e target MemTable_KeyComparator_entry E by metis
  qed
qed

lemma entry_bytes_inj: "entry_ok e \<Longrightarrow> entry_ok e' \<Longrightarrow> entry_bytes e = entry_bytes e' \<Longrightarrow> e = e'"
proof -
  assume ok: "entry_ok e" "entry_ok e'" "entry_bytes e = entry_bytes e'"
  obtain u s t v u' s' t' v' where e: "e = (u, s, t, v)" "e' = (u', s', t', v')" by (cases e; cases e')
  have "InternalKey u s t = InternalKey u' s' t'" "v = v'"
    using entry_decode [OF ok(1)] entry_decode [OF ok(2)] ok(3) by (simp_all add: e)
  moreover from this(1) have "ParseInternalKey (InternalKey u s t) = ParseInternalKey (InternalKey u' s' t')" by (rule arg_cong)
  then have "u = u' \<and> s = s' \<and> t = t'" using ok(1,2) by (simp add: e)
  ultimately show ?thesis by (simp add: e)
qed

lemma MemTable_Get_absent:
  assumes rep: "mt_rep uc m E" and snap: "snap \<le> kMaxSequenceNumber" and u: "length u + 8 < 2 ^ 32"
    and none: "\<nexists>e. e \<in> E \<and> visible uc u snap e"
  shows "MemTable_Get uc m (make_LookupKey u snap) value st = Some (False, value, st)"
proof (rule MemTable_seek_cases [OF rep snap u])
  fix n e
  assume seek: "it_Seek (MemTable_KeyComparator uc) (mt_table m) (memtable_key (make_LookupKey u snap)) = Some (Some n)"
    and e: "e \<in> E" "sl_key (mt_table m) n = entry_bytes e"
    and ge: "0 \<le> internal_Compare uc (entry_ikey e) (InternalKey u snap kTypeValue)"
  obtain u' s t v where e4: "e = (u', s, t, v)" by (cases e)
  have ok: "entry_ok (u', s, t, v)" using rep e(1) e4 by (auto simp: mt_rep_def)
  have "Compare uc u' u \<noteq> 0" using ge entry_compare [OF ok snap, of u] none e(1) by (auto simp: e4)
  then show ?thesis using MemTable_Get_Some [OF seek e(2) [unfolded e4] ok] by simp
qed (rule MemTable_Get_None)

lemma MemTable_Get_newest:
  assumes rep: "mt_rep uc m E" and snap: "snap \<le> kMaxSequenceNumber" and u: "length u + 8 < 2 ^ 32"
    and new: "newest uc E u snap (u', s, t, v)"
  shows "MemTable_Get uc m (make_LookupKey u snap) value st =
    Some (case t of kTypeValue \<Rightarrow> (True, v, st) | kTypeDeletion \<Rightarrow> (True, value, NotFound [] []))"
proof -
  have inE: "(u', s, t, v) \<in> E" and vis: "visible uc u snap (u', s, t, v)" using new by (simp_all add: newest_def)
  have ok: "\<And>e. e \<in> E \<Longrightarrow> entry_ok e" using rep by (simp add: mt_rep_def)
  have ge: "0 \<le> internal_Compare uc (entry_ikey (u', s, t, v)) (InternalKey u snap kTypeValue)"
    using entry_compare [OF ok [OF inE] snap] vis by blast
  show ?thesis
  proof (rule MemTable_seek_cases [OF rep snap u])
    fix n e
    assume seek: "it_Seek (MemTable_KeyComparator uc) (mt_table m) (memtable_key (make_LookupKey u snap)) = Some (Some n)"
      and e: "e \<in> E" "sl_key (mt_table m) n = entry_bytes e"
      and e_ge: "0 \<le> internal_Compare uc (entry_ikey e) (InternalKey u snap kTypeValue)"
      and least: "\<And>e'. e' \<in> E \<Longrightarrow> 0 \<le> internal_Compare uc (entry_ikey e') (InternalKey u snap kTypeValue) \<Longrightarrow>
        entry_bytes e' = entry_bytes e \<or> internal_Compare uc (entry_ikey e) (entry_ikey e') < 0"
    have "internal_Compare uc (entry_ikey (u', s, t, v)) (entry_ikey e) \<le> 0"
      using newest_is_least [OF new ok [OF inE] ok [OF e(1)] e(1) snap e_ge] .
    then have "\<not> internal_Compare uc (entry_ikey e) (entry_ikey (u', s, t, v)) < 0" using internal_flip [of "entry_ikey (u', s, t, v)" "entry_ikey e"] by linarith
    then have "e = (u', s, t, v)" using least [OF inE ge] entry_bytes_inj ok inE e(1) by metis
    then show ?thesis using MemTable_Get_Some [OF seek] e ok [OF inE] vis by simp
  next
    assume "\<And>e. e \<in> E \<Longrightarrow> internal_Compare uc (entry_ikey e) (InternalKey u snap kTypeValue) < 0"
    then show ?thesis using ge inE by force
  qed
qed

end

section \<open>Properties\<close>

text \<open>C17: Adding an entry under a fresh sequence number to a memtable always succeeds, fills the
  allocated buffer exactly, and extends the set of entries by the new one.\<close>

theorem memtable_add:
  assumes "mt_rep BytewiseComparator m E" "entry_ok (u, s, t, v)" "\<forall>(u', s', t', v') \<in> E. s' \<noteq> s"
  shows "\<exists>m'. MemTable_Add BytewiseComparator s t u v m = Some m' \<and>
    mt_rep BytewiseComparator m' (insert (u, s, t, v) E) \<and> length (mem_entry s t u v) = mem_encoded_len u v"
  using bytewise_user.MemTable_Add_rep [OF assms(1,2)] assms(2,3) length_mem_entry by fastforce

theorem memtable_add_witness:
  "\<exists>m'. MemTable_Add BytewiseComparator 5 kTypeValue [1] [2, 3] (new_MemTable (new_SkipList [] (\<lambda>_. []) (\<lambda>_ _. None))) = Some m' \<and>
    mt_rep BytewiseComparator m' {([1], 5, kTypeValue, [2, 3])}"
  using memtable_add [OF new_MemTable_rep, of "[1]" 5 kTypeValue "[2, 3]" "[]" "\<lambda>_. []" "\<lambda>_ _. None"]
  by (auto simp: seq_le_max)

text \<open>C9: A lookup in a memtable at a snapshot returns the newest entry of the user key that is not
  newer than the snapshot: its value, or \<open>NotFound\<close> if it is a deletion. If there is no such
  entry the lookup reports that the memtable does not decide and leaves its results untouched.\<close>

theorem memtable_get:
  assumes "mt_rep BytewiseComparator m E" "snap \<le> kMaxSequenceNumber" "length u + 8 < 2 ^ 32"
  shows "((\<nexists>e. e \<in> E \<and> visible BytewiseComparator u snap e) \<longrightarrow>
      MemTable_Get BytewiseComparator m (make_LookupKey u snap) value st = Some (False, value, st)) \<and>
    (newest BytewiseComparator E u snap (u', s, t, v) \<longrightarrow>
      MemTable_Get BytewiseComparator m (make_LookupKey u snap) value st =
        Some (case t of kTypeValue \<Rightarrow> (True, v, st) | kTypeDeletion \<Rightarrow> (True, value, NotFound [] [])))"
  using bytewise_user.MemTable_Get_absent [OF assms] bytewise_user.MemTable_Get_newest [OF assms] by blast

theorem memtable_get_witness:
  "\<exists>m'. MemTable_Add BytewiseComparator 5 kTypeValue [1] [2, 3] (new_MemTable (new_SkipList [] (\<lambda>_. []) (\<lambda>_ _. None))) = Some m' \<and>
    MemTable_Get BytewiseComparator m' (make_LookupKey [1] 7) [] OK = Some (True, [2, 3], OK) \<and>
    MemTable_Get BytewiseComparator m' (make_LookupKey [1] 4) [] OK = Some (False, [], OK)"
proof -
  let ?E = "{([1 :: byte], 5 :: SequenceNumber, kTypeValue, [2, 3 :: byte])}"
  obtain m' where m': "MemTable_Add BytewiseComparator 5 kTypeValue [1] [2, 3] (new_MemTable (new_SkipList [] (\<lambda>_. []) (\<lambda>_ _. None))) = Some m'"
    and rep: "mt_rep BytewiseComparator m' ?E"
    using bytewise_user.MemTable_Add_rep [OF new_MemTable_rep, of "[1]" 5 kTypeValue "[2, 3]" "[]" "\<lambda>_. []" "\<lambda>_ _. None"]
    by (auto simp: seq_le_max)
  have "newest BytewiseComparator ?E [1] 7 ([1], 5, kTypeValue, [2, 3])" by (simp add: newest_def)
  moreover have "\<nexists>e. e \<in> ?E \<and> visible BytewiseComparator [1] 4 e" by simp
  ultimately show ?thesis
    using m' memtable_get [OF rep, of 7 "[1]" "[]" OK "[1]" 5 kTypeValue "[2, 3]"] memtable_get [OF rep, of 4 "[1]" "[]" OK]
    by (simp add: seq_le_max)
qed

end
