(* ===== verification/Write_Batch.thy ===== *)
theory Write_Batch
  imports Memtable
begin

text \<open>
  \<^verbatim>\<open>db/write_batch.cpp\<close>, \<^verbatim>\<open>db/write_batch_internal.h\<close> and \<^verbatim>\<open>include/leveldb/write_batch.h\<close>: a batch is
  its string \<open>rep_\<close>. \<open>Iterate\<close> is parameterised by the two callbacks of a \<open>Handler\<close>, which update a
  state of any type; \<open>InsertInto\<close> instantiates them with \<open>MemTableInserter\<close>.
\<close>

section \<open>Model\<close>

definition kHeader :: nat where "kHeader = 12"

definition WriteBatch_Clear :: slice where
  "WriteBatch_Clear = replicate kHeader 0"

definition Count :: "slice \<Rightarrow> u32" where
  "Count rep = DecodeFixed32 (drop 8 rep)"

definition SetCount :: "slice \<Rightarrow> u32 \<Rightarrow> slice" where
  "SetCount rep n = take 8 rep @ EncodeFixed32 n @ drop 12 rep"

definition Sequence :: "slice \<Rightarrow> SequenceNumber" where
  "Sequence rep = DecodeFixed64 rep"

definition SetSequence :: "slice \<Rightarrow> SequenceNumber \<Rightarrow> slice" where
  "SetSequence rep seq = EncodeFixed64 seq @ drop 8 rep"

definition WriteBatch_Put :: "slice \<Rightarrow> slice \<Rightarrow> slice \<Rightarrow> slice" where
  "WriteBatch_Put key value rep =
     (let rep = SetCount rep (Count rep + 1);
          rep = rep @ [ucast (ValueType_code kTypeValue)];
          rep = PutLengthPrefixedSlice rep key
      in PutLengthPrefixedSlice rep value)"

definition WriteBatch_Delete :: "slice \<Rightarrow> slice \<Rightarrow> slice" where
  "WriteBatch_Delete key rep =
     (let rep = SetCount rep (Count rep + 1);
          rep = rep @ [ucast (ValueType_code kTypeDeletion)]
      in PutLengthPrefixedSlice rep key)"

definition WriteBatch_SetContents :: "slice \<Rightarrow> slice" where
  "WriteBatch_SetContents contents = contents"

definition WriteBatch_Append :: "slice \<Rightarrow> slice \<Rightarrow> slice" where
  "WriteBatch_Append dst src = SetCount dst (Count dst + Count src) @ drop kHeader src"

function Iterate_loop ::
  "(slice \<Rightarrow> slice \<Rightarrow> 's \<Rightarrow> 's) \<Rightarrow> (slice \<Rightarrow> 's \<Rightarrow> 's) \<Rightarrow> slice \<Rightarrow> u32 \<Rightarrow> 's \<Rightarrow> (status + u32) \<times> 's"
where
  "Iterate_loop put del input found h =
     (case input of
        [] \<Rightarrow> (Inr found, h)
      | tag # rest \<Rightarrow>
          (let found = found + 1 in
           case ValueType_of tag of
             Some kTypeValue \<Rightarrow>
               (case GetLengthPrefixedSlice rest of
                  None \<Rightarrow> (Inl (Corruption (str ''bad WriteBatch Put'') []), h)
                | Some (key, rest1) \<Rightarrow>
                    (case GetLengthPrefixedSlice rest1 of
                       None \<Rightarrow> (Inl (Corruption (str ''bad WriteBatch Put'') []), h)
                     | Some (value, rest2) \<Rightarrow> Iterate_loop put del rest2 found (put key value h)))
           | Some kTypeDeletion \<Rightarrow>
               (case GetLengthPrefixedSlice rest of
                  None \<Rightarrow> (Inl (Corruption (str ''bad WriteBatch Delete'') []), h)
                | Some (key, rest1) \<Rightarrow> Iterate_loop put del rest1 found (del key h))
           | None \<Rightarrow> (Inl (Corruption (str ''unknown WriteBatch tag'') []), h)))"
  by pat_completeness auto
termination
  by (relation "measure (\<lambda>(put, del, input, found, h). length input)")
    (auto dest!: GetLengthPrefixedSlice_shorter)

declare Iterate_loop.simps [simp del]

definition WriteBatch_Iterate ::
  "(slice \<Rightarrow> slice \<Rightarrow> 's \<Rightarrow> 's) \<Rightarrow> (slice \<Rightarrow> 's \<Rightarrow> 's) \<Rightarrow> slice \<Rightarrow> 's \<Rightarrow> status \<times> 's"
where
  "WriteBatch_Iterate put del rep h =
     (if length rep < kHeader then (Corruption (str ''malformed WriteBatch (too small)'') [], h)
      else case Iterate_loop put del (drop kHeader rep) 0 h of
        (Inl s, h) \<Rightarrow> (s, h)
      | (Inr found, h) \<Rightarrow>
          if found \<noteq> Count rep then (Corruption (str ''WriteBatch has wrong count'') [], h) else (OK, h))"

text \<open>\<open>MemTableInserter\<close>: the state is \<open>sequence_\<close> and the memtable.\<close>

definition inserter_Put :: "comparator \<Rightarrow> slice \<Rightarrow> slice \<Rightarrow> SequenceNumber \<times> MemTable option \<Rightarrow> SequenceNumber \<times> MemTable option" where
  "inserter_Put uc key value st =
     (case st of (seq, m) \<Rightarrow> (seq + 1, Option.bind m (MemTable_Add uc seq kTypeValue key value)))"

definition inserter_Delete :: "comparator \<Rightarrow> slice \<Rightarrow> SequenceNumber \<times> MemTable option \<Rightarrow> SequenceNumber \<times> MemTable option" where
  "inserter_Delete uc key st =
     (case st of (seq, m) \<Rightarrow> (seq + 1, Option.bind m (MemTable_Add uc seq kTypeDeletion key [])))"

definition InsertInto :: "comparator \<Rightarrow> slice \<Rightarrow> MemTable \<Rightarrow> status \<times> MemTable option" where
  "InsertInto uc rep m =
     (let (s, seq, m') = WriteBatch_Iterate (inserter_Put uc) (inserter_Delete uc) rep (Sequence rep, Some m)
      in (s, m'))"

section \<open>Batches as lists of updates\<close>

datatype update = Upd_Put slice slice | Upd_Delete slice

fun apply_update :: "(slice \<Rightarrow> slice \<Rightarrow> 's \<Rightarrow> 's) \<Rightarrow> (slice \<Rightarrow> 's \<Rightarrow> 's) \<Rightarrow> update \<Rightarrow> 's \<Rightarrow> 's" where
  "apply_update put del (Upd_Put k v) h = put k v h"
| "apply_update put del (Upd_Delete k) h = del k h"

fun update_bytes :: "update \<Rightarrow> slice" where
  "update_bytes (Upd_Put k v) = 1 # PutLengthPrefixedSlice [] k @ PutLengthPrefixedSlice [] v"
| "update_bytes (Upd_Delete k) = 0 # PutLengthPrefixedSlice [] k"

fun update_ok :: "update \<Rightarrow> bool" where
  "update_ok (Upd_Put k v) \<longleftrightarrow> length k + 8 < 2 ^ 32 \<and> length v < 2 ^ 32"
| "update_ok (Upd_Delete k) \<longleftrightarrow> length k + 8 < 2 ^ 32"

text \<open>\<open>batch_rep seq us\<close> is the string of a batch with these updates and this sequence number.\<close>

definition batch_rep :: "SequenceNumber \<Rightarrow> update list \<Rightarrow> slice" where
  "batch_rep seq us = EncodeFixed64 seq @ EncodeFixed32 (word_of_nat (length us)) @ concat (map update_bytes us)"

fun batch_op :: "update \<Rightarrow> slice \<Rightarrow> slice" where
  "batch_op (Upd_Put k v) rep = WriteBatch_Put k v rep"
| "batch_op (Upd_Delete k) rep = WriteBatch_Delete k rep"

lemma DecodeFixed32_Encode_Nil [simp]: "DecodeFixed32 (EncodeFixed32 v) = v"
  using DecodeFixed32_Encode [of v "[]"] by simp

lemma batch_rep_header [simp]:
  "Sequence (batch_rep seq us) = seq" "Count (batch_rep seq us) = word_of_nat (length us)"
  "SetCount (batch_rep seq us) n = EncodeFixed64 seq @ EncodeFixed32 n @ concat (map update_bytes us)"
  "SetSequence (batch_rep seq us) seq' = batch_rep seq' us"
  "drop kHeader (batch_rep seq us) = concat (map update_bytes us)"
  "\<not> length (batch_rep seq us) < kHeader"
  by (simp_all add: batch_rep_def Sequence_def Count_def SetCount_def SetSequence_def kHeader_def)

lemma EncodeFixed_0: "EncodeFixed64 0 = replicate 8 0" "EncodeFixed32 0 = replicate 4 0"
  by (simp_all add: EncodeFixed64_def EncodeFixed32_def numeral_eq_Suc)

lemma batch_Clear: "WriteBatch_Clear = batch_rep 0 []"
  by (simp add: WriteBatch_Clear_def batch_rep_def kHeader_def EncodeFixed_0 flip: replicate_add)

lemma batch_op_rep: "batch_op u (batch_rep seq us) = batch_rep seq (us @ [u])"
  by (cases u)
    (simp_all add: WriteBatch_Put_def WriteBatch_Delete_def Let_def,
     simp_all add: batch_rep_def PutLengthPrefixedSlice_def Put_varint add.commute)

lemma batch_fold_rep: "fold batch_op us (batch_rep seq vs) = batch_rep seq (vs @ us)"
  by (induction us arbitrary: vs) (auto simp: batch_op_rep)

lemma batch_Append: "WriteBatch_Append (batch_rep seq us) (batch_rep seq' vs) = batch_rep seq (us @ vs)"
  by (simp add: WriteBatch_Append_def) (simp add: batch_rep_def)

section \<open>Iterating over a batch\<close>

lemma Iterate_loop_step:
  assumes "update_ok u"
  shows "Iterate_loop put del (update_bytes u @ rest) found h =
    Iterate_loop put del rest (found + 1) (apply_update put del u h)"
  using assms
  by (cases u; subst Iterate_loop.simps) (auto simp: ValueType_of_def Let_def)

lemma Iterate_loop_updates:
  assumes "\<forall>u \<in> set us. update_ok u"
  shows "Iterate_loop put del (concat (map update_bytes us)) found h =
    (Inr (found + word_of_nat (length us)), fold (apply_update put del) us h)"
  using assms
proof (induction us arbitrary: found h)
  case Nil
  then show ?case by (subst Iterate_loop.simps) simp
next
  case (Cons u us)
  then show ?case by (simp add: Iterate_loop_step add.assoc)
qed

lemma Iterate_batch:
  "\<forall>u \<in> set us. update_ok u \<Longrightarrow>
   WriteBatch_Iterate put del (batch_rep seq us) h = (OK, fold (apply_update put del) us h)"
  by (simp add: WriteBatch_Iterate_def Iterate_loop_updates)

text \<open>The entries a batch adds: one per update, with consecutive sequence numbers.\<close>

fun update_entry :: "SequenceNumber \<Rightarrow> update \<Rightarrow> entry" where
  "update_entry s (Upd_Put k v) = (k, s, kTypeValue, v)"
| "update_entry s (Upd_Delete k) = (k, s, kTypeDeletion, [])"

fun batch_entries :: "SequenceNumber \<Rightarrow> update list \<Rightarrow> entry list" where
  "batch_entries s [] = []"
| "batch_entries s (u # us) = update_entry s u # batch_entries (s + 1) us"

lemma update_entry_ok: "update_ok u \<Longrightarrow> s \<le> kMaxSequenceNumber \<Longrightarrow> entry_ok (update_entry s u)"
  by (cases u) auto

context user_comparator
begin

lemma inserter_step:
  assumes "mt_rep uc m E" "update_ok u" "s \<le> kMaxSequenceNumber" "\<forall>(k, s', t, v) \<in> E. s' \<noteq> s"
  shows "\<exists>m'. apply_update (inserter_Put uc) (inserter_Delete uc) u (s, Some m) = (s + 1, Some m') \<and>
    mt_rep uc m' (insert (update_entry s u) E) \<and> mt_refs m' = mt_refs m"
proof -
  obtain k t v where e: "update_entry s u = (k, s, t, v)" by (cases u) auto
  have "entry_ok (k, s, t, v)" using update_entry_ok [OF assms(2,3)] e by simp
  then obtain m' where "MemTable_Add uc s t k v m = Some m'" "mt_rep uc m' (insert (k, s, t, v) E)" "mt_refs m' = mt_refs m"
    using MemTable_Add_rep [OF assms(1), of k s t v] assms(4) by blast
  then show ?thesis using e by (cases u) (auto simp: inserter_Put_def inserter_Delete_def)
qed

lemma inserter_updates:
  assumes "mt_rep uc m E" "\<forall>u \<in> set us. update_ok u" "unat s + length us \<le> unat kMaxSequenceNumber + 1"
    and "\<forall>(k, s', t, v) \<in> E. s' < s"
  shows "\<exists>m'. fold (apply_update (inserter_Put uc) (inserter_Delete uc)) us (s, Some m) = (s + word_of_nat (length us), Some m') \<and>
    mt_rep uc m' (set (batch_entries s us) \<union> E) \<and> mt_refs m' = mt_refs m"
  using assms
proof (induction us arbitrary: s m E)
  case Nil
  then show ?case by simp
next
  case (Cons u us)
  have s: "s \<le> kMaxSequenceNumber" using Cons.prems(3) by (simp add: word_le_nat_alt)
  then have s1: "unat (s + 1) = unat s + 1"
    by (simp add: unat_word_ariths seq_le_max)
  have below: "\<forall>(k, s', t, v) \<in> E. s' \<noteq> s" using Cons.prems(4) by auto
  obtain m1 where m1: "apply_update (inserter_Put uc) (inserter_Delete uc) u (s, Some m) = (s + 1, Some m1)"
    "mt_rep uc m1 (insert (update_entry s u) E)" "mt_refs m1 = mt_refs m"
    using inserter_step [OF Cons.prems(1) _ s _, of u] Cons.prems(2) below by auto
  have later: "\<forall>(k, s', t, v) \<in> insert (update_entry s u) E. s' < s + 1"
    using Cons.prems(4) s1 by (cases u) (auto simp: word_less_nat_alt)
  have "\<forall>u \<in> set us. update_ok u" "unat (s + 1) + length us \<le> unat kMaxSequenceNumber + 1"
    using Cons.prems(2,3) s1 by simp_all
  from Cons.IH [OF m1(2) this later] obtain m2 where "fold (apply_update (inserter_Put uc) (inserter_Delete uc)) us (s + 1, Some m1) = (s + 1 + word_of_nat (length us), Some m2)"
    "mt_rep uc m2 (set (batch_entries (s + 1) us) \<union> insert (update_entry s u) E)" "mt_refs m2 = mt_refs m1"
    by blast
  then show ?case using m1 by (auto simp: add.assoc Un_insert_right)
qed

lemma InsertInto_batch:
  assumes "mt_rep uc m E" "\<forall>u \<in> set us. update_ok u" "unat s + length us \<le> unat kMaxSequenceNumber + 1"
    and "\<forall>(k, s', t, v) \<in> E. s' < s"
  shows "\<exists>m'. InsertInto uc (batch_rep s us) m = (OK, Some m') \<and> mt_rep uc m' (set (batch_entries s us) \<union> E) \<and> mt_refs m' = mt_refs m"
  using inserter_updates [OF assms] assms(2) by (auto simp: InsertInto_def Iterate_batch)

end

section \<open>Corrupted batches\<close>

text \<open>\<open>Iterate\<close> never accepts a string whose count disagrees with its records.\<close>

lemma Iterate_loop_error: "Iterate_loop put del input found h = (Inl s, h') \<Longrightarrow> \<not> ok s"
proof (induction put del input found h arbitrary: h' rule: Iterate_loop.induct)
  case (1 put del input found h)
  from 1(3) show ?case
    by (subst (asm) Iterate_loop.simps)
      (auto simp: Let_def split: list.splits option.splits ValueType.splits dest: 1(1,2))
qed

lemma Iterate_ok_count:
  assumes "WriteBatch_Iterate put del rep h = (s, h')" "ok s"
  shows "kHeader \<le> length rep \<and> Iterate_loop put del (drop kHeader rep) 0 h = (Inr (Count rep), h')"
  using assms by (auto simp: WriteBatch_Iterate_def split: if_splits prod.splits sum.splits dest: Iterate_loop_error)

section \<open>Properties\<close>

text \<open>C16: A batch built by any sequence of \<open>Put\<close> and \<open>Delete\<close> calls, possibly by appending two
  batches, iterates over exactly these updates in order and with status OK.\<close>

theorem write_batch_roundtrip:
  assumes "\<forall>u \<in> set (us @ vs). update_ok u"
  shows "WriteBatch_Iterate put del
      (SetSequence (WriteBatch_Append (fold batch_op us WriteBatch_Clear) (fold batch_op vs WriteBatch_Clear)) seq) h =
    (OK, fold (apply_update put del) (us @ vs) h)"
  using Iterate_batch [OF assms] by (simp add: batch_Clear batch_fold_rep batch_Append)

theorem write_batch_roundtrip_witness:
  "WriteBatch_Iterate (\<lambda>k v log. (k, Some v) # log) (\<lambda>k log. (k, None) # log)
     (SetSequence (WriteBatch_Append (fold batch_op [Upd_Put [1] [2]] WriteBatch_Clear)
        (fold batch_op [Upd_Delete [3]] WriteBatch_Clear)) 9) [] =
   (OK, [([3], None), ([1], Some [2])])"
  by (subst write_batch_roundtrip) simp_all

text \<open>C15: \<open>InsertInto\<close> applies a batch to a memtable completely: with sequence numbers larger than all
  in the memtable it succeeds and adds one entry per update, numbered consecutively from the
  batch's sequence number.\<close>

theorem write_batch_insert:
  assumes "mt_rep BytewiseComparator m E" "\<forall>u \<in> set us. update_ok u"
    and "unat s + length us \<le> unat kMaxSequenceNumber + 1" "\<forall>(k, s', t, v) \<in> E. s' < s"
  shows "\<exists>m'. InsertInto BytewiseComparator (SetSequence (fold batch_op us WriteBatch_Clear) s) m = (OK, Some m') \<and>
    mt_rep BytewiseComparator m' (set (batch_entries s us) \<union> E)"
  using bytewise_user.InsertInto_batch [OF assms] by (auto simp: batch_Clear batch_fold_rep)

theorem write_batch_insert_witness:
  "\<exists>m'. InsertInto BytewiseComparator (SetSequence (fold batch_op [Upd_Put [1] [2], Upd_Delete [1]] WriteBatch_Clear) 7)
      (new_MemTable (new_SkipList [] (\<lambda>_. []) (\<lambda>_ _. None))) = (OK, Some m') \<and>
    mt_rep BytewiseComparator m' {([1], 7, kTypeValue, [2]), ([1], 8, kTypeDeletion, [])}"
  using write_batch_insert [OF new_MemTable_rep, of "[Upd_Put [1] [2], Upd_Delete [1]]" 7 "[]" "\<lambda>_. []" "\<lambda>_ _. None"]
  by (simp add: kMaxSequenceNumber_unat insert_commute)

end
