(* ===== verification/Env_Posix.thy ===== *)
theory Env_Posix
  imports Status
begin

text \<open>
  \<^verbatim>\<open>include/leveldb/env.h\<close>, \<^verbatim>\<open>util/env.cpp\<close> and \<^verbatim>\<open>util/env_posix.cpp\<close>: files, the background work queue
  and the resource limiter. The C library and the SGX protected file system are not part of the
  repository: they are the parameter \<open>io\<close>, a record of functions on a world of any type. The locale
  \<open>stdio_laws\<close> states what is documented of them; the interfaces \<open>writable_file\<close> and
  \<open>sequential_file\<close>, on which the log and table code rely, are derived for the file classes of
  \<^verbatim>\<open>env_posix.cpp\<close>. An in-memory file system shows that the laws can hold.
\<close>

section \<open>The C library as a parameter\<close>

text \<open>File handles are numbers, 0 being \<open>NULL\<close>. \<open>c_fseek\<close> is relative to the current position.\<close>

record 'w stdio =
  c_fopen :: "slice \<Rightarrow> slice \<Rightarrow> 'w \<Rightarrow> nat \<times> 'w"
  c_fclose :: "nat \<Rightarrow> 'w \<Rightarrow> int \<times> 'w"
  c_fread :: "nat \<Rightarrow> nat \<Rightarrow> 'w \<Rightarrow> slice \<times> 'w"
  c_feof :: "nat \<Rightarrow> 'w \<Rightarrow> bool"
  c_fseek :: "nat \<Rightarrow> int \<Rightarrow> 'w \<Rightarrow> int \<times> 'w"
  c_fwrite :: "nat \<Rightarrow> slice \<Rightarrow> 'w \<Rightarrow> nat \<times> 'w"
  c_fflush :: "nat \<Rightarrow> 'w \<Rightarrow> int \<times> 'w"
  c_unlink :: "slice \<Rightarrow> 'w \<Rightarrow> 'w"
  c_rename :: "slice \<Rightarrow> slice \<Rightarrow> 'w \<Rightarrow> 'w"
  c_mkdir :: "slice \<Rightarrow> 'w \<Rightarrow> 'w"
  c_access :: "slice \<Rightarrow> 'w \<Rightarrow> int"
  c_filesize :: "slice \<Rightarrow> 'w \<Rightarrow> u64"
  c_strerror :: "'w \<Rightarrow> slice"

section \<open>Calls out of the enclave\<close>

text \<open>
  The host functions of \<^verbatim>\<open>App/App.cpp\<close> pass sizes and results through \<open>int\<close>. A negative size is refused
  by the bridge generated from the EDL file; the result keeps the 0 its caller gave it.
\<close>

definition as_int :: "nat \<Rightarrow> int" where
  "as_int n = sint (word_of_nat n :: u32)"

definition ocall_fopen :: "'w stdio \<Rightarrow> slice \<Rightarrow> slice \<Rightarrow> 'w \<Rightarrow> nat \<times> 'w" where
  "ocall_fopen io fname mode w = c_fopen io fname mode w"

definition ocall_fwrite :: "'w stdio \<Rightarrow> slice \<Rightarrow> int \<Rightarrow> nat \<Rightarrow> 'w \<Rightarrow> int \<times> 'w" where
  "ocall_fwrite io data count h w =
     (if count < 0 then (0, w)
      else let (r, w) = c_fwrite io h (take (nat count) data) w in (as_int r, w))"

definition ocall_fread :: "'w stdio \<Rightarrow> int \<Rightarrow> nat \<Rightarrow> 'w \<Rightarrow> slice \<times> 'w" where
  "ocall_fread io count h w = (if count < 0 then ([], w) else c_fread io h (nat count) w)"

definition ocall_fseek :: "'w stdio \<Rightarrow> nat \<Rightarrow> u64 \<Rightarrow> 'w \<Rightarrow> int \<times> 'w" where
  "ocall_fseek io h offset w = c_fseek io h (sint (ucast offset :: u32)) w"

section \<open>File objects\<close>

text \<open>\<open>wf_Drop\<close> and \<open>sf_Drop\<close> are the destructors, run on a file that was not closed.\<close>

record 'w WritableFile =
  wf_Append :: "slice \<Rightarrow> 'w \<Rightarrow> status \<times> 'w"
  wf_Close :: "'w \<Rightarrow> status \<times> 'w"
  wf_Flush :: "'w \<Rightarrow> status \<times> 'w"
  wf_Sync :: "'w \<Rightarrow> status \<times> 'w"
  wf_Drop :: "'w \<Rightarrow> 'w"

record 'w SequentialFile =
  sf_Read :: "nat \<Rightarrow> 'w \<Rightarrow> status \<times> slice \<times> 'w"
  sf_Skip :: "u64 \<Rightarrow> 'w \<Rightarrow> status \<times> 'w"
  sf_Drop :: "'w \<Rightarrow> 'w"

definition io_error :: "'w stdio \<Rightarrow> slice \<Rightarrow> 'w \<Rightarrow> status" where
  "io_error io context w = IOError context (c_strerror io w)"

definition Posix_Read :: "'w stdio \<Rightarrow> slice \<Rightarrow> nat \<Rightarrow> nat \<Rightarrow> 'w \<Rightarrow> status \<times> slice \<times> 'w" where
  "Posix_Read io fname h n w =
     (let (d, w) = c_fread io h n w in
      if length d < n then
        if c_feof io h w then (OK, d, w) else (io_error io fname w, d, w)
      else (OK, d, w))"

definition PosixSequentialFile :: "'w stdio \<Rightarrow> slice \<Rightarrow> nat \<Rightarrow> 'w SequentialFile" where
  "PosixSequentialFile io fname h =
     \<lparr>sf_Read = Posix_Read io fname h,
      sf_Skip = (\<lambda>n w. let (r, w) = c_fseek io h (int (unat n)) w in
         if r \<noteq> 0 then (io_error io fname w, w) else (OK, w)),
      sf_Drop = (\<lambda>w. w)\<rparr>"

definition UnSecure_Read :: "'w stdio \<Rightarrow> slice \<Rightarrow> nat \<Rightarrow> nat \<Rightarrow> 'w \<Rightarrow> status \<times> slice \<times> 'w" where
  "UnSecure_Read io fname h n w =
     (let (d, w) = ocall_fread io (as_int n) h w in
      if length d < n then
        if c_feof io h w then (OK, d, w) else (io_error io fname w, d, w)
      else (OK, d, w))"

definition PosixUnSecureSequentialFile :: "'w stdio \<Rightarrow> slice \<Rightarrow> nat \<Rightarrow> 'w SequentialFile" where
  "PosixUnSecureSequentialFile io fname h =
     \<lparr>sf_Read = UnSecure_Read io fname h,
      sf_Skip = (\<lambda>n w. let (r, w) = ocall_fseek io h n w in
         if r \<noteq> 0 then (io_error io fname w, w) else (OK, w)),
      sf_Drop = (\<lambda>w. snd (c_fclose io h w))\<rparr>"

text \<open>
  Random access: every read opens the file, seeks, reads and closes it. The results of opening and
  seeking are not checked. \<open>flag\<close> only says on which side of the enclave the buffer lies.
\<close>

definition UnSecurePosixRandomAccessFile_Read ::
  "'w stdio \<Rightarrow> slice \<Rightarrow> u64 \<Rightarrow> nat \<Rightarrow> 'w \<Rightarrow> status \<times> slice \<times> 'w"
where
  "UnSecurePosixRandomAccessFile_Read io fname offset n w =
     (let (f, w) = ocall_fopen io fname (str ''r'') w;
          (_, w) = ocall_fseek io f offset w;
          (d, w) = ocall_fread io (as_int n) f w;
          (_, w) = c_fclose io f w
      in (OK, d, w))"

text \<open>
  In the protected variant the statement guarded by \<open>if (file_ == NULL)\<close> is the call of
  \<open>sgx_fseek\<close>, whose distance is \<open>n\<close>.
\<close>

definition PosixRandomAccessFile_Read ::
  "'w stdio \<Rightarrow> slice \<Rightarrow> u64 \<Rightarrow> nat \<Rightarrow> 'w \<Rightarrow> status \<times> slice \<times> 'w"
where
  "PosixRandomAccessFile_Read io fname offset n w =
     (let (f, w) = c_fopen io fname (str ''r'') w;
          w = (if f = 0 then snd (c_fseek io f (int n) w) else w);
          (d, w) = c_fread io f n w;
          (_, w) = c_fclose io f w
      in (OK, d, w))"

definition PosixMmapReadableFile_Read :: "slice \<Rightarrow> slice \<Rightarrow> slice \<Rightarrow> u64 \<Rightarrow> u64 \<Rightarrow> status \<times> slice" where
  "PosixMmapReadableFile_Read einval fname region offset n =
     (if word_of_nat (length region) < offset + n then (IOError fname einval, [])
      else (OK, take (unat n) (drop (unat offset) region)))"

text \<open>\<open>SyncDirIfManifest\<close> computes the directory and the base name and then does nothing with them.\<close>

definition SyncDirIfManifest :: "slice \<Rightarrow> status" where
  "SyncDirIfManifest fname = OK"

definition Posix_Close :: "'w stdio \<Rightarrow> slice \<Rightarrow> nat \<Rightarrow> 'w \<Rightarrow> status \<times> 'w" where
  "Posix_Close io fname h w = (let (r, w) = c_fclose io h w in if r \<noteq> 0 then (io_error io fname w, w) else (OK, w))"

definition Posix_Flush :: "'w stdio \<Rightarrow> slice \<Rightarrow> nat \<Rightarrow> 'w \<Rightarrow> status \<times> 'w" where
  "Posix_Flush io fname h w = (let (r, w) = c_fflush io h w in if r \<noteq> 0 then (io_error io fname w, w) else (OK, w))"

definition Posix_Sync :: "'w stdio \<Rightarrow> slice \<Rightarrow> nat \<Rightarrow> 'w \<Rightarrow> status \<times> 'w" where
  "Posix_Sync io fname h w =
     (let s = SyncDirIfManifest fname in
      if \<not> ok s then (s, w)
      else let (r, w) = c_fflush io h w in if r \<noteq> 0 then (io_error io fname w, w) else (s, w))"

definition UnSecurePosixWritableFile :: "'w stdio \<Rightarrow> slice \<Rightarrow> nat \<Rightarrow> 'w WritableFile" where
  "UnSecurePosixWritableFile io fname h =
     \<lparr>wf_Append = (\<lambda>data w. let (r, w) = ocall_fwrite io data (as_int (length data)) h w in
         if r \<noteq> int (length data) then (io_error io fname w, w) else (OK, w)),
      wf_Close = Posix_Close io fname h, wf_Flush = Posix_Flush io fname h,
      wf_Sync = Posix_Sync io fname h, wf_Drop = (\<lambda>w. snd (c_fclose io h w))\<rparr>"

definition PosixWritableFile :: "'w stdio \<Rightarrow> slice \<Rightarrow> nat \<Rightarrow> 'w WritableFile" where
  "PosixWritableFile io fname h =
     \<lparr>wf_Append = (\<lambda>data w. let (r, w) = c_fwrite io h data w in
         if r \<noteq> length data then (io_error io fname w, w) else (OK, w)),
      wf_Close = Posix_Close io fname h, wf_Flush = Posix_Flush io fname h,
      wf_Sync = Posix_Sync io fname h, wf_Drop = (\<lambda>w. snd (c_fclose io h w))\<rparr>"

section \<open>The environment\<close>

definition NewSequentialFile :: "'w stdio \<Rightarrow> slice \<Rightarrow> 'w \<Rightarrow> status \<times> 'w SequentialFile option \<times> 'w" where
  "NewSequentialFile io fname w =
     (let (f, w) = c_fopen io fname (str ''r'') w in
      if f = 0 then (io_error io fname w, None, w) else (OK, Some (PosixSequentialFile io fname f), w))"

definition NewUnSecureSequentialFile :: "'w stdio \<Rightarrow> slice \<Rightarrow> 'w \<Rightarrow> status \<times> 'w SequentialFile option \<times> 'w" where
  "NewUnSecureSequentialFile io fname w =
     (let (f, w) = ocall_fopen io fname (str ''r'') w in
      if f = 0 then (io_error io fname w, None, w) else (OK, Some (PosixUnSecureSequentialFile io fname f), w))"

definition NewWritableFile :: "'w stdio \<Rightarrow> slice \<Rightarrow> 'w \<Rightarrow> status \<times> 'w WritableFile option \<times> 'w" where
  "NewWritableFile io fname w =
     (let (f, w) = c_fopen io fname (str ''w'') w in
      if f = 0 then (io_error io fname w, None, w) else (OK, Some (PosixWritableFile io fname f), w))"

definition NewUnSecureWritableFile :: "'w stdio \<Rightarrow> slice \<Rightarrow> 'w \<Rightarrow> status \<times> 'w WritableFile option \<times> 'w" where
  "NewUnSecureWritableFile io fname w =
     (let (f, w) = ocall_fopen io fname (str ''w'') w in
      if f = 0 then (io_error io fname w, None, w) else (OK, Some (UnSecurePosixWritableFile io fname f), w))"

definition NewAppendableFile :: "'w stdio \<Rightarrow> slice \<Rightarrow> 'w \<Rightarrow> status \<times> 'w WritableFile option \<times> 'w" where
  "NewAppendableFile io fname w =
     (let (f, w) = c_fopen io fname (str ''a'') w in
      if f = 0 then (io_error io fname w, None, w) else (OK, Some (PosixWritableFile io fname f), w))"

definition NewUnSecureAppendableFile :: "'w stdio \<Rightarrow> slice \<Rightarrow> 'w \<Rightarrow> status \<times> 'w WritableFile option \<times> 'w" where
  "NewUnSecureAppendableFile io fname w =
     (let (f, w) = ocall_fopen io fname (str ''a'') w in
      if f = 0 then (io_error io fname w, None, w) else (OK, Some (UnSecurePosixWritableFile io fname f), w))"

definition FileExists :: "'w stdio \<Rightarrow> slice \<Rightarrow> 'w \<Rightarrow> bool" where
  "FileExists io fname w \<longleftrightarrow> \<not> (c_access io fname w \<noteq> 0)"

definition DeleteFile :: "'w stdio \<Rightarrow> slice \<Rightarrow> 'w \<Rightarrow> status \<times> 'w" where
  "DeleteFile io fname w = (OK, c_unlink io fname w)"

definition CreateDir :: "'w stdio \<Rightarrow> slice \<Rightarrow> 'w \<Rightarrow> status \<times> 'w" where
  "CreateDir io name w = (OK, c_mkdir io name w)"

definition GetFileSize :: "'w stdio \<Rightarrow> slice \<Rightarrow> 'w \<Rightarrow> status \<times> u64" where
  "GetFileSize io fname w = (OK, c_filesize io fname w)"

definition RenameFile :: "'w stdio \<Rightarrow> slice \<Rightarrow> slice \<Rightarrow> 'w \<Rightarrow> status \<times> 'w" where
  "RenameFile io src target w = (OK, c_rename io src target w)"

text \<open>The body of \<open>LockFile\<close> is commented out: the lock stays \<open>NULL\<close> and the status is OK.\<close>

definition LockFile :: "slice \<Rightarrow> status \<times> nat option" where
  "LockFile fname = (OK, None)"

definition DoWriteStringToFile :: "'w stdio \<Rightarrow> slice \<Rightarrow> slice \<Rightarrow> bool \<Rightarrow> 'w \<Rightarrow> status \<times> 'w" where
  "DoWriteStringToFile io data fname should_sync w =
     (case NewUnSecureWritableFile io fname w of
        (s, None, w) \<Rightarrow> (s, w)
      | (s, Some out, w) \<Rightarrow>
          (let (s, w) = wf_Append out data w;
               (s, w) = (if ok s \<and> should_sync then wf_Sync out w else (s, w));
               (s, w) = (if ok s then wf_Close out w else (s, wf_Drop out w))
           in if \<not> ok s then (s, snd (DeleteFile io fname w)) else (s, w)))"

partial_function (option) ReadFile_loop :: "'w SequentialFile \<Rightarrow> slice \<Rightarrow> 'w \<Rightarrow> (status \<times> slice \<times> 'w) option" where
  "ReadFile_loop src data w =
     (case sf_Read src 8192 w of
        (s, fragment, w) \<Rightarrow>
          if \<not> ok s then Some (s, data, w)
          else if fragment = [] then Some (s, data @ fragment, w)
          else ReadFile_loop src (data @ fragment) w)"

definition ReadFileToString :: "'w stdio \<Rightarrow> slice \<Rightarrow> 'w \<Rightarrow> (status \<times> slice \<times> 'w) option" where
  "ReadFileToString io fname w =
     (case NewUnSecureSequentialFile io fname w of
        (s, None, w) \<Rightarrow> Some (s, [], w)
      | (s, Some src, w) \<Rightarrow>
          (case ReadFile_loop src [] w of None \<Rightarrow> None | Some (s, data, w) \<Rightarrow> Some (s, data, sf_Drop src w)))"

section \<open>Limiter and lock table\<close>

definition Limiter_Acquire :: "int \<Rightarrow> bool \<times> int" where
  "Limiter_Acquire allowed = (if allowed \<le> 0 then (False, allowed) else (True, allowed - 1))"

definition Limiter_Release :: "int \<Rightarrow> int" where
  "Limiter_Release allowed = allowed + 1"

definition LockTable_Insert :: "slice \<Rightarrow> slice set \<Rightarrow> bool \<times> slice set" where
  "LockTable_Insert fname locked = (fname \<notin> locked, insert fname locked)"

definition LockTable_Remove :: "slice \<Rightarrow> slice set \<Rightarrow> slice set" where
  "LockTable_Remove fname locked = locked - {fname}"

section \<open>Background work\<close>

text \<open>
  \<open>Schedule\<close> and one round of the loop of \<open>BGThread\<close>, each under the mutex. \<open>bg_done\<close> records the
  items the thread has taken out and called.
\<close>

record 'a BGState =
  bg_started :: bool
  bg_queue :: "'a list"
  bg_done :: "'a list"

definition Schedule :: "'a \<Rightarrow> 'a BGState \<Rightarrow> 'a BGState" where
  "Schedule item st = st\<lparr>bg_started := True, bg_queue := bg_queue st @ [item]\<rparr>"

definition BGThread_round :: "'a BGState \<Rightarrow> 'a BGState option" where
  "BGThread_round st =
     (case bg_queue st of
        [] \<Rightarrow> None
      | item # rest \<Rightarrow> Some (st\<lparr>bg_queue := rest, bg_done := bg_done st @ [item]\<rparr>))"

inductive bg_step :: "'a BGState \<Rightarrow> 'a option \<Rightarrow> 'a BGState \<Rightarrow> bool" where
  schedule: "bg_step st (Some item) (Schedule item st)"
| run: "bg_started st \<Longrightarrow> BGThread_round st = Some st' \<Longrightarrow> bg_step st None st'"

inductive bg_run :: "'a BGState \<Rightarrow> 'a list \<Rightarrow> 'a BGState \<Rightarrow> bool" where
  start: "bg_run \<lparr>bg_started = False, bg_queue = [], bg_done = []\<rparr> [] \<lparr>bg_started = False, bg_queue = [], bg_done = []\<rparr>"
| scheduled: "bg_run st0 items st \<Longrightarrow> bg_step st (Some item) st' \<Longrightarrow> bg_run st0 (items @ [item]) st'"
| ran: "bg_run st0 items st \<Longrightarrow> bg_step st None st' \<Longrightarrow> bg_run st0 items st'"

inductive_cases bg_step_SomeE: "bg_step st (Some item) st'"
inductive_cases bg_step_NoneE: "bg_step st None st'"

section \<open>Interfaces\<close>

locale writable_file =
  fixes wf :: "'w WritableFile" and live :: "'w \<Rightarrow> bool" and contents :: "'w \<Rightarrow> slice"
  assumes append_law: "live w \<Longrightarrow> wf_Append wf d w = (s, w') \<Longrightarrow> ok s \<Longrightarrow> live w' \<and> contents w' = contents w @ d"
    and flush_law: "live w \<Longrightarrow> wf_Flush wf w = (s, w') \<Longrightarrow> ok s \<Longrightarrow> live w' \<and> contents w' = contents w"

locale sequential_file =
  fixes sf :: "'w SequentialFile" and rest :: "'w \<Rightarrow> slice"
  assumes read_law: "n < 2 ^ 31 \<Longrightarrow> sf_Read sf n w = (s, d, w') \<Longrightarrow> ok s \<Longrightarrow> d = take n (rest w) \<and> rest w' = drop n (rest w)"

text \<open>
  The documented behaviour of the library: \<open>files\<close> gives the contents of named files, \<open>hname\<close> the file
  a handle writes to and \<open>rest\<close> what is still to be read through a handle.
\<close>

locale stdio_laws =
  fixes io :: "'w stdio" and files :: "'w \<Rightarrow> slice \<Rightarrow> slice option"
    and hname :: "'w \<Rightarrow> nat \<Rightarrow> slice option" and rest :: "nat \<Rightarrow> 'w \<Rightarrow> slice"
  assumes open_write: "c_fopen io f (str ''w'') w = (h, w') \<Longrightarrow> h \<noteq> 0 \<Longrightarrow>
      hname w' h = Some f \<and> files w' f = Some []"
    and write_count: "c_fwrite io h d w = (cnt, w') \<Longrightarrow> cnt \<le> length d"
    and write_all: "c_fwrite io h d w = (length d, w') \<Longrightarrow> hname w h = Some f \<Longrightarrow> files w f = Some c \<Longrightarrow>
      hname w' h = Some f \<and> files w' f = Some (c @ d)"
    and flush_keeps: "c_fflush io h w = (r, w') \<Longrightarrow> files w' = files w \<and> hname w' = hname w"
    and close_keeps: "c_fclose io h w = (r, w') \<Longrightarrow> files w' = files w"
    and open_read: "c_fopen io f (str ''r'') w = (h, w') \<Longrightarrow> h \<noteq> 0 \<Longrightarrow> files w f = Some (rest h w')"
    and read_prefix: "c_fread io h n w = (d, w') \<Longrightarrow> \<exists>m \<le> n. d = take m (rest h w) \<and> rest h w' = drop m (rest h w)"
    and eof_rest: "c_feof io h w \<Longrightarrow> rest h w = []"
    and seek_rest: "c_fseek io h k w = (0, w') \<Longrightarrow> 0 \<le> k \<Longrightarrow> rest h w' = drop (nat k) (rest h w)"
begin

text \<open>Both kinds of writable file of \<^verbatim>\<open>env_posix.cpp\<close> append what they are given.\<close>

definition live :: "nat \<Rightarrow> slice \<Rightarrow> 'w \<Rightarrow> bool" where
  "live h f w \<longleftrightarrow> hname w h = Some f \<and> files w f \<noteq> None"

definition contents :: "slice \<Rightarrow> 'w \<Rightarrow> slice" where
  "contents f w = the (files w f)"

lemma append_live:
  assumes "live h f w" and "c_fwrite io h d w = (length d, w')"
  shows "live h f w' \<and> contents f w' = contents f w @ d"
  using assms write_all [OF assms(2), of f "contents f w"] by (auto simp: live_def contents_def)

lemma flush_live:
  assumes "live h f w" and "c_fflush io h w = (r, w')"
  shows "live h f w' \<and> contents f w' = contents f w"
  using assms flush_keeps [OF assms(2)] by (simp add: live_def contents_def)

end

section \<open>The file classes meet the interfaces\<close>

lemma as_int_small [simp]:
  assumes "n < 2 ^ 31"
  shows "as_int n = int n"
proof -
  have "uint (word_of_nat n :: u32) = int n"
    using assms by (simp add: uint_nat unat_word_of_nat_small)
  then show ?thesis
    using assms by (simp add: as_int_def sint_uint signed_take_bit_int_eq_self)
qed

lemma as_int_eqD:
  assumes "as_int r = int n" and "r \<le> n"
  shows "r = n"
proof -
  have "as_int r < 2 ^ 31"
    using sint_lt [of "word_of_nat r :: u32"] by (simp add: as_int_def)
  then have "n < 2 ^ 31"
    unfolding assms(1) by simp
  with assms(2) have "r < 2 ^ 31"
    by (rule le_less_trans)
  with assms show ?thesis
    by simp
qed

lemma Posix_Flush_ok: "Posix_Flush io f h w = (s, w') \<Longrightarrow> ok s \<Longrightarrow> c_fflush io h w = (0, w')"
  by (auto simp: Posix_Flush_def io_error_def split: prod.splits if_splits)

sublocale stdio_laws \<subseteq> secure_wf: writable_file "PosixWritableFile io fname h" "live h f" "contents f" for fname h f
proof
  fix w d s w'
  assume l: "live h f w"
  show "wf_Append (PosixWritableFile io fname h) d w = (s, w') \<Longrightarrow> ok s \<Longrightarrow> live h f w' \<and> contents f w' = contents f w @ d"
    using append_live [OF l] by (auto simp: PosixWritableFile_def io_error_def split: prod.splits if_splits)
  show "wf_Flush (PosixWritableFile io fname h) w = (s, w') \<Longrightarrow> ok s \<Longrightarrow> live h f w' \<and> contents f w' = contents f w"
    using flush_live [OF l] Posix_Flush_ok [of io fname h w s w'] by (simp add: PosixWritableFile_def)
qed

lemma UnSecure_Append_ok:
  assumes "wf_Append (UnSecurePosixWritableFile io fname h) d w = (s, w')" and "ok s"
    and count: "\<And>d cnt w'. c_fwrite io h d w = (cnt, w') \<Longrightarrow> cnt \<le> length d"
  shows "c_fwrite io h d w = (length d, w')"
proof -
  obtain r where r: "ocall_fwrite io d (as_int (length d)) h w = (int (length d), w')"
    using assms(1,2) by (auto simp: UnSecurePosixWritableFile_def io_error_def split: prod.splits if_splits)
  show ?thesis
  proof (cases "as_int (length d) < 0")
    case True
    with r have "length d = 0"
      by (simp add: ocall_fwrite_def)
    with True show ?thesis
      by (simp add: as_int_def)
  next
    case False
    obtain cnt where cnt: "c_fwrite io h (take (nat (as_int (length d))) d) w = (cnt, w')" "as_int cnt = int (length d)"
      using r False by (auto simp: ocall_fwrite_def split: prod.splits)
    have le: "cnt \<le> length (take (nat (as_int (length d))) d)"
      by (rule count [OF cnt(1)])
    then have "cnt = length d"
      using cnt(2) by (intro as_int_eqD) simp_all
    moreover from this le have "take (nat (as_int (length d))) d = d"
      by simp
    ultimately show ?thesis
      using cnt(1) by simp
  qed
qed

sublocale stdio_laws \<subseteq> unsecure_wf: writable_file "UnSecurePosixWritableFile io fname h" "live h f" "contents f" for fname h f
proof
  fix w d s w'
  assume l: "live h f w"
  show "wf_Append (UnSecurePosixWritableFile io fname h) d w = (s, w') \<Longrightarrow> ok s \<Longrightarrow> live h f w' \<and> contents f w' = contents f w @ d"
    using append_live [OF l] UnSecure_Append_ok [of io fname h d w s w'] write_count [of h _ w] by blast
  show "wf_Flush (UnSecurePosixWritableFile io fname h) w = (s, w') \<Longrightarrow> ok s \<Longrightarrow> live h f w' \<and> contents f w' = contents f w"
    using flush_live [OF l] Posix_Flush_ok [of io fname h w s w'] by (simp add: UnSecurePosixWritableFile_def)
qed

context stdio_laws
begin

lemma read_full:
  assumes "c_fread io h n w = (d, w')" and "length d < n \<Longrightarrow> c_feof io h w'"
  shows "d = take n (rest h w) \<and> rest h w' = drop n (rest h w)"
proof -
  obtain m where m: "m \<le> n" "d = take m (rest h w)" "rest h w' = drop m (rest h w)"
    using read_prefix [OF assms(1)] by blast
  show ?thesis
  proof (cases "length d < n")
    case True
    then have "rest h w' = []"
      by (intro eof_rest assms)
    with m True show ?thesis
      by simp
  next
    case False
    with m have "m = n"
      by simp
    with m show ?thesis
      by simp
  qed
qed

lemma Posix_Read_law:
  "Posix_Read io fname h n w = (s, d, w') \<Longrightarrow> ok s \<Longrightarrow> d = take n (rest h w) \<and> rest h w' = drop n (rest h w)"
  using read_full [of h n w d w'] by (auto simp: Posix_Read_def io_error_def split: prod.splits if_splits)

lemma UnSecure_Read_eq: "n < 2 ^ 31 \<Longrightarrow> UnSecure_Read io fname h n w = Posix_Read io fname h n w"
  by (simp add: UnSecure_Read_def Posix_Read_def ocall_fread_def)

end

sublocale stdio_laws \<subseteq> secure_sf: sequential_file "PosixSequentialFile io fname h" "rest h" for fname h
  by unfold_locales (simp add: PosixSequentialFile_def Posix_Read_law)

sublocale stdio_laws \<subseteq> unsecure_sf: sequential_file "PosixUnSecureSequentialFile io fname h" "rest h" for fname h
  by unfold_locales (simp add: PosixUnSecureSequentialFile_def UnSecure_Read_eq Posix_Read_law)

section \<open>Whole files\<close>

context sequential_file
begin

lemma ReadFile_loop_returns:
  "\<exists>s data w'. ReadFile_loop sf acc w = Some (s, data, w') \<and> (ok s \<longrightarrow> data = acc @ rest w)"
proof (induction "length (rest w)" arbitrary: acc w rule: less_induct)
  case less
  obtain s d w' where r: "sf_Read sf 8192 w = (s, d, w')"
    by (cases "sf_Read sf 8192 w") auto
  show ?case
  proof (cases "ok s \<and> d \<noteq> []")
    case True
    with read_law [OF _ r] have d: "d = take 8192 (rest w)" "rest w' = drop 8192 (rest w)"
      by simp_all
    with True have "length (rest w') < length (rest w)"
      by (cases "rest w") auto
    from less [OF this, of "acc @ d"] show ?thesis
      using True r d by (subst ReadFile_loop.simps) (auto simp: append_take_drop_id)
  next
    case False
    have "ok s \<Longrightarrow> rest w = []"
      using read_law [OF _ r] False by (cases "rest w") auto
    then show ?thesis
      using False r by (subst ReadFile_loop.simps) auto
  qed
qed

end

section \<open>An in-memory file system\<close>

record mem_world =
  mw_files :: "slice \<Rightarrow> slice option"
  mw_handles :: "nat \<Rightarrow> (slice \<times> nat) option"
  mw_next :: nat

definition mem_rest :: "nat \<Rightarrow> mem_world \<Rightarrow> slice" where
  "mem_rest h w = (case mw_handles w h of None \<Rightarrow> [] | Some (f, p) \<Rightarrow> (case mw_files w f of None \<Rightarrow> [] | Some c \<Rightarrow> drop p c))"

definition mem_open :: "slice \<Rightarrow> mem_world \<Rightarrow> nat \<times> mem_world" where
  "mem_open f w = (Suc (mw_next w), w\<lparr>mw_handles := (mw_handles w)(Suc (mw_next w) \<mapsto> (f, 0)), mw_next := Suc (mw_next w)\<rparr>)"

definition mem_advance :: "nat \<Rightarrow> nat \<Rightarrow> mem_world \<Rightarrow> mem_world" where
  "mem_advance h n w = (case mw_handles w h of None \<Rightarrow> w | Some (f, p) \<Rightarrow> w\<lparr>mw_handles := (mw_handles w)(h \<mapsto> (f, p + n))\<rparr>)"

definition mem_fopen :: "slice \<Rightarrow> slice \<Rightarrow> mem_world \<Rightarrow> nat \<times> mem_world" where
  "mem_fopen f mode w =
     (if mode = str ''r'' then if mw_files w f = None then (0, w) else mem_open f w
      else if mode = str ''w'' then mem_open f (w\<lparr>mw_files := (mw_files w)(f \<mapsto> [])\<rparr>)
      else if mw_files w f = None then mem_open f (w\<lparr>mw_files := (mw_files w)(f \<mapsto> [])\<rparr>)
      else mem_open f w)"

definition mem_fwrite :: "nat \<Rightarrow> slice \<Rightarrow> mem_world \<Rightarrow> nat \<times> mem_world" where
  "mem_fwrite h d w = (case mw_handles w h of None \<Rightarrow> (0, w)
     | Some (f, _) \<Rightarrow> (case mw_files w f of None \<Rightarrow> (0, w)
         | Some c \<Rightarrow> (length d, w\<lparr>mw_files := (mw_files w)(f \<mapsto> c @ d)\<rparr>)))"

definition mem_io :: "mem_world stdio" where
  "mem_io =
     \<lparr>c_fopen = mem_fopen,
      c_fclose = (\<lambda>h w. (0, w\<lparr>mw_handles := (mw_handles w)(h := None)\<rparr>)),
      c_fread = (\<lambda>h n w. (take n (mem_rest h w), mem_advance h n w)),
      c_feof = (\<lambda>h w. mem_rest h w = []),
      c_fseek = (\<lambda>h k w. if k < 0 then (1, w) else (0, mem_advance h (nat k) w)),
      c_fwrite = mem_fwrite,
      c_fflush = (\<lambda>h w. (0, w)),
      c_unlink = (\<lambda>f w. w\<lparr>mw_files := (mw_files w)(f := None)\<rparr>),
      c_rename = (\<lambda>f g w. w\<lparr>mw_files := (mw_files w)(g := mw_files w f, f := None)\<rparr>),
      c_mkdir = (\<lambda>f w. w),
      c_access = (\<lambda>f w. if mw_files w f = None then 1 else 0),
      c_filesize = (\<lambda>f w. case mw_files w f of None \<Rightarrow> 0 | Some c \<Rightarrow> word_of_nat (length c)),
      c_strerror = (\<lambda>w. str ''error'')\<rparr>"

lemma mem_rest_advance: "mem_rest h (mem_advance h n w) = drop n (mem_rest h w)"
  by (auto simp: mem_rest_def mem_advance_def add.commute split: option.splits)

interpretation mem: stdio_laws mem_io mw_files "\<lambda>w h. map_option fst (mw_handles w h)" mem_rest
proof
  fix f c d :: slice and w w' :: mem_world and h cnt n :: nat and k r :: int
  show "c_fopen mem_io f (str ''w'') w = (h, w') \<Longrightarrow> h \<noteq> 0 \<Longrightarrow>
      map_option fst (mw_handles w' h) = Some f \<and> mw_files w' f = Some []"
    by (auto simp: mem_io_def mem_fopen_def mem_open_def str_def)
  show "c_fwrite mem_io h d w = (cnt, w') \<Longrightarrow> cnt \<le> length d"
    by (auto simp: mem_io_def mem_fwrite_def split: option.splits)
  show "c_fwrite mem_io h d w = (length d, w') \<Longrightarrow> map_option fst (mw_handles w h) = Some f \<Longrightarrow> mw_files w f = Some c \<Longrightarrow>
      map_option fst (mw_handles w' h) = Some f \<and> mw_files w' f = Some (c @ d)"
    by (auto simp: mem_io_def mem_fwrite_def split: option.splits)
  show "c_fopen mem_io f (str ''r'') w = (h, w') \<Longrightarrow> h \<noteq> 0 \<Longrightarrow> mw_files w f = Some (mem_rest h w')"
    by (auto simp: mem_io_def mem_fopen_def mem_open_def mem_rest_def split: if_splits)
  show "c_fread mem_io h n w = (d, w') \<Longrightarrow> \<exists>m\<le>n. d = take m (mem_rest h w) \<and> mem_rest h w' = drop m (mem_rest h w)"
    by (auto simp: mem_io_def mem_rest_advance)
  show "c_fseek mem_io h k w = (0, w') \<Longrightarrow> 0 \<le> k \<Longrightarrow> mem_rest h w' = drop (nat k) (mem_rest h w)"
    by (auto simp: mem_io_def mem_rest_advance)
qed (auto simp: mem_io_def)

section \<open>Properties\<close>

context stdio_laws
begin

lemma DoWriteStringToFile_contents:
  assumes "DoWriteStringToFile io data fname sync w = (s, w')" and "ok s"
  shows "files w' fname = Some data"
proof -
  obtain s0 out w0 where out: "NewUnSecureWritableFile io fname w = (s0, out, w0)"
    by (cases "NewUnSecureWritableFile io fname w") auto
  with assms have "out \<noteq> None"
    by (auto simp: DoWriteStringToFile_def NewUnSecureWritableFile_def io_error_def Let_def split: prod.splits if_splits)
  with out obtain h where h: "ocall_fopen io fname (str ''w'') w = (h, w0)" "h \<noteq> 0"
    "out = Some (UnSecurePosixWritableFile io fname h)"
    by (auto simp: NewUnSecureWritableFile_def split: prod.splits if_splits)
  let ?f = "UnSecurePosixWritableFile io fname h"
  have live: "live h fname w0" "contents fname w0 = []"
    using open_write [of fname w h w0] h by (simp_all add: live_def contents_def ocall_fopen_def)
  obtain s1 w1 where app: "wf_Append ?f data w0 = (s1, w1)"
    by (cases "wf_Append ?f data w0") auto
  have "ok s1"
    using assms out h app by (auto simp: DoWriteStringToFile_def Let_def split: prod.splits if_splits)
  with unsecure_wf.append_law [OF live(1) app] live(2) have l1: "live h fname w1" "contents fname w1 = data"
    by simp_all
  obtain s2 w2 where sy: "(if ok s1 \<and> sync then wf_Sync ?f w1 else (s1, w1)) = (s2, w2)"
    by (cases "if ok s1 \<and> sync then wf_Sync ?f w1 else (s1, w1)") auto
  have f2: "files w2 = files w1"
    using sy flush_keeps [of h w1] by (auto simp: UnSecurePosixWritableFile_def Posix_Sync_def Let_def split: prod.splits if_splits)
  have "wf_Close ?f w2 = (s, w')"
    using assms out h app sy by (auto simp: DoWriteStringToFile_def Let_def split: prod.splits if_splits)
  then have "files w' = files w2"
    using close_keeps [of h w2] by (auto simp: UnSecurePosixWritableFile_def Posix_Close_def split: prod.splits if_splits)
  with f2 l1 show ?thesis
    by (auto simp: live_def contents_def)
qed

lemma ReadFileToString_contents:
  "\<exists>s data w'. ReadFileToString io fname w = Some (s, data, w') \<and> (ok s \<longrightarrow> files w fname = Some data)"
proof -
  obtain h w0 where h: "ocall_fopen io fname (str ''r'') w = (h, w0)"
    by (cases "ocall_fopen io fname (str ''r'') w") auto
  show ?thesis
  proof (cases "h = 0")
    case True
    with h show ?thesis
      by (simp add: ReadFileToString_def NewUnSecureSequentialFile_def io_error_def)
  next
    case False
    obtain s data w' where
      "ReadFile_loop (PosixUnSecureSequentialFile io fname h) [] w0 = Some (s, data, w')" "ok s \<longrightarrow> data = [] @ rest h w0"
      using unsecure_sf.ReadFile_loop_returns by blast
    moreover have "files w fname = Some (rest h w0)"
      using open_read [of fname w h w0] h False by (simp add: ocall_fopen_def)
    ultimately show ?thesis
      using h False by (auto simp: ReadFileToString_def NewUnSecureSequentialFile_def)
  qed
qed

lemma UnSecure_random_read:
  assumes "ocall_fopen io fname (str ''r'') w = (h, w1)" and "h \<noteq> 0"
    and "ocall_fseek io h offset w1 = (0, w2)" and "unat offset < 2 ^ 31" and "n < 2 ^ 31"
    and "UnSecurePosixRandomAccessFile_Read io fname offset n w = (s, d, w')"
  shows "ok s \<and> (\<exists>m \<le> n. d = take m (drop (unat offset) (the (files w fname))))"
proof -
  obtain w3 where rd: "c_fread io h n w2 = (d, w3)"
    using assms by (auto simp: UnSecurePosixRandomAccessFile_Read_def ocall_fread_def split: prod.splits)
  have off: "sint (ucast offset :: u32) = int (unat offset)"
    using as_int_small [OF assms(4)] by (simp add: as_int_def)
  have "files w fname = Some (rest h w1)"
    using open_read assms(1,2) by (simp add: ocall_fopen_def)
  moreover have "rest h w2 = drop (unat offset) (rest h w1)"
    using seek_rest [of h "int (unat offset)" w1 w2] assms(3) by (simp add: ocall_fseek_def off)
  ultimately show ?thesis
    using read_prefix [OF rd] assms by (auto simp: UnSecurePosixRandomAccessFile_Read_def split: prod.splits)
qed

end

lemma bg_run_invariant:
  "bg_run st0 items st \<Longrightarrow> bg_done st @ bg_queue st = items \<and> (bg_queue st \<noteq> [] \<longrightarrow> bg_started st)"
proof (induction rule: bg_run.induct)
  case (scheduled st0 items st item st')
  then show ?case
    by (auto elim!: bg_step_SomeE simp: Schedule_def)
next
  case (ran st0 items st st')
  then show ?case
    by (auto elim!: bg_step_NoneE simp: BGThread_round_def split: list.splits)
qed simp

lemma bg_run_drains:
  "bg_run st0 items st \<Longrightarrow> \<exists>st'. bg_run st0 items st' \<and> bg_queue st' = []"
proof (induction "length (bg_queue st)" arbitrary: st)
  case (Suc n)
  then obtain item q where q: "bg_queue st = item # q"
    by (cases "bg_queue st") auto
  define st' where "st' = st\<lparr>bg_queue := q, bg_done := bg_done st @ [item]\<rparr>"
  have "bg_step st None st'"
    using bg_run_invariant [OF Suc.prems] q by (intro bg_step.run) (simp_all add: BGThread_round_def st'_def)
  with Suc.prems have "bg_run st0 items st'"
    by (rule bg_run.ran)
  with Suc.hyps(1) [of st'] Suc.hyps(2) q show ?case
    by (simp add: st'_def)
qed auto


definition mem_empty :: mem_world where
  "mem_empty = \<lparr>mw_files = (\<lambda>f. None), mw_handles = (\<lambda>h. None), mw_next = 0\<rparr>"

definition mem_written :: "status \<times> mem_world" where
  "mem_written = DoWriteStringToFile mem_io [1, 2, 3] (str ''CURRENT'') True mem_empty"

lemma mem_written_ok: "ok (fst mem_written)"
  by (simp add: mem_written_def DoWriteStringToFile_def NewUnSecureWritableFile_def ocall_fopen_def mem_io_def
      mem_fopen_def mem_open_def mem_empty_def str_def UnSecurePosixWritableFile_def ocall_fwrite_def mem_fwrite_def
      Posix_Sync_def SyncDirIfManifest_def Posix_Close_def)



definition bg_start :: "nat BGState" where
  "bg_start = \<lparr>bg_started = False, bg_queue = [], bg_done = []\<rparr>"

lemma bg_two_scheduled: "bg_run bg_start [3, 5] (Schedule 5 (Schedule 3 bg_start))"
  using bg_run.scheduled [OF bg_run.scheduled [OF bg_run.start bg_step.schedule] bg_step.schedule, of 3 5]
  by (simp add: bg_start_def)


end
