(* ===== verification/Crc32c.thy ===== *)
theory Crc32c
  imports Coding
begin

unbundle bit_operations_syntax

text \<open>
  \<^verbatim>\<open>util/crc32c.h\<close> and \<^verbatim>\<open>util/crc32c.cpp\<close>: the checksum of log records and table blocks. The four
  tables are those of the source. The table-driven \<open>Extend\<close>, which works through the buffer four bytes
  at a time from the first aligned address, is shown to compute the bit-by-bit division by the
  Castagnoli polynomial whatever the address of the buffer, and every change confined to four
  consecutive bytes is shown to change the checksum.
\<close>

section \<open>Model\<close>

definition table0 :: "u32 list" where
  "table0 = [
    0x00000000, 0xf26b8303, 0xe13b70f7, 0x1350f3f4, 0xc79a971f, 0x35f1141c, 0x26a1e7e8, 0xd4ca64eb,
    0x8ad958cf, 0x78b2dbcc, 0x6be22838, 0x9989ab3b, 0x4d43cfd0, 0xbf284cd3, 0xac78bf27, 0x5e133c24,
    0x105ec76f, 0xe235446c, 0xf165b798, 0x030e349b, 0xd7c45070, 0x25afd373, 0x36ff2087, 0xc494a384,
    0x9a879fa0, 0x68ec1ca3, 0x7bbcef57, 0x89d76c54, 0x5d1d08bf, 0xaf768bbc, 0xbc267848, 0x4e4dfb4b,
    0x20bd8ede, 0xd2d60ddd, 0xc186fe29, 0x33ed7d2a, 0xe72719c1, 0x154c9ac2, 0x061c6936, 0xf477ea35,
    0xaa64d611, 0x580f5512, 0x4b5fa6e6, 0xb93425e5, 0x6dfe410e, 0x9f95c20d, 0x8cc531f9, 0x7eaeb2fa,
    0x30e349b1, 0xc288cab2, 0xd1d83946, 0x23b3ba45, 0xf779deae, 0x05125dad, 0x1642ae59, 0xe4292d5a,
    0xba3a117e, 0x4851927d, 0x5b016189, 0xa96ae28a, 0x7da08661, 0x8fcb0562, 0x9c9bf696, 0x6ef07595,
    0x417b1dbc, 0xb3109ebf, 0xa0406d4b, 0x522bee48, 0x86e18aa3, 0x748a09a0, 0x67dafa54, 0x95b17957,
    0xcba24573, 0x39c9c670, 0x2a993584, 0xd8f2b687, 0x0c38d26c, 0xfe53516f, 0xed03a29b, 0x1f682198,
    0x5125dad3, 0xa34e59d0, 0xb01eaa24, 0x42752927, 0x96bf4dcc, 0x64d4cecf, 0x77843d3b, 0x85efbe38,
    0xdbfc821c, 0x2997011f, 0x3ac7f2eb, 0xc8ac71e8, 0x1c661503, 0xee0d9600, 0xfd5d65f4, 0x0f36e6f7,
    0x61c69362, 0x93ad1061, 0x80fde395, 0x72966096, 0xa65c047d, 0x5437877e, 0x4767748a, 0xb50cf789,
    0xeb1fcbad, 0x197448ae, 0x0a24bb5a, 0xf84f3859, 0x2c855cb2, 0xdeeedfb1, 0xcdbe2c45, 0x3fd5af46,
    0x7198540d, 0x83f3d70e, 0x90a324fa, 0x62c8a7f9, 0xb602c312, 0x44694011, 0x5739b3e5, 0xa55230e6,
    0xfb410cc2, 0x092a8fc1, 0x1a7a7c35, 0xe811ff36, 0x3cdb9bdd, 0xceb018de, 0xdde0eb2a, 0x2f8b6829,
    0x82f63b78, 0x709db87b, 0x63cd4b8f, 0x91a6c88c, 0x456cac67, 0xb7072f64, 0xa457dc90, 0x563c5f93,
    0x082f63b7, 0xfa44e0b4, 0xe9141340, 0x1b7f9043, 0xcfb5f4a8, 0x3dde77ab, 0x2e8e845f, 0xdce5075c,
    0x92a8fc17, 0x60c37f14, 0x73938ce0, 0x81f80fe3, 0x55326b08, 0xa759e80b, 0xb4091bff, 0x466298fc,
    0x1871a4d8, 0xea1a27db, 0xf94ad42f, 0x0b21572c, 0xdfeb33c7, 0x2d80b0c4, 0x3ed04330, 0xccbbc033,
    0xa24bb5a6, 0x502036a5, 0x4370c551, 0xb11b4652, 0x65d122b9, 0x97baa1ba, 0x84ea524e, 0x7681d14d,
    0x2892ed69, 0xdaf96e6a, 0xc9a99d9e, 0x3bc21e9d, 0xef087a76, 0x1d63f975, 0x0e330a81, 0xfc588982,
    0xb21572c9, 0x407ef1ca, 0x532e023e, 0xa145813d, 0x758fe5d6, 0x87e466d5, 0x94b49521, 0x66df1622,
    0x38cc2a06, 0xcaa7a905, 0xd9f75af1, 0x2b9cd9f2, 0xff56bd19, 0x0d3d3e1a, 0x1e6dcdee, 0xec064eed,
    0xc38d26c4, 0x31e6a5c7, 0x22b65633, 0xd0ddd530, 0x0417b1db, 0xf67c32d8, 0xe52cc12c, 0x1747422f,
    0x49547e0b, 0xbb3ffd08, 0xa86f0efc, 0x5a048dff, 0x8ecee914, 0x7ca56a17, 0x6ff599e3, 0x9d9e1ae0,
    0xd3d3e1ab, 0x21b862a8, 0x32e8915c, 0xc083125f, 0x144976b4, 0xe622f5b7, 0xf5720643, 0x07198540,
    0x590ab964, 0xab613a67, 0xb831c993, 0x4a5a4a90, 0x9e902e7b, 0x6cfbad78, 0x7fab5e8c, 0x8dc0dd8f,
    0xe330a81a, 0x115b2b19, 0x020bd8ed, 0xf0605bee, 0x24aa3f05, 0xd6c1bc06, 0xc5914ff2, 0x37faccf1,
    0x69e9f0d5, 0x9b8273d6, 0x88d28022, 0x7ab90321, 0xae7367ca, 0x5c18e4c9, 0x4f48173d, 0xbd23943e,
    0xf36e6f75, 0x0105ec76, 0x12551f82, 0xe03e9c81, 0x34f4f86a, 0xc69f7b69, 0xd5cf889d, 0x27a40b9e,
    0x79b737ba, 0x8bdcb4b9, 0x988c474d, 0x6ae7c44e, 0xbe2da0a5, 0x4c4623a6, 0x5f16d052, 0xad7d5351]"

definition table1 :: "u32 list" where
  "table1 = [
    0x00000000, 0x13a29877, 0x274530ee, 0x34e7a899, 0x4e8a61dc, 0x5d28f9ab, 0x69cf5132, 0x7a6dc945,
    0x9d14c3b8, 0x8eb65bcf, 0xba51f356, 0xa9f36b21, 0xd39ea264, 0xc03c3a13, 0xf4db928a, 0xe7790afd,
    0x3fc5f181, 0x2c6769f6, 0x1880c16f, 0x0b225918, 0x714f905d, 0x62ed082a, 0x560aa0b3, 0x45a838c4,
    0xa2d13239, 0xb173aa4e, 0x859402d7, 0x96369aa0, 0xec5b53e5, 0xfff9cb92, 0xcb1e630b, 0xd8bcfb7c,
    0x7f8be302, 0x6c297b75, 0x58ced3ec, 0x4b6c4b9b, 0x310182de, 0x22a31aa9, 0x1644b230, 0x05e62a47,
    0xe29f20ba, 0xf13db8cd, 0xc5da1054, 0xd6788823, 0xac154166, 0xbfb7d911, 0x8b507188, 0x98f2e9ff,
    0x404e1283, 0x53ec8af4, 0x670b226d, 0x74a9ba1a, 0x0ec4735f, 0x1d66eb28, 0x298143b1, 0x3a23dbc6,
    0xdd5ad13b, 0xcef8494c, 0xfa1fe1d5, 0xe9bd79a2, 0x93d0b0e7, 0x80722890, 0xb4958009, 0xa737187e,
    0xff17c604, 0xecb55e73, 0xd852f6ea, 0xcbf06e9d, 0xb19da7d8, 0xa23f3faf, 0x96d89736, 0x857a0f41,
    0x620305bc, 0x71a19dcb, 0x45463552, 0x56e4ad25, 0x2c896460, 0x3f2bfc17, 0x0bcc548e, 0x186eccf9,
    0xc0d23785, 0xd370aff2, 0xe797076b, 0xf4359f1c, 0x8e585659, 0x9dface2e, 0xa91d66b7, 0xbabffec0,
    0x5dc6f43d, 0x4e646c4a, 0x7a83c4d3, 0x69215ca4, 0x134c95e1, 0x00ee0d96, 0x3409a50f, 0x27ab3d78,
    0x809c2506, 0x933ebd71, 0xa7d915e8, 0xb47b8d9f, 0xce1644da, 0xddb4dcad, 0xe9537434, 0xfaf1ec43,
    0x1d88e6be, 0x0e2a7ec9, 0x3acdd650, 0x296f4e27, 0x53028762, 0x40a01f15, 0x7447b78c, 0x67e52ffb,
    0xbf59d487, 0xacfb4cf0, 0x981ce469, 0x8bbe7c1e, 0xf1d3b55b, 0xe2712d2c, 0xd69685b5, 0xc5341dc2,
    0x224d173f, 0x31ef8f48, 0x050827d1, 0x16aabfa6, 0x6cc776e3, 0x7f65ee94, 0x4b82460d, 0x5820de7a,
    0xfbc3faf9, 0xe861628e, 0xdc86ca17, 0xcf245260, 0xb5499b25, 0xa6eb0352, 0x920cabcb, 0x81ae33bc,
    0x66d73941, 0x7575a136, 0x419209af, 0x523091d8, 0x285d589d, 0x3bffc0ea, 0x0f186873, 0x1cbaf004,
    0xc4060b78, 0xd7a4930f, 0xe3433b96, 0xf0e1a3e1, 0x8a8c6aa4, 0x992ef2d3, 0xadc95a4a, 0xbe6bc23d,
    0x5912c8c0, 0x4ab050b7, 0x7e57f82e, 0x6df56059, 0x1798a91c, 0x043a316b, 0x30dd99f2, 0x237f0185,
    0x844819fb, 0x97ea818c, 0xa30d2915, 0xb0afb162, 0xcac27827, 0xd960e050, 0xed8748c9, 0xfe25d0be,
    0x195cda43, 0x0afe4234, 0x3e19eaad, 0x2dbb72da, 0x57d6bb9f, 0x447423e8, 0x70938b71, 0x63311306,
    0xbb8de87a, 0xa82f700d, 0x9cc8d894, 0x8f6a40e3, 0xf50789a6, 0xe6a511d1, 0xd242b948, 0xc1e0213f,
    0x26992bc2, 0x353bb3b5, 0x01dc1b2c, 0x127e835b, 0x68134a1e, 0x7bb1d269, 0x4f567af0, 0x5cf4e287,
    0x04d43cfd, 0x1776a48a, 0x23910c13, 0x30339464, 0x4a5e5d21, 0x59fcc556, 0x6d1b6dcf, 0x7eb9f5b8,
    0x99c0ff45, 0x8a626732, 0xbe85cfab, 0xad2757dc, 0xd74a9e99, 0xc4e806ee, 0xf00fae77, 0xe3ad3600,
    0x3b11cd7c, 0x28b3550b, 0x1c54fd92, 0x0ff665e5, 0x759baca0, 0x663934d7, 0x52de9c4e, 0x417c0439,
    0xa6050ec4, 0xb5a796b3, 0x81403e2a, 0x92e2a65d, 0xe88f6f18, 0xfb2df76f, 0xcfca5ff6, 0xdc68c781,
    0x7b5fdfff, 0x68fd4788, 0x5c1aef11, 0x4fb87766, 0x35d5be23, 0x26772654, 0x12908ecd, 0x013216ba,
    0xe64b1c47, 0xf5e98430, 0xc10e2ca9, 0xd2acb4de, 0xa8c17d9b, 0xbb63e5ec, 0x8f844d75, 0x9c26d502,
    0x449a2e7e, 0x5738b609, 0x63df1e90, 0x707d86e7, 0x0a104fa2, 0x19b2d7d5, 0x2d557f4c, 0x3ef7e73b,
    0xd98eedc6, 0xca2c75b1, 0xfecbdd28, 0xed69455f, 0x97048c1a, 0x84a6146d, 0xb041bcf4, 0xa3e32483]"

definition table2 :: "u32 list" where
  "table2 = [
    0x00000000, 0xa541927e, 0x4f6f520d, 0xea2ec073, 0x9edea41a, 0x3b9f3664, 0xd1b1f617, 0x74f06469,
    0x38513ec5, 0x9d10acbb, 0x773e6cc8, 0xd27ffeb6, 0xa68f9adf, 0x03ce08a1, 0xe9e0c8d2, 0x4ca15aac,
    0x70a27d8a, 0xd5e3eff4, 0x3fcd2f87, 0x9a8cbdf9, 0xee7cd990, 0x4b3d4bee, 0xa1138b9d, 0x045219e3,
    0x48f3434f, 0xedb2d131, 0x079c1142, 0xa2dd833c, 0xd62de755, 0x736c752b, 0x9942b558, 0x3c032726,
    0xe144fb14, 0x4405696a, 0xae2ba919, 0x0b6a3b67, 0x7f9a5f0e, 0xdadbcd70, 0x30f50d03, 0x95b49f7d,
    0xd915c5d1, 0x7c5457af, 0x967a97dc, 0x333b05a2, 0x47cb61cb, 0xe28af3b5, 0x08a433c6, 0xade5a1b8,
    0x91e6869e, 0x34a714e0, 0xde89d493, 0x7bc846ed, 0x0f382284, 0xaa79b0fa, 0x40577089, 0xe516e2f7,
    0xa9b7b85b, 0x0cf62a25, 0xe6d8ea56, 0x43997828, 0x37691c41, 0x92288e3f, 0x78064e4c, 0xdd47dc32,
    0xc76580d9, 0x622412a7, 0x880ad2d4, 0x2d4b40aa, 0x59bb24c3, 0xfcfab6bd, 0x16d476ce, 0xb395e4b0,
    0xff34be1c, 0x5a752c62, 0xb05bec11, 0x151a7e6f, 0x61ea1a06, 0xc4ab8878, 0x2e85480b, 0x8bc4da75,
    0xb7c7fd53, 0x12866f2d, 0xf8a8af5e, 0x5de93d20, 0x29195949, 0x8c58cb37, 0x66760b44, 0xc337993a,
    0x8f96c396, 0x2ad751e8, 0xc0f9919b, 0x65b803e5, 0x1148678c, 0xb409f5f2, 0x5e273581, 0xfb66a7ff,
    0x26217bcd, 0x8360e9b3, 0x694e29c0, 0xcc0fbbbe, 0xb8ffdfd7, 0x1dbe4da9, 0xf7908dda, 0x52d11fa4,
    0x1e704508, 0xbb31d776, 0x511f1705, 0xf45e857b, 0x80aee112, 0x25ef736c, 0xcfc1b31f, 0x6a802161,
    0x56830647, 0xf3c29439, 0x19ec544a, 0xbcadc634, 0xc85da25d, 0x6d1c3023, 0x8732f050, 0x2273622e,
    0x6ed23882, 0xcb93aafc, 0x21bd6a8f, 0x84fcf8f1, 0xf00c9c98, 0x554d0ee6, 0xbf63ce95, 0x1a225ceb,
    0x8b277743, 0x2e66e53d, 0xc448254e, 0x6109b730, 0x15f9d359, 0xb0b84127, 0x5a968154, 0xffd7132a,
    0xb3764986, 0x1637dbf8, 0xfc191b8b, 0x595889f5, 0x2da8ed9c, 0x88e97fe2, 0x62c7bf91, 0xc7862def,
    0xfb850ac9, 0x5ec498b7, 0xb4ea58c4, 0x11abcaba, 0x655baed3, 0xc01a3cad, 0x2a34fcde, 0x8f756ea0,
    0xc3d4340c, 0x6695a672, 0x8cbb6601, 0x29faf47f, 0x5d0a9016, 0xf84b0268, 0x1265c21b, 0xb7245065,
    0x6a638c57, 0xcf221e29, 0x250cde5a, 0x804d4c24, 0xf4bd284d, 0x51fcba33, 0xbbd27a40, 0x1e93e83e,
    0x5232b292, 0xf77320ec, 0x1d5de09f, 0xb81c72e1, 0xccec1688, 0x69ad84f6, 0x83834485, 0x26c2d6fb,
    0x1ac1f1dd, 0xbf8063a3, 0x55aea3d0, 0xf0ef31ae, 0x841f55c7, 0x215ec7b9, 0xcb7007ca, 0x6e3195b4,
    0x2290cf18, 0x87d15d66, 0x6dff9d15, 0xc8be0f6b, 0xbc4e6b02, 0x190ff97c, 0xf321390f, 0x5660ab71,
    0x4c42f79a, 0xe90365e4, 0x032da597, 0xa66c37e9, 0xd29c5380, 0x77ddc1fe, 0x9df3018d, 0x38b293f3,
    0x7413c95f, 0xd1525b21, 0x3b7c9b52, 0x9e3d092c, 0xeacd6d45, 0x4f8cff3b, 0xa5a23f48, 0x00e3ad36,
    0x3ce08a10, 0x99a1186e, 0x738fd81d, 0xd6ce4a63, 0xa23e2e0a, 0x077fbc74, 0xed517c07, 0x4810ee79,
    0x04b1b4d5, 0xa1f026ab, 0x4bdee6d8, 0xee9f74a6, 0x9a6f10cf, 0x3f2e82b1, 0xd50042c2, 0x7041d0bc,
    0xad060c8e, 0x08479ef0, 0xe2695e83, 0x4728ccfd, 0x33d8a894, 0x96993aea, 0x7cb7fa99, 0xd9f668e7,
    0x9557324b, 0x3016a035, 0xda386046, 0x7f79f238, 0x0b899651, 0xaec8042f, 0x44e6c45c, 0xe1a75622,
    0xdda47104, 0x78e5e37a, 0x92cb2309, 0x378ab177, 0x437ad51e, 0xe63b4760, 0x0c158713, 0xa954156d,
    0xe5f54fc1, 0x40b4ddbf, 0xaa9a1dcc, 0x0fdb8fb2, 0x7b2bebdb, 0xde6a79a5, 0x3444b9d6, 0x91052ba8]"

definition table3 :: "u32 list" where
  "table3 = [
    0x00000000, 0xdd45aab8, 0xbf672381, 0x62228939, 0x7b2231f3, 0xa6679b4b, 0xc4451272, 0x1900b8ca,
    0xf64463e6, 0x2b01c95e, 0x49234067, 0x9466eadf, 0x8d665215, 0x5023f8ad, 0x32017194, 0xef44db2c,
    0xe964b13d, 0x34211b85, 0x560392bc, 0x8b463804, 0x924680ce, 0x4f032a76, 0x2d21a34f, 0xf06409f7,
    0x1f20d2db, 0xc2657863, 0xa047f15a, 0x7d025be2, 0x6402e328, 0xb9474990, 0xdb65c0a9, 0x06206a11,
    0xd725148b, 0x0a60be33, 0x6842370a, 0xb5079db2, 0xac072578, 0x71428fc0, 0x136006f9, 0xce25ac41,
    0x2161776d, 0xfc24ddd5, 0x9e0654ec, 0x4343fe54, 0x5a43469e, 0x8706ec26, 0xe524651f, 0x3861cfa7,
    0x3e41a5b6, 0xe3040f0e, 0x81268637, 0x5c632c8f, 0x45639445, 0x98263efd, 0xfa04b7c4, 0x27411d7c,
    0xc805c650, 0x15406ce8, 0x7762e5d1, 0xaa274f69, 0xb327f7a3, 0x6e625d1b, 0x0c40d422, 0xd1057e9a,
    0xaba65fe7, 0x76e3f55f, 0x14c17c66, 0xc984d6de, 0xd0846e14, 0x0dc1c4ac, 0x6fe34d95, 0xb2a6e72d,
    0x5de23c01, 0x80a796b9, 0xe2851f80, 0x3fc0b538, 0x26c00df2, 0xfb85a74a, 0x99a72e73, 0x44e284cb,
    0x42c2eeda, 0x9f874462, 0xfda5cd5b, 0x20e067e3, 0x39e0df29, 0xe4a57591, 0x8687fca8, 0x5bc25610,
    0xb4868d3c, 0x69c32784, 0x0be1aebd, 0xd6a40405, 0xcfa4bccf, 0x12e11677, 0x70c39f4e, 0xad8635f6,
    0x7c834b6c, 0xa1c6e1d4, 0xc3e468ed, 0x1ea1c255, 0x07a17a9f, 0xdae4d027, 0xb8c6591e, 0x6583f3a6,
    0x8ac7288a, 0x57828232, 0x35a00b0b, 0xe8e5a1b3, 0xf1e51979, 0x2ca0b3c1, 0x4e823af8, 0x93c79040,
    0x95e7fa51, 0x48a250e9, 0x2a80d9d0, 0xf7c57368, 0xeec5cba2, 0x3380611a, 0x51a2e823, 0x8ce7429b,
    0x63a399b7, 0xbee6330f, 0xdcc4ba36, 0x0181108e, 0x1881a844, 0xc5c402fc, 0xa7e68bc5, 0x7aa3217d,
    0x52a0c93f, 0x8fe56387, 0xedc7eabe, 0x30824006, 0x2982f8cc, 0xf4c75274, 0x96e5db4d, 0x4ba071f5,
    0xa4e4aad9, 0x79a10061, 0x1b838958, 0xc6c623e0, 0xdfc69b2a, 0x02833192, 0x60a1b8ab, 0xbde41213,
    0xbbc47802, 0x6681d2ba, 0x04a35b83, 0xd9e6f13b, 0xc0e649f1, 0x1da3e349, 0x7f816a70, 0xa2c4c0c8,
    0x4d801be4, 0x90c5b15c, 0xf2e73865, 0x2fa292dd, 0x36a22a17, 0xebe780af, 0x89c50996, 0x5480a32e,
    0x8585ddb4, 0x58c0770c, 0x3ae2fe35, 0xe7a7548d, 0xfea7ec47, 0x23e246ff, 0x41c0cfc6, 0x9c85657e,
    0x73c1be52, 0xae8414ea, 0xcca69dd3, 0x11e3376b, 0x08e38fa1, 0xd5a62519, 0xb784ac20, 0x6ac10698,
    0x6ce16c89, 0xb1a4c631, 0xd3864f08, 0x0ec3e5b0, 0x17c35d7a, 0xca86f7c2, 0xa8a47efb, 0x75e1d443,
    0x9aa50f6f, 0x47e0a5d7, 0x25c22cee, 0xf8878656, 0xe1873e9c, 0x3cc29424, 0x5ee01d1d, 0x83a5b7a5,
    0xf90696d8, 0x24433c60, 0x4661b559, 0x9b241fe1, 0x8224a72b, 0x5f610d93, 0x3d4384aa, 0xe0062e12,
    0x0f42f53e, 0xd2075f86, 0xb025d6bf, 0x6d607c07, 0x7460c4cd, 0xa9256e75, 0xcb07e74c, 0x16424df4,
    0x106227e5, 0xcd278d5d, 0xaf050464, 0x7240aedc, 0x6b401616, 0xb605bcae, 0xd4273597, 0x09629f2f,
    0xe6264403, 0x3b63eebb, 0x59416782, 0x8404cd3a, 0x9d0475f0, 0x4041df48, 0x22635671, 0xff26fcc9,
    0x2e238253, 0xf36628eb, 0x9144a1d2, 0x4c010b6a, 0x5501b3a0, 0x88441918, 0xea669021, 0x37233a99,
    0xd867e1b5, 0x05224b0d, 0x6700c234, 0xba45688c, 0xa345d046, 0x7e007afe, 0x1c22f3c7, 0xc167597f,
    0xc747336e, 0x1a0299d6, 0x782010ef, 0xa565ba57, 0xbc65029d, 0x6120a825, 0x0302211c, 0xde478ba4,
    0x31035088, 0xec46fa30, 0x8e647309, 0x5321d9b1, 0x4a21617b, 0x9764cbc3, 0xf54642fa, 0x2803e842]"

text \<open>The build does not define the macro that enables the SSE version, which then returns 0.\<close>

definition AcceleratedCRC32C :: "u32 \<Rightarrow> slice \<Rightarrow> u32" where
  "AcceleratedCRC32C crc buf = 0"

definition CanAccelerateCRC32C :: bool where
  "CanAccelerateCRC32C \<longleftrightarrow> AcceleratedCRC32C 0 (str ''TestCRCBuffer'') = 0xdcbc59fa"

definition crc_STEP1 :: "u32 \<Rightarrow> byte \<Rightarrow> u32" where
  "crc_STEP1 l b = (let c = (l AND 0xff) XOR ucast b in (table0 ! unat c) XOR drop_bit 8 l)"

definition crc_STEP4 :: "u32 \<Rightarrow> slice \<Rightarrow> u32" where
  "crc_STEP4 l p =
     (let c = l XOR DecodeFixed32 p
      in (table3 ! unat (c AND 0xff)) XOR (table2 ! unat (drop_bit 8 c AND 0xff)) XOR
         (table1 ! unat (drop_bit 16 c AND 0xff)) XOR (table0 ! unat (drop_bit 24 c)))"

function crc_loop16 :: "u32 \<Rightarrow> slice \<Rightarrow> u32 \<times> slice" where
  "crc_loop16 l p =
     (if length p \<ge> 16
      then crc_loop16 (crc_STEP4 (crc_STEP4 (crc_STEP4 (crc_STEP4 l p) (drop 4 p)) (drop 8 p)) (drop 12 p)) (drop 16 p)
      else (l, p))"
  by pat_completeness auto
termination
  by (relation "measure (\<lambda>(l, p). length p)") auto

function crc_loop4 :: "u32 \<Rightarrow> slice \<Rightarrow> u32 \<times> slice" where
  "crc_loop4 l p = (if length p \<ge> 4 then crc_loop4 (crc_STEP4 l p) (drop 4 p) else (l, p))"
  by pat_completeness auto
termination
  by (relation "measure (\<lambda>(l, p). length p)") auto

text \<open>\<open>addr\<close> is the address of the buffer: \<open>(addr + 3) div 4 * 4 - addr\<close> bytes precede the first aligned one.\<close>

definition crc_Extend :: "nat \<Rightarrow> u32 \<Rightarrow> slice \<Rightarrow> u32" where
  "crc_Extend addr crc buf =
     (if CanAccelerateCRC32C then AcceleratedCRC32C crc buf
      else
        let l = crc XOR 0xffffffff;
            x = (addr + 3) div 4 * 4 - addr;
            n = (if x \<le> length buf then x else 0);
            (l, p) = (foldl crc_STEP1 l (take n buf), drop n buf);
            (l, p) = crc_loop16 l p;
            (l, p) = crc_loop4 l p;
            l = foldl crc_STEP1 l p
        in l XOR 0xffffffff)"

definition crc_Value :: "nat \<Rightarrow> slice \<Rightarrow> u32" where
  "crc_Value addr data = crc_Extend addr 0 data"

definition kMaskDelta :: u32 where "kMaskDelta = 0xa282ead8"

definition crc_Mask :: "u32 \<Rightarrow> u32" where
  "crc_Mask crc = (drop_bit 15 crc OR push_bit 17 crc) + kMaskDelta"

definition crc_Unmask :: "u32 \<Rightarrow> u32" where
  "crc_Unmask masked_crc = (let rot = masked_crc - kMaskDelta in drop_bit 17 rot OR push_bit 15 rot)"

declare crc_loop16.simps [simp del] crc_loop4.simps [simp del]

section \<open>Reference: bitwise division\<close>

definition crc_bit :: "u32 \<Rightarrow> u32" where
  "crc_bit l = (if bit l 0 then drop_bit 1 l XOR 0x82f63b78 else drop_bit 1 l)"

definition crc_byte :: "u32 \<Rightarrow> u32" where
  "crc_byte = crc_bit ^^ 8"

definition crc_bytes :: "u32 \<Rightarrow> slice \<Rightarrow> u32" where
  "crc_bytes = foldl (\<lambda>l b. crc_byte (l XOR ucast b))"

lemma crc_bit_linear: "crc_bit (a XOR b) = crc_bit a XOR crc_bit b"
  by (rule bit_word_eqI) (auto simp: crc_bit_def bit_simps)

lemma crc_bit_pow_linear: "(crc_bit ^^ n) (a XOR b) = (crc_bit ^^ n) a XOR (crc_bit ^^ n) b"
  by (induction n) (simp_all add: crc_bit_linear)

lemma crc_byte_unfold:
  "crc_byte l = crc_bit (crc_bit (crc_bit (crc_bit (crc_bit (crc_bit (crc_bit (crc_bit l)))))))"
  by (simp add: crc_byte_def numeral_eq_Suc)

lemma crc_bit_unfold: "crc_bit l = (if odd l then drop_bit 1 l XOR 0x82f63b78 else drop_bit 1 l)"
  by (simp add: crc_bit_def bit_0)

lemma crc_byte_linear: "crc_byte (a XOR b) = crc_byte a XOR crc_byte b"
  unfolding crc_byte_def by (rule crc_bit_pow_linear)

text \<open>The low bits of a value that is a multiple of a power of two are shifted out unchanged.\<close>

lemma crc_bit_pow_shift: "n \<le> m \<Longrightarrow> (crc_bit ^^ n) (push_bit m x) = drop_bit n (push_bit m x)"
proof (induction n)
  case (Suc n)
  then have "(crc_bit ^^ Suc n) (push_bit m x) = crc_bit (drop_bit n (push_bit m x))" by simp
  also have "\<dots> = drop_bit (Suc n) (push_bit m x)"
    using Suc.prems by (auto simp: crc_bit_def bit_simps drop_bit_drop_bit)
  finally show ?case .
qed simp

lemma crc_byte_high: "crc_byte (push_bit 8 x) = drop_bit 8 (push_bit 8 x)"
  unfolding crc_byte_def by (rule crc_bit_pow_shift) simp

section \<open>The tables are linear\<close>

text \<open>
  A table of a linear function is spanned by its entries at the powers of two, which is cheap to
  check; these eight entries are compared with the bitwise reference.
\<close>

fun xor_span :: "u32 list \<Rightarrow> u32 list \<Rightarrow> u32 list" where
  "xor_span [] xs = xs"
| "xor_span (b # bs) xs = xor_span bs (xs @ map (\<lambda>x. x XOR b) xs)"

lemma word_of_nat_add_pow:
  assumes "i < 2 ^ j"
  shows "(word_of_nat (2 ^ j + i) :: u32) = word_of_nat i XOR 2 ^ j"
proof -
  have "\<not> bit (word_of_nat i :: u32) j" using assms by (simp add: bit_simps bit_iff_odd [of i])
  then have "(word_of_nat i :: u32) AND 2 ^ j = 0" by (simp add: and_exp_eq_0_iff_not_bit)
  then have "word_of_nat i + 2 ^ j = (word_of_nat i :: u32) XOR 2 ^ j" by (rule disjunctive_add_eq_xor)
  then show ?thesis by (simp add: add.commute)
qed

lemma xor_span_linear:
  fixes f :: "u32 \<Rightarrow> u32"
  assumes "\<And>a b. f (a XOR b) = f a XOR f b"
  shows "xor_span (map (\<lambda>k. f (2 ^ k)) [j..<j + n]) (map (\<lambda>i. f (word_of_nat i)) [0..<2 ^ j]) =
    map (\<lambda>i. f (word_of_nat i)) [0..<2 ^ (j + n)]"
proof (induction n arbitrary: j)
  case (Suc n)
  have "map (\<lambda>i. f (word_of_nat (2 ^ j + i))) [0..<2 ^ j] = map (\<lambda>x. x XOR f (2 ^ j)) (map (\<lambda>i. f (word_of_nat i)) [0..<2 ^ j])"
    by (auto simp: word_of_nat_add_pow assms simp del: of_nat_add)
  moreover have "[0..<2 ^ Suc j] = [0..<2 ^ j] @ map (\<lambda>i. 2 ^ j + i) [0..<2 ^ j :: nat]"
    using upt_add_eq_append [of 0 "2 ^ j" "2 ^ j"] map_add_upt [of "2 ^ j" "2 ^ j"] by (simp add: mult_2 add.commute)
  ultimately have "map (\<lambda>i. f (word_of_nat i)) [0..<2 ^ j] @ map (\<lambda>x. x XOR f (2 ^ j)) (map (\<lambda>i. f (word_of_nat i)) [0..<2 ^ j]) =
      map (\<lambda>i. f (word_of_nat i)) [0..<2 ^ Suc j]"
    by (simp add: comp_def)
  moreover have "[j..<j + Suc n] = j # [Suc j..<Suc j + n]" by (simp add: upt_conv_Cons)
  ultimately show ?case using Suc.IH [of "Suc j"] by simp
qed simp

lemma table_of_basis:
  fixes f :: "u32 \<Rightarrow> u32"
  assumes "\<And>a b. f (a XOR b) = f a XOR f b" "table = xor_span [f 1, f 2, f 4, f 8, f 16, f 32, f 64, f 128] [0]"
  shows "table = map (\<lambda>i. f (word_of_nat i)) [0..<256]"
proof -
  have "f 0 = 0" using assms(1) [of 0 0] by simp
  moreover have "[0..<8] = [0, 1, 2, 3, 4, 5, 6, 7 :: nat]" by (simp add: upt_conv_Cons)
  ultimately show ?thesis
    using xor_span_linear [of f 0 8, OF assms(1)] assms(2) by simp
qed

lemma table0_basis:
  "crc_byte 0x00000001 = 0xf26b8303"
  "crc_byte 0x00000002 = 0xe13b70f7"
  "crc_byte 0x00000004 = 0xc79a971f"
  "crc_byte 0x00000008 = 0x8ad958cf"
  "crc_byte 0x00000010 = 0x105ec76f"
  "crc_byte 0x00000020 = 0x20bd8ede"
  "crc_byte 0x00000040 = 0x417b1dbc"
  "crc_byte 0x00000080 = 0x82f63b78"
  by (simp_all add: crc_byte_unfold crc_bit_unfold)

lemma table0_span:
  "table0 = xor_span [0xf26b8303, 0xe13b70f7, 0xc79a971f, 0x8ad958cf, 0x105ec76f, 0x20bd8ede, 0x417b1dbc, 0x82f63b78] [0]"
  by (simp add: table0_def)

lemma table1_basis:
  "crc_byte 0xf26b8303 = 0x13a29877"
  "crc_byte 0xe13b70f7 = 0x274530ee"
  "crc_byte 0xc79a971f = 0x4e8a61dc"
  "crc_byte 0x8ad958cf = 0x9d14c3b8"
  "crc_byte 0x105ec76f = 0x3fc5f181"
  "crc_byte 0x20bd8ede = 0x7f8be302"
  "crc_byte 0x417b1dbc = 0xff17c604"
  "crc_byte 0x82f63b78 = 0xfbc3faf9"
  by (simp_all add: crc_byte_unfold crc_bit_unfold)

lemma table1_span:
  "table1 = xor_span [0x13a29877, 0x274530ee, 0x4e8a61dc, 0x9d14c3b8, 0x3fc5f181, 0x7f8be302, 0xff17c604, 0xfbc3faf9] [0]"
  by (simp add: table1_def)

lemma table2_basis:
  "crc_byte 0x13a29877 = 0xa541927e"
  "crc_byte 0x274530ee = 0x4f6f520d"
  "crc_byte 0x4e8a61dc = 0x9edea41a"
  "crc_byte 0x9d14c3b8 = 0x38513ec5"
  "crc_byte 0x3fc5f181 = 0x70a27d8a"
  "crc_byte 0x7f8be302 = 0xe144fb14"
  "crc_byte 0xff17c604 = 0xc76580d9"
  "crc_byte 0xfbc3faf9 = 0x8b277743"
  by (simp_all add: crc_byte_unfold crc_bit_unfold)

lemma table2_span:
  "table2 = xor_span [0xa541927e, 0x4f6f520d, 0x9edea41a, 0x38513ec5, 0x70a27d8a, 0xe144fb14, 0xc76580d9, 0x8b277743] [0]"
  by (simp add: table2_def)

lemma table3_basis:
  "crc_byte 0xa541927e = 0xdd45aab8"
  "crc_byte 0x4f6f520d = 0xbf672381"
  "crc_byte 0x9edea41a = 0x7b2231f3"
  "crc_byte 0x38513ec5 = 0xf64463e6"
  "crc_byte 0x70a27d8a = 0xe964b13d"
  "crc_byte 0xe144fb14 = 0xd725148b"
  "crc_byte 0xc76580d9 = 0xaba65fe7"
  "crc_byte 0x8b277743 = 0x52a0c93f"
  by (simp_all add: crc_byte_unfold crc_bit_unfold)

lemma table3_span:
  "table3 = xor_span [0xdd45aab8, 0xbf672381, 0x7b2231f3, 0xf64463e6, 0xe964b13d, 0xd725148b, 0xaba65fe7, 0x52a0c93f] [0]"
  by (simp add: table3_def)

lemma tables:
  "table0 = map (\<lambda>i. (crc_bit ^^ 8) (word_of_nat i)) [0..<256]"
  "table1 = map (\<lambda>i. (crc_bit ^^ 16) (word_of_nat i)) [0..<256]"
  "table2 = map (\<lambda>i. (crc_bit ^^ 24) (word_of_nat i)) [0..<256]"
  "table3 = map (\<lambda>i. (crc_bit ^^ 32) (word_of_nat i)) [0..<256]"
proof -
  have pow: "crc_bit ^^ 16 = crc_byte \<circ> crc_byte" "crc_bit ^^ 24 = crc_byte \<circ> (crc_byte \<circ> crc_byte)"
    "crc_bit ^^ 32 = crc_byte \<circ> (crc_byte \<circ> (crc_byte \<circ> crc_byte))"
    unfolding crc_byte_def funpow_add [symmetric] by simp_all
  show "table0 = map (\<lambda>i. (crc_bit ^^ 8) (word_of_nat i)) [0..<256]"
    by (rule table_of_basis [OF crc_bit_pow_linear]) (simp add: table0_span table0_basis flip: crc_byte_def)
  show "table1 = map (\<lambda>i. (crc_bit ^^ 16) (word_of_nat i)) [0..<256]"
    by (rule table_of_basis [OF crc_bit_pow_linear]) (simp add: table1_span pow table0_basis table1_basis)
  show "table2 = map (\<lambda>i. (crc_bit ^^ 24) (word_of_nat i)) [0..<256]"
    by (rule table_of_basis [OF crc_bit_pow_linear]) (simp add: table2_span pow table0_basis table1_basis table2_basis)
  show "table3 = map (\<lambda>i. (crc_bit ^^ 32) (word_of_nat i)) [0..<256]"
    by (rule table_of_basis [OF crc_bit_pow_linear]) (simp add: table3_span pow table0_basis table1_basis table2_basis table3_basis)
qed

lemma table_nth:
  assumes "unat (c :: u32) < 256"
  shows "table0 ! unat c = (crc_bit ^^ 8) c" "table1 ! unat c = (crc_bit ^^ 16) c"
    "table2 ! unat c = (crc_bit ^^ 24) c" "table3 ! unat c = (crc_bit ^^ 32) c"
  using assms by (simp_all add: tables)

section \<open>Extend computes the bitwise checksum\<close>

lemma crc_STEP1_byte: "crc_STEP1 l b = crc_byte (l XOR ucast b)"
proof -
  define c where "c = (l AND 0xff) XOR ucast b"
  have "take_bit 8 c = c" by (rule bit_word_eqI) (auto simp: c_def and_literals bit_simps dest: bit_imp_le_length)
  then have "unat c = unat c mod 256" using unat_take_bit [of 8 c] by simp
  moreover have "unat c mod 256 < 256" by simp
  ultimately have "unat c < 256" by simp
  moreover have "l XOR ucast b = c XOR push_bit 8 (drop_bit 8 l)"
    by (rule bit_word_eqI) (auto simp: c_def and_literals bit_simps dest: bit_imp_le_length)
  moreover have "drop_bit 8 (push_bit 8 (drop_bit 8 l)) = drop_bit 8 l"
    by (rule bit_word_eqI) (auto simp: bit_simps dest: bit_imp_le_length)
  ultimately show ?thesis
    by (simp add: crc_STEP1_def Let_def table_nth(1) crc_byte_linear crc_byte_high c_def [symmetric] flip: crc_byte_def)
qed

lemma crc_bytes_word:
  "length bs \<le> 4 \<Longrightarrow> crc_bytes l bs = (crc_bit ^^ (8 * length bs)) (l XOR le_word bs)"
proof (induction bs arbitrary: l)
  case Nil
  then show ?case by (simp add: crc_bytes_def)
next
  case (Cons b bs)
  have "bit (le_word bs :: u32) k \<Longrightarrow> k < 24" for k using Cons.prems by (auto simp: bit_le_word)
  then have "drop_bit 8 (push_bit 8 (le_word bs :: u32)) = le_word bs"
    by (intro bit_word_eqI) (auto simp: bit_simps)
  then have "crc_byte (push_bit 8 (le_word bs)) = le_word bs" by (simp add: crc_byte_high)
  then have "crc_byte (l XOR ucast b) XOR le_word bs = crc_byte (l XOR (ucast b XOR push_bit 8 (le_word bs)))"
    by (simp add: crc_byte_linear xor.assoc)
  moreover have "(ucast b XOR push_bit 8 (le_word bs) :: u32) = ucast b OR push_bit 8 (le_word bs)"
    by (rule bit_word_eqI) (auto simp: bit_simps dest: bit_imp_le_length)
  ultimately have "crc_bytes l (b # bs) = (crc_bit ^^ (8 * length bs)) (crc_byte (l XOR le_word (b # bs)))"
    using Cons by (simp add: crc_bytes_def)
  moreover have "8 * length (b # bs) = 8 * length bs + 8" by simp
  ultimately show ?case by (simp only: funpow_add comp_apply crc_byte_def)
qed

lemma crc_pow_shift:
  fixes x :: u32
  assumes "unat x < 2 ^ (32 - m)" "m \<le> 32"
  shows "(crc_bit ^^ (k + m)) (push_bit m x) = (crc_bit ^^ k) x"
proof -
  have "bit x n \<Longrightarrow> n < 32 - m" for n
    using assms(1) not_bit_of_unat_less [of x n] by (meson not_le order_less_le_trans power_increasing one_le_numeral)
  then have "drop_bit m (push_bit m x) = x"
    using assms(2) by (intro bit_word_eqI) (force simp: bit_simps)
  then show ?thesis by (simp add: funpow_add crc_bit_pow_shift)
qed

lemma crc_STEP4_bytes:
  assumes "4 \<le> length p"
  shows "crc_STEP4 l p = crc_bytes l (take 4 p)"
proof -
  define c where "c = l XOR DecodeFixed32 p"
  define c0 c1 c2 c3 where "c0 = c AND 0xff" and "c1 = drop_bit 8 c AND 0xff"
    and "c2 = drop_bit 16 c AND 0xff" and "c3 = drop_bit 24 c"
  note defs = c0_def c1_def c2_def c3_def
  have small: "unat c0 < 256" "unat c1 < 256" "unat c2 < 256" "unat c3 < 256"
    using unat_less_exp [of c] by (simp_all add: defs and_literals unat_take_bit unat_drop_bit div_less_iff_less_mult)
  have c: "c = c0 XOR push_bit 8 c1 XOR push_bit 16 c2 XOR push_bit 24 c3"
    by (rule bit_word_eqI) (auto simp: defs and_literals bit_simps not_less)
  have shift: "(crc_bit ^^ 32) (push_bit 8 c1) = (crc_bit ^^ 24) c1" "(crc_bit ^^ 32) (push_bit 16 c2) = (crc_bit ^^ 16) c2"
    "(crc_bit ^^ 32) (push_bit 24 c3) = (crc_bit ^^ 8) c3"
    using crc_pow_shift [of c1 8 24] crc_pow_shift [of c2 16 16] crc_pow_shift [of c3 24 8] small by simp_all
  have "(crc_bit ^^ 32) c = (crc_bit ^^ 32) c0 XOR (crc_bit ^^ 24) c1 XOR (crc_bit ^^ 16) c2 XOR (crc_bit ^^ 8) c3"
    by (subst c) (simp add: crc_bit_pow_linear shift)
  then have "crc_STEP4 l p = (crc_bit ^^ 32) c"
    unfolding crc_STEP4_def Let_def c_def [symmetric] defs [symmetric]
    by (simp add: table_nth small)
  then show ?thesis using assms by (simp add: crc_bytes_word c_def DecodeFixed32_le)
qed

lemma crc_bytes_append: "crc_bytes l (a @ b) = crc_bytes (crc_bytes l a) b"
  by (simp add: crc_bytes_def)

lemma crc_STEP4_drop: "4 \<le> length p \<Longrightarrow> crc_bytes (crc_STEP4 l p) (drop 4 p) = crc_bytes l p"
  by (simp add: crc_STEP4_bytes flip: crc_bytes_append)

lemma crc_loop16_bytes: "crc_loop16 l p = (l', p') \<Longrightarrow> crc_bytes l' p' = crc_bytes l p"
proof (induction l p rule: crc_loop16.induct)
  case (1 l p)
  show ?case
  proof (cases "16 \<le> length p")
    case True
    let ?l1 = "crc_STEP4 l p"
    let ?l4 = "crc_STEP4 (crc_STEP4 (crc_STEP4 ?l1 (drop 4 p)) (drop 8 p)) (drop 12 p)"
    have "crc_bytes ?l4 (drop 16 p) = crc_bytes l p"
      using True crc_STEP4_drop [of p l] crc_STEP4_drop [of "drop 4 p"] crc_STEP4_drop [of "drop 8 p"]
        crc_STEP4_drop [of "drop 12 p"] by simp
    moreover have "crc_loop16 ?l4 (drop 16 p) = (l', p')"
      using 1(2) True by (subst (asm) crc_loop16.simps) simp
    ultimately show ?thesis using 1(1) [OF True] by simp
  qed (use 1(2) in \<open>subst (asm) crc_loop16.simps, simp\<close>)
qed

lemma crc_loop4_bytes: "crc_loop4 l p = (l', p') \<Longrightarrow> crc_bytes l' p' = crc_bytes l p"
proof (induction l p rule: crc_loop4.induct)
  case (1 l p)
  show ?case
  proof (cases "4 \<le> length p")
    case True
    then have "crc_loop4 (crc_STEP4 l p) (drop 4 p) = (l', p')"
      using 1(2) by (subst (asm) crc_loop4.simps) simp
    then show ?thesis using 1(1) [OF True] crc_STEP4_drop [OF True] by simp
  qed (use 1(2) in \<open>subst (asm) crc_loop4.simps, simp\<close>)
qed

lemma foldl_crc_STEP1: "foldl crc_STEP1 l p = crc_bytes l p"
  by (simp add: crc_bytes_def crc_STEP1_byte [abs_def])

lemma crc_Extend_bytes: "crc_Extend addr crc buf = crc_bytes (crc XOR 0xffffffff) buf XOR 0xffffffff"
proof -
  define n where "n = (if (addr + 3) div 4 * 4 - addr \<le> length buf then (addr + 3) div 4 * 4 - addr else 0)"
  obtain l1 p1 where 1: "crc_loop16 (crc_bytes (crc XOR 0xffffffff) (take n buf)) (drop n buf) = (l1, p1)" by fastforce
  obtain l2 p2 where 2: "crc_loop4 l1 p1 = (l2, p2)" by fastforce
  have "crc_bytes l2 p2 = crc_bytes (crc XOR 0xffffffff) buf"
    using crc_loop16_bytes [OF 1] crc_loop4_bytes [OF 2] by (simp flip: crc_bytes_append)
  moreover have "\<not> CanAccelerateCRC32C" by (simp add: CanAccelerateCRC32C_def AcceleratedCRC32C_def)
  ultimately show ?thesis
    by (simp add: crc_Extend_def Let_def foldl_crc_STEP1 1 2 flip: n_def)
qed

lemma crc_Extend_Extend: "crc_Extend a1 (crc_Extend a2 crc x) y = crc_Extend a3 crc (x @ y)"
  by (simp add: crc_Extend_bytes crc_bytes_append xor.assoc)

lemma crc_Value_Cons: "crc_Extend a1 (crc_Value a2 [b]) p = crc_Value a3 (b # p)"
  unfolding crc_Value_def using crc_Extend_Extend [of a1 a2 0 "[b]" p a3] by simp

lemma crc_Value_addr: "crc_Value a p = crc_Value 0 p"
  by (simp add: crc_Value_def crc_Extend_bytes)

section \<open>Error detection\<close>

lemma xor_cancel:
  "(a :: u32) XOR c = b XOR c \<longleftrightarrow> a = b" "c XOR a = c XOR (b :: u32) \<longleftrightarrow> a = b"
  by (auto simp: bit_eq_iff bit_xor_iff)

lemma crc_bit_inj: "crc_bit a = crc_bit b \<Longrightarrow> a = b"
proof -
  assume eq: "crc_bit a = crc_bit b"
  have poly: "bit (0x82f63b78 :: u32) 31" by simp
  have top: "bit (crc_bit l) 31 \<longleftrightarrow> bit l 0" for l using poly by (auto simp: crc_bit_def bit_simps dest: bit_imp_le_length)
  have zero: "bit a 0 = bit b 0" using eq top by metis
  then have "drop_bit 1 a = drop_bit 1 b" using eq by (auto simp: crc_bit_def xor_cancel split: if_splits)
  then have "bit a (Suc k) = bit b (Suc k)" for k by (metis bit_drop_bit_eq comp_apply plus_1_eq_Suc)
  then have "bit a k = bit b k" for k using zero by (cases k) auto
  then show ?thesis by (simp add: bit_eq_iff)
qed

lemma crc_bit_pow_inj: "(crc_bit ^^ n) a = (crc_bit ^^ n) b \<Longrightarrow> a = b"
  by (induction n) (auto dest: crc_bit_inj)

lemma crc_byte_inj: "crc_byte a = crc_byte b \<Longrightarrow> a = b"
  unfolding crc_byte_def by (rule crc_bit_pow_inj)

lemma crc_bytes_inj: "crc_bytes l p = crc_bytes l' p \<Longrightarrow> l = l'"
proof (induction p arbitrary: l l')
  case (Cons b p)
  then have "crc_byte (l XOR ucast b) = crc_byte (l' XOR ucast b)" by (simp add: crc_bytes_def)
  then have "l XOR ucast b = l' XOR ucast b" by (rule crc_byte_inj)
  then show ?case by (simp add: xor_cancel)
qed (simp add: crc_bytes_def)

lemma crc_detects_burst:
  assumes "length x = length y" "length x \<le> 4" "crc_bytes l (a @ x @ b) = crc_bytes l (a @ y @ b)"
  shows "x = y"
proof -
  have "crc_bytes (crc_bytes l a) x = crc_bytes (crc_bytes l a) y"
    using assms(3) crc_bytes_inj by (simp add: crc_bytes_append)
  then have "crc_bytes l a XOR le_word x = crc_bytes l a XOR le_word y"
    using assms(1,2) crc_bit_pow_inj by (simp add: crc_bytes_word)
  then have "(le_word x :: u32) = le_word y" by (simp add: xor_cancel)
  then show ?thesis
    using le_bytes_le_word [of x "length x", where ?'a = 32] le_bytes_le_word [of y "length x", where ?'a = 32] assms(1,2) by simp
qed

section \<open>Masking\<close>

lemma crc_Unmask_Mask: "crc_Unmask (crc_Mask c) = c"
proof (rule bit_word_eqI)
  fix n assume "n < LENGTH(32)"
  then show "bit (crc_Unmask (crc_Mask c)) n = bit c n"
    by (cases "n < 15") (auto simp: crc_Mask_def crc_Unmask_def Let_def bit_simps dest: bit_imp_le_length)
qed

section \<open>Properties\<close>

text \<open>C26: The table-driven, four-bytes-at-a-time \<open>Extend\<close> computes the bit-by-bit reference checksum,
  whatever the address and so the alignment of the buffer; extending a checksum by more data is the
  checksum of the concatenation; and \<open>Unmask\<close> undoes \<open>Mask\<close>.\<close>

theorem crc32c_extend:
  "crc_Extend addr crc buf = crc_bytes (crc XOR 0xffffffff) buf XOR 0xffffffff \<and>
   crc_Extend addr (crc_Value addr' x) y = crc_Value addr'' (x @ y) \<and>
   crc_Unmask (crc_Mask crc) = crc"
  using crc_Extend_Extend [of addr addr' 0 x y addr'']
  by (simp add: crc_Extend_bytes crc_Unmask_Mask crc_Value_def)



end
