(* ===== verification/Log_Writer.thy ===== *)
theory Log_Writer
  imports Env_Posix Coding Crc32c
begin

text \<open>
  \<^verbatim>\<open>db/log_format.h\<close> and \<^verbatim>\<open>db/log_writer.cpp\<close>: records are cut into fragments that never cross a block of
  32768 bytes, each with a header of checksum, length and type. The writer appends to any file that
  meets the interface \<open>writable_file\<close>; what it appends is given by the layout \<open>record_frags\<close>.
\<close>

section \<open>The format\<close>

datatype RecordType = kZeroType | kFullType | kFirstType | kMiddleType | kLastType

primrec RecordType_code :: "RecordType \<Rightarrow> nat" where
  "RecordType_code kZeroType = 0"
| "RecordType_code kFullType = 1"
| "RecordType_code kFirstType = 2"
| "RecordType_code kMiddleType = 3"
| "RecordType_code kLastType = 4"

definition kMaxRecordType :: nat where "kMaxRecordType = RecordType_code kLastType"
definition kBlockSize :: nat where "kBlockSize = 32768"
definition kHeaderSize :: nat where "kHeaderSize = 4 + 2 + 1"

lemmas log_consts = kBlockSize_def kHeaderSize_def kMaxRecordType_def

section \<open>The writer\<close>

text \<open>
  The state of a \<open>Writer\<close> is its \<open>block_offset_\<close>; the file is the argument \<open>dest\<close>. The checksum routine
  takes the address of its buffer, which does not influence its result; it is 0 here.
\<close>

definition type_crc :: "RecordType \<Rightarrow> u32" where
  "type_crc t = crc_Value 0 [word_of_nat (RecordType_code t)]"

definition new_Writer :: "u64 \<Rightarrow> nat" where
  "new_Writer dest_length = unat (dest_length mod word_of_nat kBlockSize)"

definition record_header :: "RecordType \<Rightarrow> slice \<Rightarrow> slice" where
  "record_header t d =
     (let n = length d in
      EncodeFixed32 (crc_Mask (crc_Extend 0 (type_crc t) d)) @
      [word_of_nat (n mod 256), word_of_nat (n div 256), word_of_nat (RecordType_code t)])"

definition EmitPhysicalRecord :: "'w WritableFile \<Rightarrow> RecordType \<Rightarrow> slice \<Rightarrow> nat \<Rightarrow> 'w \<Rightarrow> status \<times> nat \<times> 'w" where
  "EmitPhysicalRecord dest t d block_offset w =
     (let (s, w) = wf_Append dest (record_header t d) w;
          (s, w) = (if ok s then
                      let (s, w) = wf_Append dest d w in
                      if ok s then wf_Flush dest w else (s, w)
                    else (s, w))
      in (s, block_offset + (kHeaderSize + length d), w))"

definition fragment_type :: "bool \<Rightarrow> bool \<Rightarrow> RecordType" where
  "fragment_type begins ends =
     (if begins \<and> ends then kFullType else if begins then kFirstType else if ends then kLastType else kMiddleType)"

text \<open>One round of the loop up to the call of \<open>EmitPhysicalRecord\<close>: the switch to a new block.\<close>

definition switch_block :: "'w WritableFile \<Rightarrow> nat \<Rightarrow> 'w \<Rightarrow> nat \<times> 'w" where
  "switch_block dest block_offset w =
     (let leftover = kBlockSize - block_offset in
      if leftover < kHeaderSize then
        (0, if leftover > 0 then snd (wf_Append dest (replicate leftover 0) w) else w)
      else (block_offset, w))"

function AddRecord_loop :: "'w WritableFile \<Rightarrow> bool \<Rightarrow> slice \<Rightarrow> nat \<Rightarrow> 'w \<Rightarrow> status \<times> nat \<times> 'w" where
  "AddRecord_loop dest begins ptr block_offset w =
     (let (off, w) = switch_block dest block_offset w;
          avail = kBlockSize - off - kHeaderSize;
          fragment_length = (if length ptr < avail then length ptr else avail);
          ends = (length ptr = fragment_length);
          (s, off, w) = EmitPhysicalRecord dest (fragment_type begins ends) (take fragment_length ptr) off w;
          ptr = drop fragment_length ptr
      in if ok s \<and> ptr \<noteq> [] then AddRecord_loop dest False ptr off w else (s, off, w))"
  by pat_completeness auto
termination
proof (relation "measure (\<lambda>(dest, b, ptr, off, w). 2 * length ptr + (if off + kHeaderSize = kBlockSize then 1 else 0))")
qed (auto simp: switch_block_def EmitPhysicalRecord_def Let_def log_consts split: if_splits prod.splits)

declare AddRecord_loop.simps [simp del]

definition AddRecord :: "'w WritableFile \<Rightarrow> slice \<Rightarrow> nat \<Rightarrow> 'w \<Rightarrow> status \<times> nat \<times> 'w" where
  "AddRecord dest data block_offset w = AddRecord_loop dest True data block_offset w"

section \<open>The layout\<close>

text \<open>
  Positions are counted from the start of the file. \<open>record_start p\<close> is where a physical record
  written at position \<open>p\<close> begins: after the zeros that fill a block with no room for a header.
\<close>

type_synonym frag = "nat \<times> RecordType \<times> slice"

definition record_start :: "nat \<Rightarrow> nat" where
  "record_start p = (if kBlockSize - p mod kBlockSize < kHeaderSize then p + (kBlockSize - p mod kBlockSize) else p)"

definition room :: "nat \<Rightarrow> nat" where
  "room p = kBlockSize - record_start p mod kBlockSize - kHeaderSize"

definition frag_bytes :: "frag \<Rightarrow> slice" where
  "frag_bytes = (\<lambda>(pad, t, d). replicate pad 0 @ record_header t d @ d)"

definition frags_bytes :: "frag list \<Rightarrow> slice" where
  "frags_bytes fs = concat (map frag_bytes fs)"

lemma kBlockSize_pos: "0 < kBlockSize"
  by (simp add: kBlockSize_def)

lemma header_fits [simp]: "0 < kHeaderSize" "\<not> kBlockSize < kHeaderSize"
  by (simp_all add: log_consts)

lemma record_start_mod: "record_start p mod kBlockSize = (if kBlockSize - p mod kBlockSize < kHeaderSize then 0 else p mod kBlockSize)"
proof (cases "kBlockSize - p mod kBlockSize < kHeaderSize")
  case True
  have "p + (kBlockSize - p mod kBlockSize) = (p div kBlockSize + 1) * kBlockSize"
    using mod_less_divisor [OF kBlockSize_pos, of p] div_mult_mod_eq [of p kBlockSize]
    unfolding add_mult_distrib by linarith
  with True show ?thesis
    by (simp add: record_start_def)
qed (simp add: record_start_def)

lemma record_start_room: "record_start p mod kBlockSize + kHeaderSize + room p = kBlockSize"
proof -
  have "kHeaderSize \<le> kBlockSize"
    by (simp add: log_consts)
  then have "record_start p mod kBlockSize + kHeaderSize \<le> kBlockSize"
    using mod_less_divisor [OF kBlockSize_pos, of p] unfolding record_start_mod by (auto split: if_splits)
  then show ?thesis
    by (simp add: room_def)
qed

lemma record_start_pad: "record_start p - p = (if kBlockSize - p mod kBlockSize < kHeaderSize then kBlockSize - p mod kBlockSize else 0)"
  by (simp add: record_start_def)

lemma record_start_ge: "p \<le> record_start p"
  by (simp add: record_start_def)

lemma room_le: "room p \<le> 32761"
  using record_start_room [of p] by (simp add: log_consts)

lemma next_block: "(record_start p + kHeaderSize + room p) mod kBlockSize = 0"
proof -
  have "(record_start p + (kHeaderSize + room p)) mod kBlockSize =
    (record_start p mod kBlockSize + (kHeaderSize + room p)) mod kBlockSize"
    by (simp add: mod_add_left_eq)
  then show ?thesis
    using record_start_room [of p] by (simp add: add.assoc)
qed

lemma room_block: "p mod kBlockSize = 0 \<Longrightarrow> room p = 32761"
  by (simp add: room_def record_start_def log_consts)

function record_frags :: "nat \<Rightarrow> bool \<Rightarrow> slice \<Rightarrow> frag list" where
  "record_frags p begins d =
     (record_start p - p, fragment_type begins (length d \<le> room p), take (room p) d) #
     (if length d \<le> room p then [] else record_frags (record_start p + kHeaderSize + room p) False (drop (room p) d))"
  by pat_completeness auto
termination
  by (relation "measure (\<lambda>(p, b, d). 2 * length d + (if room p = 0 then 1 else 0))")
    (auto simp: room_block [OF next_block])

declare record_frags.simps [simp del]

text \<open>Fragments at their places, each inside one block.\<close>

fun frags_at :: "nat \<Rightarrow> frag list \<Rightarrow> bool" where
  "frags_at p [] = True"
| "frags_at p ((pad, t, d) # fs) \<longleftrightarrow>
     pad = record_start p - p \<and> length d \<le> room p \<and> frags_at (record_start p + kHeaderSize + length d) fs"

lemma length_record_header [simp]: "length (record_header t d) = kHeaderSize"
  by (simp add: record_header_def kHeaderSize_def EncodeFixed32_le Let_def)

lemma length_frag_bytes: "length (frag_bytes (pad, t, d)) = pad + kHeaderSize + length d"
  by (simp add: frag_bytes_def)

lemma frags_bytes_simps [simp]:
  "frags_bytes [] = []" "frags_bytes (f # fs) = frag_bytes f @ frags_bytes fs" "frags_bytes (fs @ gs) = frags_bytes fs @ frags_bytes gs"
  by (simp_all add: frags_bytes_def)

lemma record_frags_at: "frags_at p (record_frags p b d)"
proof (induction p b d rule: record_frags.induct)
  case (1 p b d)
  then show ?case
    by (subst record_frags.simps) (simp add: min_def)
qed

section \<open>The writer produces the layout\<close>

lemma EmitPhysicalRecord_ok:
  assumes "writable_file dest live contents" and "live w"
    and "EmitPhysicalRecord dest t d off w = (s, off', w')" and "ok s"
  shows "live w' \<and> contents w' = contents w @ record_header t d @ d \<and> off' = off + kHeaderSize + length d"
proof -
  obtain s1 w1 where a1: "wf_Append dest (record_header t d) w = (s1, w1)"
    by fastforce
  obtain s2 w2 where a2: "wf_Append dest d w1 = (s2, w2)"
    by fastforce
  have "ok s1" "ok s2" and fl: "wf_Flush dest w2 = (s, w')" and off: "off' = off + kHeaderSize + length d"
    using assms a1 a2 by (auto simp: EmitPhysicalRecord_def split: if_splits prod.splits)
  then show ?thesis
    using writable_file.append_law [OF assms(1) assms(2) a1] writable_file.append_law [OF assms(1) _ a2]
      writable_file.flush_law [OF assms(1) _ fl] assms(4)
    by simp
qed

text \<open>The status of filling the trailer is dropped by the code, so that its success is a premise.\<close>

definition trailer_ok :: "'w WritableFile \<Rightarrow> nat \<Rightarrow> 'w \<Rightarrow> bool" where
  "trailer_ok dest off w \<longleftrightarrow>
     (0 < kBlockSize - off \<and> kBlockSize - off < kHeaderSize \<longrightarrow> ok (fst (wf_Append dest (replicate (kBlockSize - off) 0) w)))"

definition offset_at :: "nat \<Rightarrow> nat \<Rightarrow> bool" where
  "offset_at off p \<longleftrightarrow> off \<le> kBlockSize \<and> off mod kBlockSize = p mod kBlockSize"

lemma switch_block_ok:
  assumes wf: "writable_file dest live contents" and "live w" and "trailer_ok dest off w" and "offset_at off p"
    and "switch_block dest off w = (off', w')"
  shows "live w' \<and> contents w' = contents w @ replicate (record_start p - p) 0 \<and> off' = record_start p mod kBlockSize"
proof (cases "off = kBlockSize")
  case True
  with assms show ?thesis
    by (auto simp: switch_block_def record_start_mod record_start_pad offset_at_def Let_def split: if_splits)
next
  case False
  with assms(4) have off: "off = p mod kBlockSize" "off < kBlockSize"
    by (auto simp: offset_at_def)
  obtain s w1 where a: "wf_Append dest (replicate (kBlockSize - off) 0) w = (s, w1)"
    by fastforce
  show ?thesis
    using assms(2,3,5) a off writable_file.append_law [OF wf assms(2) a]
    by (auto simp: switch_block_def trailer_ok_def record_start_mod record_start_pad Let_def split: if_splits)
qed

lemma trailer_ok_block [simp]: "trailer_ok dest kBlockSize w"
  by (simp add: trailer_ok_def)

lemma AddRecord_loop_layout:
  assumes "writable_file dest live contents" and "live w" and "trailer_ok dest off w" and "offset_at off p"
    and "AddRecord_loop dest b d off w = (s, off', w')" and "ok s"
  shows "live w' \<and> contents w' = contents w @ frags_bytes (record_frags p b d) \<and>
    offset_at off' (p + length (frags_bytes (record_frags p b d)))"
  using assms
proof (induction p b d arbitrary: off w rule: record_frags.induct)
  case (1 p b d)
  note wf = \<open>writable_file dest live contents\<close>
  obtain off1 w1 where sw: "switch_block dest off w = (off1, w1)"
    by fastforce
  from switch_block_ok [OF 1(2-5) sw]
  have l1: "live w1" "contents w1 = contents w @ replicate (record_start p - p) 0" "off1 = record_start p mod kBlockSize"
    by simp_all
  define n where "n = (if length d < room p then length d else room p)"
  have room: "kBlockSize - off1 - kHeaderSize = room p"
    by (simp add: l1(3) room_def)
  define t where "t = fragment_type b (length d = n)"
  obtain s2 off2 w2 where em: "EmitPhysicalRecord dest t (take n d) off1 w1 = (s2, off2, w2)"
    by (cases "EmitPhysicalRecord dest t (take n d) off1 w1") auto
  have step: "AddRecord_loop dest b d off w =
      (if ok s2 \<and> drop n d \<noteq> [] then AddRecord_loop dest False (drop n d) off2 w2 else (s2, off2, w2))"
    by (subst AddRecord_loop.simps) (simp only: Let_def sw prod.case room n_def [symmetric] t_def [symmetric] em)
  have "ok s2"
    using 1(6,7) step by (auto split: if_splits)
  note l2 = EmitPhysicalRecord_ok [OF wf l1(1) em this]
  show ?case
  proof (cases "length d \<le> room p")
    case True
    then have n: "n = length d"
      by (auto simp: n_def)
    then have fr: "record_frags p b d = [(record_start p - p, t, d)]"
      using True by (subst record_frags.simps) (simp add: t_def)
    have "off2 \<le> kBlockSize"
      using l2 n True record_start_room [of p] by (simp add: l1(3))
    moreover have "off2 mod kBlockSize = (p + (record_start p - p) + kHeaderSize + length d) mod kBlockSize"
      using l2 n record_start_ge [of p] by (simp add: l1(3) mod_add_left_eq add.assoc)
    ultimately show ?thesis
      using 1(6) step l2 l1(2) n by (simp add: fr frag_bytes_def offset_at_def add.assoc)
  next
    case False
    then have n: "n = room p" and ne: "drop n d \<noteq> []"
      by (auto simp: n_def)
    define q where "q = record_start p + kHeaderSize + room p"
    have fr: "record_frags p b d = (record_start p - p, t, take n d) # record_frags q False (drop n d)"
      using False n by (subst record_frags.simps) (simp add: t_def q_def)
    have len: "p + length (frag_bytes (record_start p - p, t, take n d)) = q"
      using False n record_start_ge [of p] by (simp add: length_frag_bytes q_def)
    have off2: "off2 = kBlockSize"
      using l2 n False record_start_room [of p] by (simp add: l1(3))
    then have "offset_at off2 q"
      using next_block [of p] by (simp add: offset_at_def q_def)
    moreover have "AddRecord_loop dest False (drop n d) off2 w2 = (s, off', w')"
      using 1(6) step ne \<open>ok s2\<close> by simp
    ultimately have "live w' \<and> contents w' = contents w2 @ frags_bytes (record_frags q False (drop n d)) \<and>
      offset_at off' (q + length (frags_bytes (record_frags q False (drop n d))))"
      using 1(1) [of w2 off2] False l2 off2 wf 1(7) by (simp add: q_def n)
    then show ?thesis
      unfolding fr frags_bytes_simps length_append add.assoc [symmetric] len
      using l1(2) l2 by (simp add: frag_bytes_def)
  qed
qed


lemma AddRecord_layout:
  assumes "writable_file dest live contents" and "live w" and "trailer_ok dest off w" and "offset_at off (length (contents w))"
    and "AddRecord dest d off w = (s, off', w')" and "ok s"
  shows "live w' \<and> contents w' = contents w @ frags_bytes (record_frags (length (contents w)) True d) \<and>
    offset_at off' (length (contents w'))"
  using AddRecord_loop_layout [OF assms(1-4) _ assms(6)] assms(5) by (simp add: AddRecord_def)

text \<open>A sequence of records, and its layout from a position on.\<close>

fun AddRecords :: "'w WritableFile \<Rightarrow> slice list \<Rightarrow> nat \<Rightarrow> 'w \<Rightarrow> status \<times> nat \<times> 'w" where
  "AddRecords dest [] off w = (OK, off, w)"
| "AddRecords dest (d # ds) off w =
     (let (s, off, w) = AddRecord dest d off w in if ok s then AddRecords dest ds off w else (s, off, w))"

fun log_frags :: "nat \<Rightarrow> slice list \<Rightarrow> frag list list" where
  "log_frags p [] = []"
| "log_frags p (d # ds) =
     (let fs = record_frags p True d in fs # log_frags (p + length (frags_bytes fs)) ds)"

definition log_bytes :: "nat \<Rightarrow> slice list \<Rightarrow> slice" where
  "log_bytes p ds = frags_bytes (concat (log_frags p ds))"

lemma AddRecords_layout:
  assumes "writable_file dest live contents" and "\<And>n w. live w \<Longrightarrow> n < kHeaderSize \<Longrightarrow> ok (fst (wf_Append dest (replicate n 0) w))"
    and "live w" and "offset_at off (length (contents w))" and "AddRecords dest ds off w = (s, off', w')" and "ok s"
  shows "live w' \<and> contents w' = contents w @ log_bytes (length (contents w)) ds \<and> offset_at off' (length (contents w'))"
  using assms(3-)
proof (induction ds arbitrary: off w)
  case Nil
  then show ?case
    by (simp add: log_bytes_def)
next
  case (Cons d ds)
  obtain s1 off1 w1 where a: "AddRecord dest d off w = (s1, off1, w1)"
    by (cases "AddRecord dest d off w")
  with Cons.prems have s1: "ok s1" and rest: "AddRecords dest ds off1 w1 = (s, off', w')"
    by (auto split: if_splits)
  have "trailer_ok dest off w"
    using assms(2) Cons.prems(1) by (simp add: trailer_ok_def)
  from AddRecord_layout [OF assms(1) Cons.prems(1) this Cons.prems(2) a s1]
  have l1: "live w1" "contents w1 = contents w @ frags_bytes (record_frags (length (contents w)) True d)"
    "offset_at off1 (length (contents w1))"
    by blast+
  note l2 = Cons.IH [OF l1(1,3) rest Cons.prems(4)]
  then have "contents w' = contents w @ log_bytes (length (contents w)) (d # ds)"
    using l1(2) by (simp add: log_bytes_def Let_def)
  with l2 show ?case
    by blast
qed

lemma frags_at_append: "frags_at p (fs @ gs) \<longleftrightarrow> frags_at p fs \<and> frags_at (p + length (frags_bytes fs)) gs"
proof (induction p fs rule: frags_at.induct)
  case (2 p pad t d fs)
  show ?case
  proof (cases "pad = record_start p - p")
    case True
    then have tot: "p + length (frags_bytes ((pad, t, d) # fs)) = record_start p + kHeaderSize + length d + length (frags_bytes fs)"
      using record_start_ge [of p] by (simp add: length_frag_bytes)
    show ?thesis
      unfolding append_Cons frags_at.simps 2 tot by blast
  qed simp
qed simp

lemma log_frags_at: "frags_at p (concat (log_frags p ds))"
  by (induction ds arbitrary: p) (simp_all add: Let_def frags_at_append record_frags_at)

end
