(* ===== verification/Log_Reader.thy ===== *)
theory Log_Reader
  imports Log_Writer
begin

text \<open>
  \<^verbatim>\<open>db/log_reader.cpp\<close>. A reader holds the unread part of the current block, the end-of-file flag and
  its offsets; it reads from any file that meets the interface \<open>sequential_file\<close>. The main result:
  from a log cut off at any byte, the reader returns exactly the records that are complete, in order,
  reports nothing and stops.
\<close>

section \<open>The reader\<close>

text \<open>The reporter is a function on the world, \<open>None\<close> when the pointer is \<open>NULL\<close>.\<close>

record 'w Reader =
  rd_file :: "'w SequentialFile"
  rd_reporter :: "(u64 \<Rightarrow> status \<Rightarrow> 'w \<Rightarrow> 'w) option"
  rd_checksum :: bool
  rd_buffer :: slice
  rd_eof :: bool
  rd_last_record_offset :: u64
  rd_end_of_buffer_offset :: u64
  rd_initial_offset :: u64
  rd_resyncing :: bool

definition new_Reader ::
  "'w SequentialFile \<Rightarrow> (u64 \<Rightarrow> status \<Rightarrow> 'w \<Rightarrow> 'w) option \<Rightarrow> bool \<Rightarrow> u64 \<Rightarrow> 'w Reader"
where
  "new_Reader sf reporter checksum initial_offset =
     \<lparr>rd_file = sf, rd_reporter = reporter, rd_checksum = checksum, rd_buffer = [], rd_eof = False,
      rd_last_record_offset = 0, rd_end_of_buffer_offset = 0, rd_initial_offset = initial_offset,
      rd_resyncing = (initial_offset > 0)\<rparr>"

definition kEof :: u32 where "kEof = word_of_nat (kMaxRecordType + 1)"
definition kBadRecord :: u32 where "kBadRecord = word_of_nat (kMaxRecordType + 2)"

abbreviation buffer_size :: "'w Reader \<Rightarrow> u64" where
  "buffer_size r \<equiv> word_of_nat (length (rd_buffer r))"

definition ReportDrop :: "'w Reader \<Rightarrow> u64 \<Rightarrow> status \<Rightarrow> 'w \<Rightarrow> 'w" where
  "ReportDrop r bytes reason w =
     (case rd_reporter r of
        None \<Rightarrow> w
      | Some report \<Rightarrow>
          if rd_end_of_buffer_offset r - buffer_size r - bytes \<ge> rd_initial_offset r then report bytes reason w else w)"

definition ReportCorruption :: "'w Reader \<Rightarrow> u64 \<Rightarrow> slice \<Rightarrow> 'w \<Rightarrow> 'w" where
  "ReportCorruption r bytes reason w = ReportDrop r bytes (Corruption reason []) w"

definition SkipToInitialBlock :: "'w Reader \<Rightarrow> 'w \<Rightarrow> bool \<times> 'w Reader \<times> 'w" where
  "SkipToInitialBlock r w =
     (let offset_in_block = rd_initial_offset r mod word_of_nat kBlockSize;
          block_start_location = rd_initial_offset r - offset_in_block;
          block_start_location =
            (if offset_in_block > word_of_nat (kBlockSize - 6) then block_start_location + word_of_nat kBlockSize
             else block_start_location);
          r = r\<lparr>rd_end_of_buffer_offset := block_start_location\<rparr>
      in if block_start_location > 0 then
           let (skip_status, w) = sf_Skip (rd_file r) block_start_location w in
           if \<not> ok skip_status then (False, r, ReportDrop r block_start_location skip_status w) else (True, r, w)
         else (True, r, w))"

text \<open>
  \<open>ReadPhysicalRecord\<close> without its loop: the part that looks at a buffer with at least a header in it.
  The type is a signed \<open>char\<close> widened to \<open>unsigned int\<close>. The second component is \<open>*result\<close>, passed in
  and returned unchanged where the code does not assign it.
\<close>

definition ParsePhysicalRecord :: "'w Reader \<Rightarrow> slice \<Rightarrow> 'w \<Rightarrow> u32 \<times> slice \<times> 'w Reader \<times> 'w" where
  "ParsePhysicalRecord r result w =
     (let header = rd_buffer r;
          a = ucast (header ! 4) AND (0xff :: u32);
          b = ucast (header ! 5) AND (0xff :: u32);
          t = (scast (header ! 6) :: u32);
          len = unat (a OR push_bit 8 b);
          size = length header
      in if kHeaderSize + len > size then
           let r' = r\<lparr>rd_buffer := []\<rparr> in
           if \<not> rd_eof r then (kBadRecord, result, r', ReportCorruption r' (word_of_nat size) (str ''bad record length'') w)
           else (kEof, result, r', w)
         else if t = 0 \<and> len = 0 then (kBadRecord, result, r\<lparr>rd_buffer := []\<rparr>, w)
         else if rd_checksum r \<and>
             crc_Value 0 (take (1 + len) (drop 6 header)) \<noteq> crc_Unmask (DecodeFixed32 header) then
           let r' = r\<lparr>rd_buffer := []\<rparr> in
           (kBadRecord, result, r', ReportCorruption r' (word_of_nat size) (str ''checksum mismatch'') w)
         else
           let r' = r\<lparr>rd_buffer := drop (kHeaderSize + len) header\<rparr> in
           if rd_end_of_buffer_offset r' - buffer_size r' - word_of_nat kHeaderSize - word_of_nat len < rd_initial_offset r'
           then (kBadRecord, [], r', w)
           else (t, take len (drop kHeaderSize header), r', w))"

function ReadPhysicalRecord :: "'w Reader \<Rightarrow> slice \<Rightarrow> 'w \<Rightarrow> u32 \<times> slice \<times> 'w Reader \<times> 'w" where
  "ReadPhysicalRecord r result w =
     (if length (rd_buffer r) < kHeaderSize then
        if \<not> rd_eof r then
          let (s, buf, w) = sf_Read (rd_file r) kBlockSize w;
              r = r\<lparr>rd_buffer := buf, rd_end_of_buffer_offset := rd_end_of_buffer_offset r + word_of_nat (length buf)\<rparr>
          in if \<not> ok s then
               let r = r\<lparr>rd_buffer := []\<rparr> in
               (kEof, result, r\<lparr>rd_eof := True\<rparr>, ReportDrop r (word_of_nat kBlockSize) s w)
             else ReadPhysicalRecord (if length buf < kBlockSize then r\<lparr>rd_eof := True\<rparr> else r) result w
        else (kEof, result, r\<lparr>rd_buffer := []\<rparr>, w)
      else ParsePhysicalRecord r result w)"
  by pat_completeness auto
termination
  by (relation "measure (\<lambda>(r, result, w). if rd_eof r \<or> length (rd_buffer r) \<ge> kBlockSize then 0 else 1)")
    (auto simp: log_consts)

declare ReadPhysicalRecord.simps [simp del]

text \<open>
  The loop of \<open>ReadRecord\<close>. Its state: \<open>*scratch\<close>, \<open>in_fragmented_record\<close>,
  \<open>prospective_record_offset\<close> and \<open>fragment\<close>. The result is the value returned and \<open>*record\<close>.
\<close>

definition unknown_type_message :: "u32 \<Rightarrow> slice" where
  "unknown_type_message t = str ''unknown record type '' @ dec_nat (unat t)"

partial_function (option) ReadRecord_loop ::
  "'w Reader \<Rightarrow> slice \<Rightarrow> bool \<Rightarrow> u64 \<Rightarrow> slice \<Rightarrow> 'w \<Rightarrow> (bool \<times> slice \<times> 'w Reader \<times> 'w) option"
where
  "ReadRecord_loop r scratch in_fragmented prospective fragment w =
     (case ReadPhysicalRecord r fragment w of (t, fragment, r, w) \<Rightarrow>
      let physical = rd_end_of_buffer_offset r - buffer_size r - word_of_nat kHeaderSize - word_of_nat (length fragment);
          fsize = word_of_nat (length fragment); ssize = word_of_nat (length scratch)
      in if rd_resyncing r \<and> t = word_of_nat (RecordType_code kMiddleType) then
           ReadRecord_loop r scratch in_fragmented prospective fragment w
         else if rd_resyncing r \<and> t = word_of_nat (RecordType_code kLastType) then
           ReadRecord_loop (r\<lparr>rd_resyncing := False\<rparr>) scratch in_fragmented prospective fragment w
         else let r = r\<lparr>rd_resyncing := False\<rparr> in
         if t = word_of_nat (RecordType_code kFullType) then
           let w = (if in_fragmented \<and> scratch \<noteq> [] then ReportCorruption r ssize (str ''partial record without end(1)'') w else w)
           in Some (True, fragment, r\<lparr>rd_last_record_offset := physical\<rparr>, w)
         else if t = word_of_nat (RecordType_code kFirstType) then
           let w = (if in_fragmented \<and> scratch \<noteq> [] then ReportCorruption r ssize (str ''partial record without end(2)'') w else w)
           in ReadRecord_loop r fragment True physical fragment w
         else if t = word_of_nat (RecordType_code kMiddleType) then
           if \<not> in_fragmented then
             ReadRecord_loop r scratch in_fragmented prospective fragment
               (ReportCorruption r fsize (str ''missing start of fragmented record(1)'') w)
           else ReadRecord_loop r (scratch @ fragment) in_fragmented prospective fragment w
         else if t = word_of_nat (RecordType_code kLastType) then
           if \<not> in_fragmented then
             ReadRecord_loop r scratch in_fragmented prospective fragment
               (ReportCorruption r fsize (str ''missing start of fragmented record(2)'') w)
           else Some (True, scratch @ fragment, r\<lparr>rd_last_record_offset := prospective\<rparr>, w)
         else if t = kEof then Some (False, [], r, w)
         else if t = kBadRecord then
           if in_fragmented then
             ReadRecord_loop r [] False prospective fragment (ReportCorruption r ssize (str ''error in middle of record'') w)
           else ReadRecord_loop r scratch in_fragmented prospective fragment w
         else
           ReadRecord_loop r [] False prospective fragment
             (ReportCorruption r (fsize + (if in_fragmented then ssize else 0)) (unknown_type_message t) w))"

definition ReadRecord :: "'w Reader \<Rightarrow> 'w \<Rightarrow> (bool \<times> slice \<times> 'w Reader \<times> 'w) option" where
  "ReadRecord r w =
     (if rd_last_record_offset r < rd_initial_offset r then
        case SkipToInitialBlock r w of (good, r, w) \<Rightarrow>
          if \<not> good then Some (False, [], r, w) else ReadRecord_loop r [] False 0 [] w
      else ReadRecord_loop r [] False 0 [] w)"

definition LastRecordOffset :: "'w Reader \<Rightarrow> u64" where
  "LastRecordOffset r = rd_last_record_offset r"

text \<open>The loop every user of a reader runs: read until \<open>ReadRecord\<close> returns false.\<close>

partial_function (option) ReadAll :: "'w Reader \<Rightarrow> 'w \<Rightarrow> (slice list \<times> 'w) option" where
  "ReadAll r w =
     (case ReadRecord r w of
        None \<Rightarrow> None
      | Some (got, d, r, w) \<Rightarrow>
          if got then Option.bind (ReadAll r w) (\<lambda>(ds, w). Some (d # ds, w)) else Some ([], w))"

text \<open>The records of a log that end within its first \<open>k\<close> bytes.\<close>

fun log_complete :: "nat \<Rightarrow> nat \<Rightarrow> slice list \<Rightarrow> slice list" where
  "log_complete k p [] = []"
| "log_complete k p (d # ds) =
     (let q = p + length (frags_bytes (record_frags p True d)) in if q \<le> k then d # log_complete k q ds else [])"

section \<open>Reading one fragment\<close>

lemma length_field:
  assumes "n < 65536"
  shows "unat ((ucast (word_of_nat (n mod 256) :: byte) AND 0xff :: u32) OR push_bit 8 (ucast (word_of_nat (n div 256) :: byte) AND 0xff)) = n"
proof -
  let ?a = "ucast (word_of_nat (n mod 256) :: byte) AND 0xff :: u32" and ?b = "ucast (word_of_nat (n div 256) :: byte) AND 0xff :: u32"
  have a: "unat ?a = n mod 256"
    using unat_and_mask [of "ucast (word_of_nat (n mod 256) :: byte) :: u32" 8]
    by (simp add: mask_literals unat_ucast_up unat_word_of_nat_small)
  have b: "unat ?b = n div 256"
    using unat_and_mask [of "ucast (word_of_nat (n div 256) :: byte) :: u32" 8] assms
    by (simp add: mask_literals unat_ucast_up unat_word_of_nat_small div_less_iff_less_mult)
  show ?thesis
    using unat_or_push_bit [of ?a 8 ?b] a b assms by simp
qed

lemma type_field: "(scast (word_of_nat (RecordType_code t) :: byte) :: u32) = word_of_nat (RecordType_code t)"
  by (cases t) simp_all

lemma header_prefix:
  assumes "take 6 buf = take 6 (record_header t d)"
  shows "buf ! 4 = word_of_nat (length d mod 256)" "buf ! 5 = word_of_nat (length d div 256)"
    "DecodeFixed32 buf = crc_Mask (crc_Extend 0 (type_crc t) d)"
proof -
  have len: "length (EncodeFixed32 v) = 4" for v
    by (simp add: EncodeFixed32_le)
  have buf: "buf = take 6 (record_header t d) @ drop 6 buf"
    using assms append_take_drop_id [of 6 buf] by simp
  show "buf ! 4 = word_of_nat (length d mod 256)" "buf ! 5 = word_of_nat (length d div 256)"
    "DecodeFixed32 buf = crc_Mask (crc_Extend 0 (type_crc t) d)"
    by (subst buf, simp add: record_header_def Let_def nth_append len)+
qed

lemma header_take: "take kHeaderSize buf = record_header t d \<Longrightarrow> take 6 buf = take 6 (record_header t d)"
  by (drule sym) (simp add: kHeaderSize_def)

lemma header_type:
  assumes "take kHeaderSize buf = record_header t d"
  shows "buf ! 6 = word_of_nat (RecordType_code t)"
proof -
  have "buf ! 6 = take kHeaderSize buf ! 6"
    by (simp add: kHeaderSize_def)
  then show ?thesis
    by (simp add: assms record_header_def Let_def nth_append EncodeFixed32_le)
qed

lemma header_length:
  assumes "take 6 buf = take 6 (record_header t d)" and "length d \<le> 32761"
  shows "unat ((ucast (buf ! 4) AND 0xff :: u32) OR push_bit 8 (ucast (buf ! 5) AND 0xff)) = length d"
  unfolding header_prefix [OF assms(1)] by (rule length_field) (use assms(2) in simp)

lemma ParsePhysicalRecord_complete:
  assumes "rd_buffer r = record_header t d @ d @ x" and "length d \<le> 32761" and "t \<noteq> kZeroType" and "rd_initial_offset r = 0"
  shows "ParsePhysicalRecord r res w = (word_of_nat (RecordType_code t), d, r\<lparr>rd_buffer := x\<rparr>, w)"
proof -
  have hd: "take kHeaderSize (rd_buffer r) = record_header t d"
    by (simp add: assms(1))
  have payload: "drop kHeaderSize (rd_buffer r) = d @ x"
    by (simp add: assms(1))
  have "drop 6 (rd_buffer r) = rd_buffer r ! 6 # drop kHeaderSize (rd_buffer r)"
    using assms(1) by (subst Cons_nth_drop_Suc [symmetric]) (simp_all add: kHeaderSize_def)
  then have body: "take (1 + length d) (drop 6 (rd_buffer r)) = word_of_nat (RecordType_code t) # d"
    by (simp add: payload header_type [OF hd])
  have rest: "drop (kHeaderSize + length d) (rd_buffer r) = x" "length (rd_buffer r) = kHeaderSize + length d + length x"
    by (simp_all add: assms(1))
  have "word_of_nat (RecordType_code t) \<noteq> (0 :: u32)"
    using assms(3) by (cases t) simp_all
  then show ?thesis
    unfolding ParsePhysicalRecord_def Let_def header_length [OF header_take [OF hd] assms(2)]
      header_type [OF hd] header_prefix(3) [OF header_take [OF hd]] type_field body rest payload
    using assms(4) by (simp add: crc_Unmask_Mask type_crc_def crc_Value_Cons [where ?a3.0 = 0])
qed

lemma ParsePhysicalRecord_truncated:
  assumes "take kHeaderSize (rd_buffer r) = record_header t d" and "length d \<le> 32761"
    and "length (rd_buffer r) < kHeaderSize + length d" and "rd_eof r"
  shows "ParsePhysicalRecord r res w = (kEof, res, r\<lparr>rd_buffer := []\<rparr>, w)"
  unfolding ParsePhysicalRecord_def Let_def header_length [OF header_take [OF assms(1)] assms(2)] using assms(3,4) by simp

lemma mod_before_block:
  assumes "p < b * kBlockSize" and "b * kBlockSize \<le> p + kBlockSize"
  shows "p mod kBlockSize = kBlockSize - (b * kBlockSize - p)"
proof -
  obtain b' where b: "b = Suc b'"
    using assms(1) by (cases b) auto
  let ?m = "kBlockSize - (b * kBlockSize - p)"
  have "p = ?m + b' * kBlockSize" "?m < kBlockSize"
    using assms kBlockSize_pos unfolding b mult_Suc by linarith+
  then show ?thesis
    by (metis mod_less mod_mult_self1)
qed

lemma record_start_block:
  assumes "p \<le> b * kBlockSize" and "b * kBlockSize \<le> p + kBlockSize"
  shows "kHeaderSize \<le> b * kBlockSize - p \<Longrightarrow> record_start p = p \<and> kHeaderSize + room p = b * kBlockSize - p"
    and "b * kBlockSize - p < kHeaderSize \<Longrightarrow> record_start p = b * kBlockSize"
proof -
  assume *: "kHeaderSize \<le> b * kBlockSize - p"
  then have m: "p mod kBlockSize = kBlockSize - (b * kBlockSize - p)"
    using assms by (intro mod_before_block) (simp_all add: kHeaderSize_def)
  then have "record_start p = p"
    using * assms(2) by (auto simp: record_start_def)
  then show "record_start p = p \<and> kHeaderSize + room p = b * kBlockSize - p"
    using record_start_room [of p] m assms by simp
next
  assume *: "b * kBlockSize - p < kHeaderSize"
  show "record_start p = b * kBlockSize"
  proof (cases "p = b * kBlockSize")
    case True
    then show ?thesis
      by (simp add: record_start_def)
  next
    case False
    with assms * show ?thesis
      using mod_before_block [of p b] by (simp add: record_start_def)
  qed
qed

section \<open>The loop on each kind of fragment\<close>

lemma ReadRecord_loop_steps:
  assumes "ReadPhysicalRecord r fr w = (t, d, r1, w1)" and "\<not> rd_resyncing r1"
  shows "t = word_of_nat (RecordType_code kFullType) \<Longrightarrow> \<not> fgm \<Longrightarrow> ReadRecord_loop r scr fgm pr fr w =
      Some (True, d, r1\<lparr>rd_last_record_offset := rd_end_of_buffer_offset r1 - buffer_size r1 - word_of_nat kHeaderSize - word_of_nat (length d)\<rparr>, w1)"
    and "t = word_of_nat (RecordType_code kFirstType) \<Longrightarrow> \<not> fgm \<Longrightarrow> ReadRecord_loop r scr fgm pr fr w =
      ReadRecord_loop r1 d True (rd_end_of_buffer_offset r1 - buffer_size r1 - word_of_nat kHeaderSize - word_of_nat (length d)) d w1"
    and "t = word_of_nat (RecordType_code kMiddleType) \<Longrightarrow> fgm \<Longrightarrow> ReadRecord_loop r scr fgm pr fr w =
      ReadRecord_loop r1 (scr @ d) True pr d w1"
    and "t = word_of_nat (RecordType_code kLastType) \<Longrightarrow> fgm \<Longrightarrow> ReadRecord_loop r scr fgm pr fr w =
      Some (True, scr @ d, r1\<lparr>rd_last_record_offset := pr\<rparr>, w1)"
    and "t = kEof \<Longrightarrow> ReadRecord_loop r scr fgm pr fr w = Some (False, [], r1, w1)"
proof -
  have [simp]: "r1\<lparr>rd_resyncing := False\<rparr> = r1"
    using assms(2) by (cases r1) simp
  note [simp] = assms Let_def kEof_def kMaxRecordType_def
  show "t = word_of_nat (RecordType_code kFullType) \<Longrightarrow> \<not> fgm \<Longrightarrow> ReadRecord_loop r scr fgm pr fr w =
      Some (True, d, r1\<lparr>rd_last_record_offset := rd_end_of_buffer_offset r1 - buffer_size r1 - word_of_nat kHeaderSize - word_of_nat (length d)\<rparr>, w1)"
    by (subst ReadRecord_loop.simps) simp
  show "t = word_of_nat (RecordType_code kFirstType) \<Longrightarrow> \<not> fgm \<Longrightarrow> ReadRecord_loop r scr fgm pr fr w =
      ReadRecord_loop r1 d True (rd_end_of_buffer_offset r1 - buffer_size r1 - word_of_nat kHeaderSize - word_of_nat (length d)) d w1"
    by (subst ReadRecord_loop.simps) simp
  show "t = word_of_nat (RecordType_code kMiddleType) \<Longrightarrow> fgm \<Longrightarrow> ReadRecord_loop r scr fgm pr fr w =
      ReadRecord_loop r1 (scr @ d) True pr d w1"
    by (subst ReadRecord_loop.simps) simp
  show "t = word_of_nat (RecordType_code kLastType) \<Longrightarrow> fgm \<Longrightarrow> ReadRecord_loop r scr fgm pr fr w =
      Some (True, scr @ d, r1\<lparr>rd_last_record_offset := pr\<rparr>, w1)"
    by (subst ReadRecord_loop.simps) simp
  show "t = kEof \<Longrightarrow> ReadRecord_loop r scr fgm pr fr w = Some (False, [], r1, w1)"
    by (subst ReadRecord_loop.simps) simp
qed

context sequential_file
begin

definition reader_at :: "slice \<Rightarrow> nat \<Rightarrow> 'w Reader \<Rightarrow> 'w \<Rightarrow> bool" where
  "reader_at F p r w \<longleftrightarrow> rd_file r = sf \<and> rd_initial_offset r = 0 \<and> \<not> rd_resyncing r \<and> p \<le> length F \<and>
     (\<exists>b. rest w = drop (b * kBlockSize) F \<and> rd_buffer r = take (b * kBlockSize - p) (drop p F) \<and>
       p \<le> b * kBlockSize \<and> b * kBlockSize \<le> p + kBlockSize \<and> rd_eof r = (length F < b * kBlockSize))"

text \<open>A complete fragment at a position, and a position at which the file ends before a fragment does.\<close>

definition complete_at :: "slice \<Rightarrow> nat \<Rightarrow> RecordType \<Rightarrow> slice \<Rightarrow> bool" where
  "complete_at F p t d \<longleftrightarrow>
     (\<exists>x. drop (record_start p) F = record_header t d @ d @ x) \<and> length d \<le> room p \<and> t \<noteq> kZeroType"

definition cut_at :: "slice \<Rightarrow> nat \<Rightarrow> bool" where
  "cut_at F p \<longleftrightarrow> length F < record_start p + kHeaderSize \<or>
     (\<exists>t d. take kHeaderSize (drop (record_start p) F) = record_header t d \<and> length d \<le> room p \<and>
       length F < record_start p + kHeaderSize + length d)"

lemma refill:
  assumes ok: "\<And>w. ok (fst (sf_Read sf kBlockSize w))"
    and at: "reader_at F p r w" and short: "length (rd_buffer r) < kHeaderSize" and "\<not> rd_eof r"
  obtains r' w' where "\<And>rep res. ReadPhysicalRecord (r\<lparr>rd_reporter := rep\<rparr>) res w = ReadPhysicalRecord (r'\<lparr>rd_reporter := rep\<rparr>) res w'"
    and "reader_at F (record_start p) r' w'" and "rd_eof r' \<or> kHeaderSize \<le> length (rd_buffer r')"
    and "record_start (record_start p) = record_start p" and "record_start p \<le> length F"
proof -
  from at obtain b where b: "rest w = drop (b * kBlockSize) F" "rd_buffer r = take (b * kBlockSize - p) (drop p F)"
    "p \<le> b * kBlockSize" "b * kBlockSize \<le> p + kBlockSize" and eof: "b * kBlockSize \<le> length F"
    using \<open>\<not> rd_eof r\<close> by (auto simp: reader_at_def)
  have q: "record_start p = b * kBlockSize"
    using short b eof by (intro record_start_block(2)) auto
  obtain s buf w' where rd: "sf_Read sf kBlockSize w = (s, buf, w')"
    by (cases "sf_Read sf kBlockSize w")
  with ok [of w] have s: "ok s"
    by simp
  have buf: "buf = take kBlockSize (drop (b * kBlockSize) F)" "rest w' = drop (Suc b * kBlockSize) F"
    using read_law [OF _ rd s] b(1) by (simp_all add: kBlockSize_def add.commute)
  define r' where "r' = r\<lparr>rd_buffer := buf, rd_eof := (length buf < kBlockSize),
    rd_end_of_buffer_offset := rd_end_of_buffer_offset r + word_of_nat (length buf)\<rparr>"
  show thesis
  proof (rule that [of r' w'])
    have fl: "rd_file r = sf"
      using at by (simp add: reader_at_def)
    show "ReadPhysicalRecord (r\<lparr>rd_reporter := rep\<rparr>) res w = ReadPhysicalRecord (r'\<lparr>rd_reporter := rep\<rparr>) res w'" for rep res
      using short \<open>\<not> rd_eof r\<close> s
      by (subst ReadPhysicalRecord.simps) (auto simp: rd fl Let_def r'_def intro!: arg_cong3 [of _ _ _ _ _ _ ReadPhysicalRecord])
    show "reader_at F (record_start p) r' w'"
      using at eof buf by (auto simp: reader_at_def q r'_def intro!: exI [of _ "Suc b"])
    show "rd_eof r' \<or> kHeaderSize \<le> length (rd_buffer r')"
      by (auto simp: r'_def log_consts)
    show "record_start (record_start p) = record_start p" "record_start p \<le> length F"
      unfolding q using eof by (simp_all add: record_start_def)
  qed
qed

lemma readyE:
  assumes at: "reader_at F p r w" and full: "kHeaderSize \<le> length (rd_buffer r)"
  obtains b where "rest w = drop (b * kBlockSize) F" "rd_buffer r = take (b * kBlockSize - p) (drop p F)"
    "p \<le> b * kBlockSize" "b * kBlockSize \<le> p + kBlockSize" "rd_eof r = (length F < b * kBlockSize)"
    "record_start p = p" "kHeaderSize + room p = b * kBlockSize - p"
proof -
  from at obtain b where b: "rest w = drop (b * kBlockSize) F" "rd_buffer r = take (b * kBlockSize - p) (drop p F)"
    "p \<le> b * kBlockSize" "b * kBlockSize \<le> p + kBlockSize" "rd_eof r = (length F < b * kBlockSize)"
    by (auto simp: reader_at_def)
  have "kHeaderSize \<le> b * kBlockSize - p"
    using full b(2) by simp
  from record_start_block(1) [OF b(3,4) this] b that show thesis
    by blast
qed

lemma read_complete_ready:
  assumes at: "reader_at F p r w" and full: "kHeaderSize \<le> length (rd_buffer r)" and "complete_at F p t d"
  obtains r' where "\<And>rep res. ReadPhysicalRecord (r\<lparr>rd_reporter := rep\<rparr>) res w = (word_of_nat (RecordType_code t), d, r'\<lparr>rd_reporter := rep\<rparr>, w)"
    and "reader_at F (record_start p + kHeaderSize + length d) r' w"
proof -
  from at have r: "rd_initial_offset r = 0" "p \<le> length F"
    by (auto simp: reader_at_def)
  obtain b where b: "rest w = drop (b * kBlockSize) F" "rd_buffer r = take (b * kBlockSize - p) (drop p F)"
    "p \<le> b * kBlockSize" "b * kBlockSize \<le> p + kBlockSize" "rd_eof r = (length F < b * kBlockSize)"
    and p: "record_start p = p" "kHeaderSize + room p = b * kBlockSize - p"
    by (rule readyE [OF at full])
  from assms(3) p obtain x where x: "drop p F = record_header t d @ d @ x" and d: "length d \<le> room p" "t \<noteq> kZeroType"
    by (auto simp: complete_at_def)
  define x' where "x' = take (b * kBlockSize - p - kHeaderSize - length d) x"
  have buf: "rd_buffer r = record_header t d @ d @ x'"
    using p d unfolding b(2) x by (simp add: x'_def)
  have "length F - p = kHeaderSize + length d + length x"
    using arg_cong [OF x, of length] by simp
  then have len: "p + (kHeaderSize + length d) \<le> length F"
    using r(2) by simp
  have "drop (p + (kHeaderSize + length d)) F = drop (kHeaderSize + length d) (drop p F)"
    by (simp add: add.commute)
  then have next_drop: "drop (p + (kHeaderSize + length d)) F = x"
    by (simp add: x)
  show thesis
  proof (rule that [of "r\<lparr>rd_buffer := x'\<rparr>"])
    have "length d \<le> 32761"
      using d(1) room_le [of p] by simp
    then show "ReadPhysicalRecord (r\<lparr>rd_reporter := rep\<rparr>) res w = (word_of_nat (RecordType_code t), d, (r\<lparr>rd_buffer := x'\<rparr>)\<lparr>rd_reporter := rep\<rparr>, w)" for rep res
      using full buf d(2) r(1)
      by (subst ReadPhysicalRecord.simps) (simp add: ParsePhysicalRecord_complete [of "r\<lparr>rd_reporter := rep\<rparr>" t d x'])
    show "reader_at F (record_start p + kHeaderSize + length d) (r\<lparr>rd_buffer := x'\<rparr>) w"
      using at b p d len next_drop by (auto simp: reader_at_def x'_def add.assoc diff_diff_add intro!: exI [of _ b])
  qed
qed

lemma read_complete:
  assumes ok: "\<And>w. ok (fst (sf_Read sf kBlockSize w))" and at: "reader_at F p r w" and c: "complete_at F p t d"
  obtains r' w' where "\<And>rep res. ReadPhysicalRecord (r\<lparr>rd_reporter := rep\<rparr>) res w = (word_of_nat (RecordType_code t), d, r'\<lparr>rd_reporter := rep\<rparr>, w')"
    and "reader_at F (record_start p + kHeaderSize + length d) r' w'"
proof (cases "kHeaderSize \<le> length (rd_buffer r)")
  case True
  then show thesis
    using read_complete_ready [OF at True c] that by metis
next
  case False
  obtain x where "drop (record_start p) F = record_header t d @ d @ x"
    using c by (auto simp: complete_at_def)
  from arg_cong [OF this, of length] have "length F - record_start p = kHeaderSize + length d + length x"
    by simp
  then have len: "record_start p + kHeaderSize \<le> length F"
    using header_fits(1) by linarith
  have "\<not> rd_eof r"
    using at False len record_start_ge [of p] by (auto simp: reader_at_def)
  with False obtain r1 w1 where r1: "\<And>rep res. ReadPhysicalRecord (r\<lparr>rd_reporter := rep\<rparr>) res w = ReadPhysicalRecord (r1\<lparr>rd_reporter := rep\<rparr>) res w1"
    "reader_at F (record_start p) r1 w1" "rd_eof r1 \<or> kHeaderSize \<le> length (rd_buffer r1)"
    "record_start (record_start p) = record_start p"
    using refill [OF ok at] by (metis not_le)
  have full: "kHeaderSize \<le> length (rd_buffer r1)"
    using r1(2,3) len by (auto simp: reader_at_def)
  have "complete_at F (record_start p) t d"
    using c by (simp add: complete_at_def room_def r1(4))
  from read_complete_ready [OF r1(2) full this] r1(1,4) that show thesis
    by metis
qed

lemma read_cut_ready:
  assumes at: "reader_at F p r w" and full: "kHeaderSize \<le> length (rd_buffer r) \<or> rd_eof r" and c: "cut_at F p"
  shows "ReadPhysicalRecord (r\<lparr>rd_reporter := rep\<rparr>) res w = (kEof, res, (r\<lparr>rd_buffer := []\<rparr>)\<lparr>rd_reporter := rep\<rparr>, w)"
proof (cases "kHeaderSize \<le> length (rd_buffer r)")
  case True
  obtain b where b: "rd_buffer r = take (b * kBlockSize - p) (drop p F)" "p \<le> b * kBlockSize" "rd_eof r = (length F < b * kBlockSize)"
    and p: "record_start p = p" "kHeaderSize + room p = b * kBlockSize - p"
    by (rule readyE [OF at True])
  have "kHeaderSize \<le> length F - p"
    using True b(1) by simp
  then have "\<not> length F < record_start p + kHeaderSize"
    unfolding p(1) using header_fits(1) by linarith
  with c p obtain t d where d: "take kHeaderSize (drop p F) = record_header t d" "length d \<le> room p" "length F < p + kHeaderSize + length d"
    by (auto simp: cut_at_def)
  have eof: "rd_eof r" and buf: "rd_buffer r = drop p F"
    using b p d by simp_all
  have "length (rd_buffer r) < kHeaderSize + length d"
    unfolding buf length_drop using d(3) header_fits(1) by linarith
  moreover have "length d \<le> 32761"
    using d(2) room_le [of p] by simp
  ultimately have "ParsePhysicalRecord (r\<lparr>rd_reporter := rep\<rparr>) res w = (kEof, res, (r\<lparr>rd_reporter := rep\<rparr>)\<lparr>rd_buffer := []\<rparr>, w)"
    using d eof buf True by (intro ParsePhysicalRecord_truncated [of _ t d]) auto
  then show ?thesis
    using True by (subst ReadPhysicalRecord.simps) simp
next
  case False
  with full show ?thesis
    by (subst ReadPhysicalRecord.simps) simp
qed

lemma read_cut:
  assumes ok: "\<And>w. ok (fst (sf_Read sf kBlockSize w))" and at: "reader_at F p r w" and c: "cut_at F p"
  obtains r' w' where "\<And>rep res. ReadPhysicalRecord (r\<lparr>rd_reporter := rep\<rparr>) res w = (kEof, res, r'\<lparr>rd_reporter := rep\<rparr>, w')"
    and "\<not> rd_resyncing r'"
proof (cases "kHeaderSize \<le> length (rd_buffer r) \<or> rd_eof r")
  case True
  from read_cut_ready [OF at True c] at show thesis
    by (intro that [of "r\<lparr>rd_buffer := []\<rparr>" w]) (simp_all add: reader_at_def)
next
  case False
  obtain r1 w1 where r1: "\<And>rep res. ReadPhysicalRecord (r\<lparr>rd_reporter := rep\<rparr>) res w = ReadPhysicalRecord (r1\<lparr>rd_reporter := rep\<rparr>) res w1"
    "reader_at F (record_start p) r1 w1" "rd_eof r1 \<or> kHeaderSize \<le> length (rd_buffer r1)"
    "record_start (record_start p) = record_start p"
    using refill [OF ok at] False by (metis not_le)
  have "cut_at F (record_start p)"
    using c by (simp add: cut_at_def room_def r1(4))
  from read_cut_ready [OF r1(2) _ this] r1(1,2,3) show thesis
    by (intro that [of "r1\<lparr>rd_buffer := []\<rparr>" w1]) (auto simp: reader_at_def)
qed

lemma frag_cases:
  assumes "drop p F = take m (frag_bytes (record_start p - p, t, d) @ y)" and "length d \<le> room p" and "t \<noteq> kZeroType" and "p \<le> length F"
  shows "record_start p + kHeaderSize + length d \<le> length F \<Longrightarrow> complete_at F p t d \<and>
      drop (record_start p + kHeaderSize + length d) F = take (m - length (frag_bytes (record_start p - p, t, d))) y"
    and "\<not> record_start p + kHeaderSize + length d \<le> length F \<Longrightarrow> cut_at F p"
proof -
  define pad where "pad = record_start p - p"
  have q: "record_start p = p + pad"
    using record_start_ge [of p] by (simp add: pad_def)
  have "drop (record_start p) F = drop pad (drop p F)"
    by (simp add: q add.commute)
  then have dr: "drop (record_start p) F = take (m - pad) (record_header t d @ d @ y)"
    unfolding assms(1) drop_take by (simp add: frag_bytes_def flip: pad_def)
  have len: "length F - p = min m (pad + kHeaderSize + length d + length y)"
    using arg_cong [OF assms(1), of length] unfolding length_drop length_take
    by (simp add: length_frag_bytes pad_def add.assoc min.commute)
  show "complete_at F p t d \<and>
      drop (record_start p + kHeaderSize + length d) F = take (m - length (frag_bytes (record_start p - p, t, d))) y"
    if "record_start p + kHeaderSize + length d \<le> length F"
  proof -
    have m: "pad + kHeaderSize + length d \<le> m"
      using that len q by simp
    then have dr': "drop (record_start p) F = record_header t d @ d @ take (m - pad - kHeaderSize - length d) y"
      using dr by simp
    have "drop (record_start p + kHeaderSize + length d) F = drop (kHeaderSize + length d) (drop (record_start p) F)"
      by (simp add: add.commute add.left_commute)
    also have "\<dots> = take (m - pad - kHeaderSize - length d) y"
      unfolding dr' by simp
    finally show ?thesis
      using dr' assms(2,3) by (auto simp: complete_at_def length_frag_bytes pad_def)
  qed
  show "cut_at F p" if "\<not> record_start p + kHeaderSize + length d \<le> length F"
  proof (cases "m - pad < kHeaderSize")
    case True
    then have "length F < record_start p + kHeaderSize"
      using len q assms(4) by simp
    then show ?thesis
      by (simp add: cut_at_def)
  next
    case False
    then have "take kHeaderSize (drop (record_start p) F) = record_header t d"
      unfolding dr by simp
    then show ?thesis
      unfolding cut_at_def using that assms(2) by (intro disjI2 exI [of _ t] exI [of _ d]) simp
  qed
qed

text \<open>
  One logical record: the loop returns it when all of its fragments are there, and reports the end
  of the file otherwise.
\<close>

definition reads_as :: "slice \<Rightarrow> slice \<Rightarrow> nat \<Rightarrow> nat \<Rightarrow> slice \<Rightarrow> ((u64 \<Rightarrow> status \<Rightarrow> 'w \<Rightarrow> 'w) option \<Rightarrow> (bool \<times> slice \<times> 'w Reader \<times> 'w) option) \<Rightarrow> bool" where
  "reads_as F data q m y run \<longleftrightarrow>
     (if q \<le> length F
      then \<exists>r' w'. (\<forall>rep. run rep = Some (True, data, r'\<lparr>rd_reporter := rep\<rparr>, w')) \<and> reader_at F q r' w' \<and> drop q F = take m y
      else \<exists>r' w'. \<forall>rep. run rep = Some (False, [], r'\<lparr>rd_reporter := rep\<rparr>, w'))"

lemma fragment_type_not_zero: "fragment_type b e \<noteq> kZeroType"
  by (simp add: fragment_type_def)

lemma reader_at_last [simp]: "reader_at F q (r\<lparr>rd_last_record_offset := x\<rparr>) w = reader_at F q r w"
  by (simp add: reader_at_def)

lemma reporter_last: "r\<lparr>rd_reporter := rep, rd_last_record_offset := x\<rparr> = r\<lparr>rd_last_record_offset := x, rd_reporter := rep\<rparr>"
  by (cases r) simp

lemma read_frag:
  assumes ok: "\<And>w. ok (fst (sf_Read sf kBlockSize w))" and at: "reader_at F p r w"
    and dr: "drop p F = take m (frag_bytes (record_start p - p, t, d) @ y)" and d: "length d \<le> room p" "t \<noteq> kZeroType"
    and q: "q = p + length (frag_bytes (record_start p - p, t, d))"
  obtains (complete) r1 w1 where "q \<le> length F" "reader_at F q r1 w1" "drop q F = take (m - (q - p)) y"
      "\<And>rep res. ReadPhysicalRecord (r\<lparr>rd_reporter := rep\<rparr>) res w = (word_of_nat (RecordType_code t), d, r1\<lparr>rd_reporter := rep\<rparr>, w1)"
      "\<And>rep. \<not> rd_resyncing (r1\<lparr>rd_reporter := rep\<rparr>)"
  | (cut) r1 w1 where "\<not> q \<le> length F"
      "\<And>rep res. ReadPhysicalRecord (r\<lparr>rd_reporter := rep\<rparr>) res w = (kEof, res, r1\<lparr>rd_reporter := rep\<rparr>, w1)"
      "\<And>rep. \<not> rd_resyncing (r1\<lparr>rd_reporter := rep\<rparr>)"
proof -
  have pl: "p \<le> length F"
    using at by (simp add: reader_at_def)
  have q': "q = record_start p + kHeaderSize + length d"
    using record_start_ge [of p] by (simp add: length_frag_bytes q)
  show thesis
  proof (cases "q \<le> length F")
    case True
    then have c: "complete_at F p t d" "drop q F = take (m - (q - p)) y"
      using frag_cases(1) [OF dr d pl, folded q'] by (simp_all add: q)
    obtain r1 w1 where "\<And>rep res. ReadPhysicalRecord (r\<lparr>rd_reporter := rep\<rparr>) res w = (word_of_nat (RecordType_code t), d, r1\<lparr>rd_reporter := rep\<rparr>, w1)"
      and "reader_at F q r1 w1"
      using read_complete [OF ok at c(1)] unfolding q' by metis
    with c(2) True complete show thesis
      by (simp add: reader_at_def)
  next
    case False
    then have "cut_at F p"
      using frag_cases(2) [OF dr d pl, folded q'] by simp
    then obtain r1 w1 where "\<And>rep res. ReadPhysicalRecord (r\<lparr>rd_reporter := rep\<rparr>) res w = (kEof, res, r1\<lparr>rd_reporter := rep\<rparr>, w1)"
      and "\<not> rd_resyncing r1"
      using read_cut [OF ok at] by metis
    with False cut show thesis
      by simp
  qed
qed

lemma ReadRecord_loop_record:
  assumes ok: "\<And>w. ok (fst (sf_Read sf kBlockSize w))"
    and "reader_at F p r w" and "drop p F = take m (frags_bytes (record_frags p b d) @ y)" and "fgm = (\<not> b)"
  shows "reads_as F (if b then d else scr @ d) (p + length (frags_bytes (record_frags p b d)))
      (m - length (frags_bytes (record_frags p b d))) y
      (\<lambda>rep. ReadRecord_loop (r\<lparr>rd_reporter := rep\<rparr>) scr fgm pr fr w)"
  using assms(2-)
proof (induction p b d arbitrary: r w m scr fgm pr fr rule: record_frags.induct)
  case (1 p b d)
  define n where "n = min (length d) (room p)"
  define t where "t = fragment_type b (length d \<le> room p)"
  define fs where "fs = (if length d \<le> room p then [] else record_frags (record_start p + kHeaderSize + room p) False (drop (room p) d))"
  define q where "q = p + length (frag_bytes (record_start p - p, t, take n d))"
  have fr: "record_frags p b d = (record_start p - p, t, take n d) # fs"
    by (subst record_frags.simps) (simp add: t_def fs_def n_def min_def)
  have pq: "p + length (frags_bytes (record_frags p b d)) = q + length (frags_bytes fs)"
    "m - length (frags_bytes (record_frags p b d)) = m - (q - p) - length (frags_bytes fs)"
    by (simp_all add: fr q_def)
  have dr: "drop p F = take m (frag_bytes (record_start p - p, t, take n d) @ frags_bytes fs @ y)"
    and tn: "length (take n d) \<le> room p" "t \<noteq> kZeroType"
    using 1(3) by (simp_all add: fr t_def fragment_type_not_zero n_def)
  show ?case
  proof (rule read_frag [OF ok 1(2) dr tn q_def], goal_cases complete cut)
    case (complete r1 w1)
    note steps = ReadRecord_loop_steps [OF complete(4,5)]
    define off where "off = (if b then rd_end_of_buffer_offset r1 - buffer_size r1 - word_of_nat kHeaderSize - word_of_nat (length (take n d)) else pr)"
    show ?thesis
    proof (cases "length d \<le> room p")
      case last: True
      then have fs: "fs = []" and nd: "n = length d" and t: "t = (if b then kFullType else kLastType)"
        by (simp_all add: fs_def n_def t_def fragment_type_def)
      have "ReadRecord_loop (r\<lparr>rd_reporter := rep\<rparr>) scr fgm pr fr w =
          Some (True, if b then d else scr @ d, (r1\<lparr>rd_last_record_offset := off\<rparr>)\<lparr>rd_reporter := rep\<rparr>, w1)" for rep
        using 1(4) t nd by (cases b) (simp_all add: steps(1,4) off_def reporter_last)
      moreover have "reader_at F q (r1\<lparr>rd_last_record_offset := off\<rparr>) w1"
        using complete(2) by simp
      ultimately show ?thesis
        using complete(1,3) unfolding pq fs reads_as_def by fastforce
    next
      case more: False
      then have n: "n = room p" and t: "t = (if b then kFirstType else kMiddleType)"
        by (simp_all add: n_def t_def fragment_type_def min_def)
      have q: "q = record_start p + kHeaderSize + room p"
        using record_start_ge [of p] more by (simp add: q_def length_frag_bytes n)
      have fs: "fs = record_frags q False (drop n d)"
        using more by (simp add: fs_def q n)
      define scr' where "scr' = (if b then take n d else scr @ take n d)"
      have loop: "ReadRecord_loop (r\<lparr>rd_reporter := rep\<rparr>) scr fgm pr fr w = ReadRecord_loop (r1\<lparr>rd_reporter := rep\<rparr>) scr' True off (take n d) w1" for rep
        using 1(4) t by (cases b) (simp_all add: steps(2,3) scr'_def off_def)
      have "reads_as F (if False then drop n d else scr' @ drop n d) (q + length (frags_bytes fs)) (m - (q - p) - length (frags_bytes fs)) y
          (\<lambda>rep. ReadRecord_loop (r1\<lparr>rd_reporter := rep\<rparr>) scr' True off (take n d) w1)"
        using 1(1) [of r1 w1 "m - (q - p)" True scr' off "take n d"] more complete(2,3) fs unfolding q [symmetric] unfolding n [symmetric] by simp
      moreover have "scr' @ drop n d = (if b then d else scr @ d)"
        by (simp add: scr'_def)
      ultimately show ?thesis
        unfolding pq by (simp only: loop if_False)
    qed
  next
    case (cut r1 w1)
    have "ReadRecord_loop (r\<lparr>rd_reporter := rep\<rparr>) scr fgm pr fr w = Some (False, [], r1\<lparr>rd_reporter := rep\<rparr>, w1)" for rep
      using cut by (intro ReadRecord_loop_steps(5)) simp_all
    then show ?thesis
      using cut(1) unfolding pq reads_as_def by auto
  qed
qed

lemma ReadRecord_start: "reader_at F p r w \<Longrightarrow> ReadRecord (r\<lparr>rd_reporter := rep\<rparr>) w = ReadRecord_loop (r\<lparr>rd_reporter := rep\<rparr>) [] False 0 [] w"
  by (simp add: ReadRecord_def reader_at_def)

lemma ReadAll_log:
  assumes ok: "\<And>w. ok (fst (sf_Read sf kBlockSize w))"
    and "reader_at F p r w" and "drop p F = take m (frags_bytes (concat (log_frags p ds)))"
  shows "\<exists>w'. \<forall>rep. ReadAll (r\<lparr>rd_reporter := rep\<rparr>) w = Some (log_complete (length F) p ds, w')"
  using assms(2-)
proof (induction ds arbitrary: p r w m)
  case Nil
  then have "length F \<le> p"
    by simp
  then have "cut_at F p"
    unfolding cut_at_def using record_start_ge [of p] header_fits(1) by (intro disjI1) linarith
  then obtain r1 w1 where "\<And>rep res. ReadPhysicalRecord (r\<lparr>rd_reporter := rep\<rparr>) res w = (kEof, res, r1\<lparr>rd_reporter := rep\<rparr>, w1)" "\<not> rd_resyncing r1"
    using read_cut [OF ok Nil(1)] by metis
  then have "ReadRecord (r\<lparr>rd_reporter := rep\<rparr>) w = Some (False, [], r1\<lparr>rd_reporter := rep\<rparr>, w1)" for rep
    unfolding ReadRecord_start [OF Nil(1)] by (intro ReadRecord_loop_steps(5)) simp_all
  then show ?case
    by (subst ReadAll.simps) simp
next
  case (Cons d ds)
  define fs where "fs = record_frags p True d"
  define q where "q = p + length (frags_bytes fs)"
  have "reads_as F d q (m - length (frags_bytes fs)) (frags_bytes (concat (log_frags q ds)))
      (\<lambda>rep. ReadRecord (r\<lparr>rd_reporter := rep\<rparr>) w)"
    using ReadRecord_loop_record [OF ok Cons.prems(1), of m True d "frags_bytes (concat (log_frags q ds))" False "[]" 0 "[]"] Cons.prems(2)
    by (simp add: ReadRecord_start [OF Cons.prems(1)] Let_def q_def fs_def)
  show ?case
  proof (cases "q \<le> length F")
    case True
    with \<open>reads_as _ _ _ _ _ _\<close> obtain r1 w1 where r1: "\<forall>rep. ReadRecord (r\<lparr>rd_reporter := rep\<rparr>) w = Some (True, d, r1\<lparr>rd_reporter := rep\<rparr>, w1)"
      "reader_at F q r1 w1" "drop q F = take (m - length (frags_bytes fs)) (frags_bytes (concat (log_frags q ds)))"
      by (auto simp: reads_as_def)
    from Cons.IH [OF r1(2,3)] obtain w2 where "\<forall>rep. ReadAll (r1\<lparr>rd_reporter := rep\<rparr>) w1 = Some (log_complete (length F) q ds, w2)"
      by blast
    with r1(1) True show ?thesis
      by (subst ReadAll.simps) (auto simp: Let_def q_def fs_def)
  next
    case False
    with \<open>reads_as _ _ _ _ _ _\<close> show ?thesis
      by (subst ReadAll.simps) (auto simp: reads_as_def Let_def q_def fs_def)
  qed
qed

lemma reader_at_start: "rest w = F \<Longrightarrow> reader_at F 0 (new_Reader sf rep chk 0) w"
  by (auto simp: reader_at_def new_Reader_def intro!: exI [of _ 0])

end

lemma log_complete_all: "p + length (log_bytes p ds) \<le> k \<Longrightarrow> log_complete k p ds = ds"
  by (induction ds arbitrary: p) (auto simp: log_bytes_def Let_def)

lemma log_complete_min: "log_complete (min k (p + length (log_bytes p ds))) p ds = log_complete k p ds"
proof (induction ds arbitrary: p)
  case (Cons d ds)
  define q where "q = p + length (frags_bytes (record_frags p True d))"
  have "p + length (log_bytes p (d # ds)) = q + length (log_bytes q ds)"
    by (simp add: log_bytes_def Let_def q_def)
  with Cons [of q] show ?case
    by (simp add: Let_def flip: q_def)
qed simp

lemma ParsePhysicalRecord_corrupt:
  assumes "take 6 (rd_buffer r) = take 6 (record_header t d)" and "length d \<le> 32761"
    and "kHeaderSize + length d \<le> length (rd_buffer r)" and "rd_checksum r"
    and "crc_Value 0 (take (1 + length d) (drop 6 (rd_buffer r))) \<noteq> crc_Value 0 (word_of_nat (RecordType_code t) # d)"
  shows "\<exists>w'. ParsePhysicalRecord r res w = (kBadRecord, res, r\<lparr>rd_buffer := []\<rparr>, w') \<and>
    (d \<noteq> [] \<longrightarrow> w' = ReportCorruption (r\<lparr>rd_buffer := []\<rparr>) (word_of_nat (length (rd_buffer r))) (str ''checksum mismatch'') w)"
proof -
  have crc: "crc_Unmask (DecodeFixed32 (rd_buffer r)) = crc_Value 0 (word_of_nat (RecordType_code t) # d)"
    by (simp add: header_prefix(3) [OF assms(1)] crc_Unmask_Mask type_crc_def crc_Value_Cons [where ?a3.0 = 0])
  show ?thesis
    unfolding ParsePhysicalRecord_def Let_def header_length [OF assms(1,2)] crc using assms(3-5) by auto
qed

section \<open>Properties\<close>

text \<open>C1: a log written by any sequence of \<open>AddRecord\<close> calls on an empty file, cut off after any number
  of bytes \<open>k\<close> (a writer that died), is read back as exactly the records that are complete in it, in order;
  the reader then stops, and never calls its reporter (the outcome is the same for every reporter). A log that is
  not cut gives back every record.\<close>

theorem log_crash_safe:
  assumes "writable_file dest live contents" and "\<And>n w. live w \<Longrightarrow> n < kHeaderSize \<Longrightarrow> ok (fst (wf_Append dest (replicate n 0) w))"
    and "live w" and "contents w = []" and "AddRecords dest ds 0 w = (s, off, w')" and "ok s"
    and "sequential_file sf rest" and "\<And>v. ok (fst (sf_Read sf kBlockSize v))" and "rest v = take k (contents w')"
  shows "(\<exists>v'. \<forall>reporter. ReadAll (new_Reader sf reporter checksum 0) v = Some (log_complete k 0 ds, v')) \<and>
    (length (contents w') \<le> k \<longrightarrow> log_complete k 0 ds = ds)"
proof -
  have w': "contents w' = log_bytes 0 ds"
    using AddRecords_layout [OF assms(1-3) _ assms(5,6)] assms(4) by (simp add: offset_at_def)
  let ?F = "take k (log_bytes 0 ds)" and ?r = "new_Reader sf None checksum 0"
  have "sequential_file.reader_at sf rest ?F 0 ?r v"
    using assms(9) by (intro sequential_file.reader_at_start [OF assms(7)]) (simp add: w')
  from sequential_file.ReadAll_log [OF assms(7,8) this, of k ds]
  have "\<exists>v'. \<forall>reporter. ReadAll (?r\<lparr>rd_reporter := reporter\<rparr>) v = Some (log_complete (length ?F) 0 ds, v')"
    by (simp add: log_bytes_def)
  moreover have "?r\<lparr>rd_reporter := reporter\<rparr> = new_Reader sf reporter checksum 0" for reporter
    by (simp add: new_Reader_def)
  moreover have "log_complete (length ?F) 0 ds = log_complete k 0 ds"
    using log_complete_min [of k 0 ds] by (simp add: min.commute)
  ultimately show ?thesis
    using log_complete_all [of 0 ds k] w' by simp
qed

text \<open>C11: damage confined to at most four consecutive bytes of the type and payload of a physical record is
  always noticed: \<open>ReadPhysicalRecord\<close> with checksums on returns \<open>kBadRecord\<close>, drops the rest of the block so that
  no damaged byte is interpreted, and (unless the record was empty) reports a checksum mismatch.\<close>

theorem log_corruption_detected:
  assumes "word_of_nat (RecordType_code t) # d = a @ x @ b" and "length d \<le> 32761"
    and "length y = length x" and "length x \<le> 4" and "y \<noteq> x"
    and "rd_buffer r = take 6 (record_header t d) @ (a @ y @ b) @ tail" and "rd_checksum r"
  shows "\<exists>w'. ReadPhysicalRecord r res w = (kBadRecord, res, r\<lparr>rd_buffer := []\<rparr>, w') \<and>
    (d \<noteq> [] \<longrightarrow> w' = ReportCorruption (r\<lparr>rd_buffer := []\<rparr>) (word_of_nat (length (rd_buffer r))) (str ''checksum mismatch'') w)"
proof -
  have six: "length (take 6 (record_header t d)) = 6"
    by (simp add: kHeaderSize_def)
  have len: "length (a @ y @ b) = 1 + length d"
    using arg_cong [OF assms(1), of length] assms(3) by simp
  have body: "take (1 + length d) (drop 6 (rd_buffer r)) = a @ y @ b"
    unfolding assms(6) using take_drop_append_eq [OF six] take_drop_append_eq [OF len] by (simp only:)
  have "crc_Value 0 (a @ y @ b) \<noteq> crc_Value 0 (a @ x @ b)"
    using crc_detects_burst [OF assms(3), of "0xffffffff" a b] assms(3-5) by (auto simp: crc_Value_def crc_Extend_bytes xor_cancel)
  then have "crc_Value 0 (take (1 + length d) (drop 6 (rd_buffer r))) \<noteq> crc_Value 0 (word_of_nat (RecordType_code t) # d)"
    by (simp only: body assms(1) not_False_eq_True)
  moreover have "kHeaderSize + length d \<le> length (rd_buffer r)"
    using six len by (simp add: assms(6) kHeaderSize_def)
  moreover have "take 6 (rd_buffer r) = take 6 (record_header t d)"
    using six by (simp add: assms(6))
  ultimately show ?thesis
    using ParsePhysicalRecord_corrupt [of r t d res w] assms(2,7) by (subst (1) ReadPhysicalRecord.simps) simp
qed

definition demo_corrupt :: "unit Reader" where
  "demo_corrupt = (new_Reader undefined None True 0)\<lparr>rd_buffer := take 6 (record_header kFullType [7, 8, 9]) @ [1, 7] @ [0] @ [9] @ [5, 5]\<rparr>"

theorem log_corruption_detected_witness:
  "\<exists>w'. ReadPhysicalRecord demo_corrupt [] () = (kBadRecord, [], demo_corrupt\<lparr>rd_buffer := []\<rparr>, w') \<and>
    (([7, 8, 9] :: slice) \<noteq> [] \<longrightarrow> w' = ReportCorruption (demo_corrupt\<lparr>rd_buffer := []\<rparr>)
      (word_of_nat (length (rd_buffer demo_corrupt))) (str ''checksum mismatch'') ())"
  by (rule log_corruption_detected [of kFullType "[7, 8, 9]" "[1, 7]" "[8]" "[9]" "[0]" _ "[5, 5]"])
    (simp_all add: demo_corrupt_def new_Reader_def)

text \<open>Two records in the in-memory file system, the file cut after 12 of its 18 bytes.\<close>

definition demo_log :: slice where "demo_log = str ''log''"
definition demo_records :: "slice list" where "demo_records = [[1, 2, 3], [4]]"

definition demo_dest :: "mem_world WritableFile" where
  "demo_dest = UnSecurePosixWritableFile mem_io demo_log 1"

definition demo_world :: mem_world where
  "demo_world = snd (mem_fopen demo_log (str ''w'') mem_empty)"

definition demo_written :: "status \<times> nat \<times> mem_world" where
  "demo_written = AddRecords demo_dest demo_records 0 demo_world"

definition demo_cut :: "slice \<Rightarrow> mem_world" where
  "demo_cut c = \<lparr>mw_files = (\<lambda>f. Some (take 12 c)), mw_handles = [1 \<mapsto> (demo_log, 0)], mw_next = 1\<rparr>"

lemmas demo_defs = demo_log_def demo_dest_def demo_world_def demo_written_def demo_records_def demo_cut_def
  UnSecurePosixWritableFile_def ocall_fwrite_def Posix_Flush_def mem_io_def mem_fwrite_def mem_fopen_def mem_open_def mem_empty_def

lemma demo_ok: "ok (fst demo_written)"
  by (simp add: demo_defs AddRecord_def AddRecord_loop.simps switch_block_def EmitPhysicalRecord_def log_consts Let_def str_def)

lemma demo_live: "mem.live 1 demo_log demo_world" "mem.contents demo_log demo_world = []"
  by (simp_all add: mem.live_def mem.contents_def demo_defs str_def)

lemma demo_trailer:
  assumes "mem.live 1 demo_log w" and "n < kHeaderSize"
  shows "ok (fst (wf_Append demo_dest (replicate n 0) w))"
  using assms by (auto simp: mem.live_def demo_dest_def UnSecurePosixWritableFile_def ocall_fwrite_def mem_io_def mem_fwrite_def kHeaderSize_def
      split: option.splits prod.splits)

lemma mem_read_ok: "ok (fst (sf_Read (PosixUnSecureSequentialFile mem_io f h) kBlockSize v))"
  using mem_rest_advance [of h kBlockSize v]
  by (auto simp: PosixUnSecureSequentialFile_def UnSecure_Read_def ocall_fread_def mem_io_def kBlockSize_def split: prod.splits)

lemma demo_rest: "mem_rest 1 (demo_cut c) = take 12 c"
  by (simp add: mem_rest_def demo_cut_def)

lemma demo_complete: "log_complete 12 0 demo_records = [[1, 2, 3]]"
  by (simp add: demo_records_def record_frags.simps record_start_def room_def log_consts length_frag_bytes Let_def)

theorem log_crash_safe_witness:
  "\<exists>v'. \<forall>reporter. ReadAll (new_Reader (PosixUnSecureSequentialFile mem_io demo_log 1) reporter True 0)
      (demo_cut (mem.contents demo_log (snd (snd demo_written)))) = Some ([[1, 2, 3]], v')"
  using log_crash_safe [OF mem.unsecure_wf.writable_file_axioms, of 1 demo_log demo_log demo_world demo_records "fst demo_written" "fst (snd demo_written)" "snd (snd demo_written)"
      "PosixUnSecureSequentialFile mem_io demo_log 1" "mem_rest 1" "demo_cut (mem.contents demo_log (snd (snd demo_written)))" 12 True,
      OF demo_trailer [unfolded demo_dest_def] demo_live _ demo_ok mem.unsecure_sf.sequential_file_axioms mem_read_ok demo_rest]
    demo_complete
  by (simp add: demo_written_def demo_dest_def)

end
