(* ===== verification/Version_Edit.thy ===== *)
theory Version_Edit
  imports Dbformat Status "HOL-Library.Product_Lexorder"
begin

text \<open>
  \<^verbatim>\<open>db/version_edit.h\<close> and \<^verbatim>\<open>db/version_edit.cpp\<close>: the changes to the set of tables that are logged in the
  manifest, and their encoding. The file set of deletions is a \<open>std::set\<close>: it is the list of its
  elements in iteration order, that is strictly sorted. The encoding is inverted by the decoder, and
  every input is either decoded or rejected with a \<open>Corruption\<close>.
\<close>

section \<open>Data\<close>

text \<open>\<open>rh\<close>, the root hash, is not set by the constructor and not stored in the manifest: \<open>None\<close>.\<close>

record FileMetaData =
  fm_refs :: int
  fm_allowed_seeks :: int
  fm_number :: u64
  fm_file_size :: u64
  fm_smallest :: slice
  fm_largest :: slice
  fm_rh :: "slice option"

definition new_FileMetaData :: "u64 \<Rightarrow> u64 \<Rightarrow> slice \<Rightarrow> slice \<Rightarrow> FileMetaData" where
  "new_FileMetaData number file_size smallest largest =
     \<lparr>fm_refs = 0, fm_allowed_seeks = 2 ^ 30, fm_number = number, fm_file_size = file_size,
      fm_smallest = smallest, fm_largest = largest, fm_rh = None\<rparr>"

record VersionEdit =
  ve_comparator :: slice
  ve_log_number :: u64
  ve_prev_log_number :: u64
  ve_next_file_number :: u64
  ve_last_sequence :: u64
  has_comparator :: bool
  has_log_number :: bool
  has_prev_log_number :: bool
  has_next_file_number :: bool
  has_last_sequence :: bool
  ve_compact_pointers :: "(nat \<times> slice) list"
  ve_deleted_files :: "(nat \<times> u64) list"
  ve_new_files :: "(nat \<times> FileMetaData) list"

text \<open>\<open>Clear\<close> does not touch the compaction pointers.\<close>

definition ve_Clear :: "VersionEdit \<Rightarrow> VersionEdit" where
  "ve_Clear e = e\<lparr>ve_comparator := [], ve_log_number := 0, ve_prev_log_number := 0, ve_last_sequence := 0,
     ve_next_file_number := 0, has_comparator := False, has_log_number := False, has_prev_log_number := False,
     has_next_file_number := False, has_last_sequence := False, ve_deleted_files := [], ve_new_files := []\<rparr>"

definition new_VersionEdit :: VersionEdit where
  "new_VersionEdit =
     \<lparr>ve_comparator = [], ve_log_number = 0, ve_prev_log_number = 0, ve_next_file_number = 0, ve_last_sequence = 0,
      has_comparator = False, has_log_number = False, has_prev_log_number = False, has_next_file_number = False,
      has_last_sequence = False, ve_compact_pointers = [], ve_deleted_files = [], ve_new_files = []\<rparr>"

definition SetComparatorName :: "slice \<Rightarrow> VersionEdit \<Rightarrow> VersionEdit" where
  "SetComparatorName name e = e\<lparr>has_comparator := True, ve_comparator := name\<rparr>"

definition SetLogNumber :: "u64 \<Rightarrow> VersionEdit \<Rightarrow> VersionEdit" where
  "SetLogNumber num e = e\<lparr>has_log_number := True, ve_log_number := num\<rparr>"

definition SetPrevLogNumber :: "u64 \<Rightarrow> VersionEdit \<Rightarrow> VersionEdit" where
  "SetPrevLogNumber num e = e\<lparr>has_prev_log_number := True, ve_prev_log_number := num\<rparr>"

definition SetNextFile :: "u64 \<Rightarrow> VersionEdit \<Rightarrow> VersionEdit" where
  "SetNextFile num e = e\<lparr>has_next_file_number := True, ve_next_file_number := num\<rparr>"

definition SetLastSequence :: "u64 \<Rightarrow> VersionEdit \<Rightarrow> VersionEdit" where
  "SetLastSequence sn e = e\<lparr>has_last_sequence := True, ve_last_sequence := sn\<rparr>"

definition SetCompactPointer :: "nat \<Rightarrow> slice \<Rightarrow> VersionEdit \<Rightarrow> VersionEdit" where
  "SetCompactPointer level key e = e\<lparr>ve_compact_pointers := ve_compact_pointers e @ [(level, key)]\<rparr>"

definition AddFile :: "nat \<Rightarrow> u64 \<Rightarrow> u64 \<Rightarrow> slice \<Rightarrow> slice \<Rightarrow> VersionEdit \<Rightarrow> VersionEdit" where
  "AddFile level num file_size smallest largest e =
     e\<lparr>ve_new_files := ve_new_files e @ [(level, new_FileMetaData num file_size smallest largest)]\<rparr>"

definition ve_DeleteFile :: "nat \<Rightarrow> u64 \<Rightarrow> VersionEdit \<Rightarrow> VersionEdit" where
  "ve_DeleteFile level num e = e\<lparr>ve_deleted_files := insort_insert (level, num) (ve_deleted_files e)\<rparr>"

section \<open>Encoding\<close>

datatype Tag = kComparator | kLogNumber | kNextFileNumber | kLastSequence | kCompactPointer | kDeletedFile | kNewFile | kPrevLogNumber

primrec Tag_code :: "Tag \<Rightarrow> u32" where
  "Tag_code kComparator = 1"
| "Tag_code kLogNumber = 2"
| "Tag_code kNextFileNumber = 3"
| "Tag_code kLastSequence = 4"
| "Tag_code kCompactPointer = 5"
| "Tag_code kDeletedFile = 6"
| "Tag_code kNewFile = 7"
| "Tag_code kPrevLogNumber = 9"

lemma Tag_code_eq [simp]: "Tag_code s = Tag_code t \<longleftrightarrow> s = t"
  by (cases s; cases t) simp_all

declare Tag_code.simps [simp del]

definition Put_number :: "bool \<Rightarrow> Tag \<Rightarrow> u64 \<Rightarrow> slice \<Rightarrow> slice" where
  "Put_number has tag num dst = (if has then PutVarint64 (PutVarint32 dst (Tag_code tag)) num else dst)"

definition Put_compact_pointer :: "nat \<times> slice \<Rightarrow> slice \<Rightarrow> slice" where
  "Put_compact_pointer = (\<lambda>(level, key) dst.
     PutLengthPrefixedSlice (PutVarint32 (PutVarint32 dst (Tag_code kCompactPointer)) (word_of_nat level)) key)"

definition Put_deleted_file :: "nat \<times> u64 \<Rightarrow> slice \<Rightarrow> slice" where
  "Put_deleted_file = (\<lambda>(level, num) dst.
     PutVarint64 (PutVarint32 (PutVarint32 dst (Tag_code kDeletedFile)) (word_of_nat level)) num)"

definition Put_new_file :: "nat \<times> FileMetaData \<Rightarrow> slice \<Rightarrow> slice" where
  "Put_new_file = (\<lambda>(level, f) dst.
     PutLengthPrefixedSlice (PutLengthPrefixedSlice
       (PutVarint64 (PutVarint64 (PutVarint32 (PutVarint32 dst (Tag_code kNewFile)) (word_of_nat level)) (fm_number f)) (fm_file_size f))
       (fm_smallest f)) (fm_largest f))"

definition ve_EncodeTo :: "VersionEdit \<Rightarrow> slice \<Rightarrow> slice" where
  "ve_EncodeTo e dst =
     (let dst = (if has_comparator e then PutLengthPrefixedSlice (PutVarint32 dst (Tag_code kComparator)) (ve_comparator e) else dst);
          dst = Put_number (has_log_number e) kLogNumber (ve_log_number e) dst;
          dst = Put_number (has_prev_log_number e) kPrevLogNumber (ve_prev_log_number e) dst;
          dst = Put_number (has_next_file_number e) kNextFileNumber (ve_next_file_number e) dst;
          dst = Put_number (has_last_sequence e) kLastSequence (ve_last_sequence e) dst;
          dst = fold Put_compact_pointer (ve_compact_pointers e) dst;
          dst = fold Put_deleted_file (ve_deleted_files e) dst
      in fold Put_new_file (ve_new_files e) dst)"

section \<open>Decoding\<close>

definition GetInternalKey :: "slice \<Rightarrow> (slice \<times> slice) option" where
  "GetInternalKey input = GetLengthPrefixedSlice input"

definition GetLevel :: "slice \<Rightarrow> (nat \<times> slice) option" where
  "GetLevel input =
     (case GetVarint32 input of
        None \<Rightarrow> None
      | Some (v, rest) \<Rightarrow> if v < word_of_nat kNumLevels then Some (unat v, rest) else None)"

definition Get_new_file :: "slice \<Rightarrow> ((nat \<times> FileMetaData) \<times> slice) option" where
  "Get_new_file input =
     (case GetLevel input of None \<Rightarrow> None | Some (level, input) \<Rightarrow>
      case GetVarint64 input of None \<Rightarrow> None | Some (num, input) \<Rightarrow>
      case GetVarint64 input of None \<Rightarrow> None | Some (file_size, input) \<Rightarrow>
      case GetInternalKey input of None \<Rightarrow> None | Some (smallest, input) \<Rightarrow>
      case GetInternalKey input of None \<Rightarrow> None | Some (largest, input) \<Rightarrow>
        Some ((level, new_FileMetaData num file_size smallest largest), input))"

text \<open>One case of the switch: the edit after it and the remaining input, or the message.\<close>

definition Decode_tag :: "u32 \<Rightarrow> VersionEdit \<Rightarrow> slice \<Rightarrow> string + (VersionEdit \<times> slice)" where
  "Decode_tag tag e input =
     (let number = (\<lambda>upd msg. case GetVarint64 input of None \<Rightarrow> Inl msg | Some (num, rest) \<Rightarrow> Inr (upd num e, rest)) in
      if tag = Tag_code kComparator then
        (case GetLengthPrefixedSlice input of None \<Rightarrow> Inl ''comparator name''
         | Some (s, rest) \<Rightarrow> Inr (SetComparatorName s e, rest))
      else if tag = Tag_code kLogNumber then number SetLogNumber ''log number''
      else if tag = Tag_code kPrevLogNumber then number SetPrevLogNumber ''previous log number''
      else if tag = Tag_code kNextFileNumber then number SetNextFile ''next file number''
      else if tag = Tag_code kLastSequence then number SetLastSequence ''last sequence number''
      else if tag = Tag_code kCompactPointer then
        (case GetLevel input of None \<Rightarrow> Inl ''compaction pointer'' | Some (level, rest) \<Rightarrow>
         case GetInternalKey rest of None \<Rightarrow> Inl ''compaction pointer'' | Some (key, rest) \<Rightarrow>
           Inr (SetCompactPointer level key e, rest))
      else if tag = Tag_code kDeletedFile then
        (case GetLevel input of None \<Rightarrow> Inl ''deleted file'' | Some (level, rest) \<Rightarrow>
         case GetVarint64 rest of None \<Rightarrow> Inl ''deleted file'' | Some (num, rest) \<Rightarrow>
           Inr (ve_DeleteFile level num e, rest))
      else if tag = Tag_code kNewFile then
        (case Get_new_file input of None \<Rightarrow> Inl ''new-file entry'' | Some (lf, rest) \<Rightarrow>
           Inr (e\<lparr>ve_new_files := ve_new_files e @ [lf]\<rparr>, rest))
      else Inl ''unknown tag'')"

lemma Get_shorter:
  "GetLevel p = Some (l, q) \<Longrightarrow> length q < length p"
  "GetInternalKey p = Some (k, q) \<Longrightarrow> length q < length p"
  "Get_new_file p = Some (lf, q) \<Longrightarrow> length q < length p"
proof -
  show level: "GetLevel p = Some (l, q) \<Longrightarrow> length q < length p" for p l q
    by (auto simp: GetLevel_def split: option.splits if_splits dest: GetVarint_shorter)
  show key: "GetInternalKey p = Some (k, q) \<Longrightarrow> length q < length p" for p k q
    by (simp add: GetInternalKey_def GetLengthPrefixedSlice_shorter)
  show "Get_new_file p = Some (lf, q) \<Longrightarrow> length q < length p"
    by (auto simp: Get_new_file_def split: option.splits prod.splits dest!: level key GetVarint_shorter)
qed

lemma Decode_tag_shorter: "Decode_tag tag e p = Inr (e', q) \<Longrightarrow> length q < length p"
  by (auto simp: Decode_tag_def Let_def split: if_splits option.splits dest!: Get_shorter GetVarint_shorter GetLengthPrefixedSlice_shorter)

function DecodeFrom_loop :: "VersionEdit \<Rightarrow> slice \<Rightarrow> string option \<times> VersionEdit \<times> slice" where
  "DecodeFrom_loop e input =
     (case GetVarint32 input of
        None \<Rightarrow> (None, e, input)
      | Some (tag, rest) \<Rightarrow>
          (case Decode_tag tag e rest of
             Inl msg \<Rightarrow> (Some msg, e, rest)
           | Inr (e, rest) \<Rightarrow> DecodeFrom_loop e rest))"
  by pat_completeness auto
termination
  by (relation "measure (\<lambda>(e, input). length input)") (auto dest!: GetVarint_shorter Decode_tag_shorter)

declare DecodeFrom_loop.simps [simp del]

definition ve_DecodeFrom :: "VersionEdit \<Rightarrow> slice \<Rightarrow> status \<times> VersionEdit" where
  "ve_DecodeFrom e src =
     (case DecodeFrom_loop (ve_Clear e) src of (msg, e, input) \<Rightarrow>
        let msg = (if msg = None \<and> input \<noteq> [] then Some ''invalid tag'' else msg)
        in (case msg of None \<Rightarrow> (OK, e) | Some m \<Rightarrow> (Corruption (str ''VersionEdit'') (str m), e)))"

section \<open>The decoder undoes the encoder\<close>

lemma Put_item_append:
  "Put_number has tag num dst = dst @ Put_number has tag num []"
  "Put_compact_pointer cp dst = dst @ Put_compact_pointer cp []"
  "Put_deleted_file df dst = dst @ Put_deleted_file df []"
  "Put_new_file nf dst = dst @ Put_new_file nf []"
  by (simp_all add: Put_number_def Put_compact_pointer_def Put_deleted_file_def Put_new_file_def Put_varint
      PutLengthPrefixedSlice_append [of "_ @ _"] split: prod.splits)

lemma fold_append_items:
  assumes "\<And>x dst. f x dst = dst @ f x []"
  shows "fold f xs dst = dst @ concat (map (\<lambda>x. f x []) xs)"
  by (induction xs arbitrary: dst) (simp, simp, rule assms)

definition level_ok :: "nat \<Rightarrow> bool" where "level_ok l \<longleftrightarrow> l < kNumLevels"
definition size_ok :: "slice \<Rightarrow> bool" where "size_ok k \<longleftrightarrow> length k < 2 ^ 32"

lemma GetLevel_Put: "level_ok l \<Longrightarrow> GetLevel (varint (unat (word_of_nat l :: u32)) @ rest) = Some (l, rest)"
  by (simp add: GetLevel_def level_ok_def kNumLevels_def word_less_nat_alt unat_word_of_nat_small)

lemma DecodeFrom_loop_tag:
  "DecodeFrom_loop e (varint (unat (Tag_code t)) @ x) =
     (case Decode_tag (Tag_code t) e x of Inl msg \<Rightarrow> (Some msg, e, x) | Inr (e, rest) \<Rightarrow> DecodeFrom_loop e rest)"
  by (subst DecodeFrom_loop.simps) (simp split: sum.splits)

lemma Decode_number:
  "DecodeFrom_loop e (Put_number has kLogNumber num [] @ x) = DecodeFrom_loop (if has then SetLogNumber num e else e) x"
  "DecodeFrom_loop e (Put_number has kPrevLogNumber num [] @ x) = DecodeFrom_loop (if has then SetPrevLogNumber num e else e) x"
  "DecodeFrom_loop e (Put_number has kNextFileNumber num [] @ x) = DecodeFrom_loop (if has then SetNextFile num e else e) x"
  "DecodeFrom_loop e (Put_number has kLastSequence num [] @ x) = DecodeFrom_loop (if has then SetLastSequence num e else e) x"
  by (simp_all add: Put_number_def Put_varint DecodeFrom_loop_tag Decode_tag_def)

lemma Decode_comparator:
  "size_ok name \<Longrightarrow> DecodeFrom_loop e ((if has then PutLengthPrefixedSlice (PutVarint32 [] (Tag_code kComparator)) name else []) @ x) =
    DecodeFrom_loop (if has then SetComparatorName name e else e) x"
  by (simp add: Put_varint PutLengthPrefixedSlice_append [of "varint _"] DecodeFrom_loop_tag Decode_tag_def size_ok_def)

lemma Decode_compact_pointer:
  "level_ok l \<Longrightarrow> size_ok k \<Longrightarrow> DecodeFrom_loop e (Put_compact_pointer (l, k) [] @ x) = DecodeFrom_loop (SetCompactPointer l k e) x"
  by (simp add: Put_compact_pointer_def Put_varint PutLengthPrefixedSlice_append [of "_ @ _"] DecodeFrom_loop_tag Decode_tag_def
      GetLevel_Put GetInternalKey_def size_ok_def)

lemma Decode_deleted_file:
  "level_ok l \<Longrightarrow> DecodeFrom_loop e (Put_deleted_file (l, n) [] @ x) = DecodeFrom_loop (ve_DeleteFile l n e) x"
  by (simp add: Put_deleted_file_def Put_varint DecodeFrom_loop_tag Decode_tag_def GetLevel_Put)

lemma Decode_new_file:
  "level_ok l \<Longrightarrow> size_ok (fm_smallest f) \<Longrightarrow> size_ok (fm_largest f) \<Longrightarrow>
   DecodeFrom_loop e (Put_new_file (l, f) [] @ x) =
   DecodeFrom_loop (AddFile l (fm_number f) (fm_file_size f) (fm_smallest f) (fm_largest f) e) x"
  by (simp add: Put_new_file_def Put_varint PutLengthPrefixedSlice_append [of "_ @ _"] DecodeFrom_loop_tag Decode_tag_def
      Get_new_file_def GetLevel_Put GetInternalKey_def AddFile_def size_ok_def)

lemma Decode_items:
  assumes "\<And>a e x. a \<in> set as \<Longrightarrow> DecodeFrom_loop e (put a @ x) = DecodeFrom_loop (upd a e) x"
  shows "DecodeFrom_loop e (concat (map put as) @ x) = DecodeFrom_loop (fold upd as e) x"
  using assms by (induction as arbitrary: e) simp_all

lemma DecodeFrom_loop_Nil: "DecodeFrom_loop e [] = (None, e, [])"
  by (subst DecodeFrom_loop.simps) (simp add: GetVarint32_def GetVarint32Ptr_def GetVarint32PtrFallback_def)

lemma Decode_last_items:
  assumes "\<And>a e x. a \<in> set as \<Longrightarrow> DecodeFrom_loop e (put a @ x) = DecodeFrom_loop (upd a e) x"
  shows "DecodeFrom_loop e (concat (map put as)) = (None, fold upd as e, [])"
  using Decode_items [of as put upd e "[]", OF assms] by (simp add: DecodeFrom_loop_Nil)

section \<open>Well-formed edits\<close>

definition fm_plain :: "FileMetaData \<Rightarrow> bool" where
  "fm_plain f \<longleftrightarrow> f = new_FileMetaData (fm_number f) (fm_file_size f) (fm_smallest f) (fm_largest f)"

text \<open>
  What the setters establish: numbers without their flag are 0, levels are below \<open>kNumLevels\<close>, the set
  of deleted files is in order, new files come from \<open>AddFile\<close>, and keys are shorter than 4 GiB.
\<close>

definition ve_wf :: "VersionEdit \<Rightarrow> bool" where
  "ve_wf e \<longleftrightarrow>
     (\<not> has_comparator e \<longrightarrow> ve_comparator e = []) \<and> (\<not> has_log_number e \<longrightarrow> ve_log_number e = 0) \<and>
     (\<not> has_prev_log_number e \<longrightarrow> ve_prev_log_number e = 0) \<and> (\<not> has_next_file_number e \<longrightarrow> ve_next_file_number e = 0) \<and>
     (\<not> has_last_sequence e \<longrightarrow> ve_last_sequence e = 0) \<and> size_ok (ve_comparator e) \<and>
     (\<forall>(l, k) \<in> set (ve_compact_pointers e). level_ok l \<and> size_ok k) \<and>
     sorted (ve_deleted_files e) \<and> distinct (ve_deleted_files e) \<and> (\<forall>(l, n) \<in> set (ve_deleted_files e). level_ok l) \<and>
     (\<forall>(l, f) \<in> set (ve_new_files e). level_ok l \<and> size_ok (fm_smallest f) \<and> size_ok (fm_largest f) \<and> fm_plain f)"

named_theorems ve_wf_intros \<open>operations that keep an edit well formed\<close>

lemma ve_wf_new [ve_wf_intros]: "ve_wf new_VersionEdit"
  by (simp add: ve_wf_def new_VersionEdit_def size_ok_def)

lemma ve_wf_ops [ve_wf_intros]:
  "ve_wf e \<Longrightarrow> size_ok name \<Longrightarrow> ve_wf (SetComparatorName name e)"
  "ve_wf e \<Longrightarrow> ve_wf (SetLogNumber n e)"
  "ve_wf e \<Longrightarrow> ve_wf (SetPrevLogNumber n e)"
  "ve_wf e \<Longrightarrow> ve_wf (SetNextFile n e)"
  "ve_wf e \<Longrightarrow> ve_wf (SetLastSequence n e)"
  "ve_wf e \<Longrightarrow> level_ok l \<Longrightarrow> size_ok k \<Longrightarrow> ve_wf (SetCompactPointer l k e)"
  "ve_wf e \<Longrightarrow> level_ok l \<Longrightarrow> size_ok a \<Longrightarrow> size_ok b \<Longrightarrow> ve_wf (AddFile l n z a b e)"
  "ve_wf e \<Longrightarrow> level_ok l \<Longrightarrow> ve_wf (ve_DeleteFile l n e)"
  "ve_wf e \<Longrightarrow> ve_wf (ve_Clear e)"
  by (auto simp: ve_wf_def SetComparatorName_def SetLogNumber_def SetPrevLogNumber_def SetNextFile_def SetLastSequence_def
      SetCompactPointer_def AddFile_def ve_DeleteFile_def ve_Clear_def new_FileMetaData_def fm_plain_def sorted_insort_insert
      distinct_insort_insert set_insort_insert size_ok_def [of "[]"])

section \<open>Replaying the items\<close>

lemma insort_snoc: "\<forall>y \<in> set xs. y < x \<Longrightarrow> insort x xs = xs @ [x]"
  by (induction xs) (auto dest: leD)

lemma fold_insort_insert:
  "sorted (ys @ xs) \<Longrightarrow> distinct (ys @ xs) \<Longrightarrow> fold insort_insert xs ys = ys @ xs"
proof (induction xs arbitrary: ys)
  case (Cons x xs)
  have lt: "y \<in> set ys \<Longrightarrow> y < x" for y
    using Cons.prems by (fastforce simp: sorted_append less_le)
  then have "insort_insert x ys = ys @ [x]"
    by (auto simp: insort_insert_key_def insort_snoc)
  with Cons show ?case
    by simp
qed simp

lemma replay_compact_pointers:
  "fold (\<lambda>(l, k). SetCompactPointer l k) cps e = e\<lparr>ve_compact_pointers := ve_compact_pointers e @ cps\<rparr>"
  by (induction cps arbitrary: e) (auto simp: SetCompactPointer_def)

lemma replay_deleted_files:
  "fold (\<lambda>(l, n). ve_DeleteFile l n) ds e = e\<lparr>ve_deleted_files := fold insort_insert ds (ve_deleted_files e)\<rparr>"
  by (induction ds arbitrary: e) (auto simp: ve_DeleteFile_def)

lemma replay_new_files:
  "\<forall>(l, f) \<in> set fs. fm_plain f \<Longrightarrow>
   fold (\<lambda>(l, f). AddFile l (fm_number f) (fm_file_size f) (fm_smallest f) (fm_largest f)) fs e =
   e\<lparr>ve_new_files := ve_new_files e @ fs\<rparr>"
proof (induction fs arbitrary: e)
  case (Cons lf fs)
  obtain l f where lf: "lf = (l, f)"
    by (cases lf)
  have "AddFile l (fm_number f) (fm_file_size f) (fm_smallest f) (fm_largest f) e = e\<lparr>ve_new_files := ve_new_files e @ [(l, f)]\<rparr>"
    using Cons.prems by (simp add: AddFile_def lf fm_plain_def)
  with Cons show ?case
    by (simp add: lf)
qed simp

definition replay_scalars :: "VersionEdit \<Rightarrow> VersionEdit \<Rightarrow> VersionEdit" where
  "replay_scalars e =
     (if has_last_sequence e then SetLastSequence (ve_last_sequence e) else id) \<circ>
     (if has_next_file_number e then SetNextFile (ve_next_file_number e) else id) \<circ>
     (if has_prev_log_number e then SetPrevLogNumber (ve_prev_log_number e) else id) \<circ>
     (if has_log_number e then SetLogNumber (ve_log_number e) else id) \<circ>
     (if has_comparator e then SetComparatorName (ve_comparator e) else id)"

lemma DecodeFrom_loop_Encode:
  assumes "ve_wf e"
  shows "DecodeFrom_loop e0 (ve_EncodeTo e []) =
    (None, fold (\<lambda>(l, f). AddFile l (fm_number f) (fm_file_size f) (fm_smallest f) (fm_largest f)) (ve_new_files e)
      (fold (\<lambda>(l, n). ve_DeleteFile l n) (ve_deleted_files e)
        (fold (\<lambda>(l, k). SetCompactPointer l k) (ve_compact_pointers e) (replay_scalars e e0))), [])"
proof -
  have enc: "ve_EncodeTo e [] =
    (if has_comparator e then PutLengthPrefixedSlice (PutVarint32 [] (Tag_code kComparator)) (ve_comparator e) else []) @
    Put_number (has_log_number e) kLogNumber (ve_log_number e) [] @
    Put_number (has_prev_log_number e) kPrevLogNumber (ve_prev_log_number e) [] @
    Put_number (has_next_file_number e) kNextFileNumber (ve_next_file_number e) [] @
    Put_number (has_last_sequence e) kLastSequence (ve_last_sequence e) [] @
    concat (map (\<lambda>x. Put_compact_pointer x []) (ve_compact_pointers e)) @
    concat (map (\<lambda>x. Put_deleted_file x []) (ve_deleted_files e)) @
    concat (map (\<lambda>x. Put_new_file x []) (ve_new_files e)) @ []"
    unfolding ve_EncodeTo_def Let_def fold_append_items [OF Put_item_append(2)] fold_append_items [OF Put_item_append(3)]
      fold_append_items [OF Put_item_append(4)]
    by (subst (4 3 2 1) Put_item_append(1)) (simp only: append_assoc append_Nil2)
  have "DecodeFrom_loop e' (Put_compact_pointer a [] @ x) = DecodeFrom_loop ((\<lambda>(l, k). SetCompactPointer l k) a e') x"
    if "a \<in> set (ve_compact_pointers e)" for a e' x
    using that assms by (cases a) (auto simp: ve_wf_def Decode_compact_pointer)
  moreover have "DecodeFrom_loop e' (Put_deleted_file a [] @ x) = DecodeFrom_loop ((\<lambda>(l, n). ve_DeleteFile l n) a e') x"
    if "a \<in> set (ve_deleted_files e)" for a e' x
    using that assms by (cases a) (auto simp: ve_wf_def Decode_deleted_file)
  moreover have "DecodeFrom_loop e' (Put_new_file a [] @ x) = DecodeFrom_loop ((\<lambda>(l, f). AddFile l (fm_number f) (fm_file_size f) (fm_smallest f) (fm_largest f)) a e') x"
    if "a \<in> set (ve_new_files e)" for a e' x
    using that assms by (cases a) (auto simp: ve_wf_def Decode_new_file)
  moreover have "size_ok (ve_comparator e)"
    using assms by (simp add: ve_wf_def)
  ultimately show ?thesis
    by (simp add: enc Decode_comparator Decode_number replay_scalars_def Decode_items [where upd = "\<lambda>(l, k). SetCompactPointer l k"]
        Decode_items [where upd = "\<lambda>(l, n). ve_DeleteFile l n"]
        Decode_last_items [where upd = "\<lambda>(l, f). AddFile l (fm_number f) (fm_file_size f) (fm_smallest f) (fm_largest f)"])
qed

lemma replay_scalars_Clear:
  assumes "ve_wf e"
  shows "replay_scalars e (ve_Clear e0) =
    e\<lparr>ve_compact_pointers := ve_compact_pointers e0, ve_deleted_files := [], ve_new_files := []\<rparr>"
  using assms by (cases e; cases e0)
    (simp add: replay_scalars_def ve_Clear_def SetLastSequence_def SetNextFile_def SetPrevLogNumber_def SetLogNumber_def
      SetComparatorName_def ve_wf_def)

lemma Get_ok:
  "GetLengthPrefixedSlice x = Some (k, q) \<Longrightarrow> length x < 2 ^ 32 \<Longrightarrow> size_ok k"
  "GetLevel x = Some (l, q) \<Longrightarrow> level_ok l"
  by (auto simp: size_ok_def level_ok_def GetLevel_def GetLengthPrefixedSlice_def kNumLevels_def word_less_nat_alt
      split: option.splits if_splits dest!: GetVarint_shorter)

lemma Get_new_file_ok:
  assumes "Get_new_file x = Some (lf, q)" and "length x < 2 ^ 32"
  obtains l n z a b where "lf = (l, new_FileMetaData n z a b)" "level_ok l" "size_ok a" "size_ok b"
proof -
  obtain l x1 n x2 z x3 a x4 b where g: "GetLevel x = Some (l, x1)" "GetVarint64 x1 = Some (n, x2)" "GetVarint64 x2 = Some (z, x3)"
    "GetInternalKey x3 = Some (a, x4)" "GetInternalKey x4 = Some (b, q)" "lf = (l, new_FileMetaData n z a b)"
    using assms(1) by (auto simp: Get_new_file_def split: option.splits)
  then have "length x4 < 2 ^ 32" "length x3 < 2 ^ 32"
    using assms(2) by (auto dest!: Get_shorter GetVarint_shorter)
  with g(4,5) have "size_ok a" "size_ok b"
    by (auto simp: GetInternalKey_def intro: Get_ok(1))
  with that [OF g(6) Get_ok(2) [OF g(1)]] show thesis
    by blast
qed

lemma Decode_tag_wf:
  assumes "ve_wf e" and "length p < 2 ^ 32" and "Decode_tag tag e p = Inr (e', q)"
  shows "ve_wf e'"
proof -
  have nf: "ve_wf (e\<lparr>ve_new_files := ve_new_files e @ [lf]\<rparr>)" if "Get_new_file p = Some (lf, r)" for lf r
    using Get_new_file_ok [OF that assms(2)] ve_wf_ops(7) [OF assms(1)] by (metis AddFile_def)
  have key: "size_ok k" if "GetLevel p = Some (l, r)" "GetInternalKey r = Some (k, r')" for l r k r'
    using that assms(2) Get_shorter(1) [OF that(1)] by (auto simp: GetInternalKey_def dest: Get_ok)
  show ?thesis
    using assms nf key
    by (auto simp: Decode_tag_def Let_def split: if_splits option.splits intro!: ve_wf_ops dest: Get_ok)
qed

lemma DecodeFrom_loop_wf:
  assumes "ve_wf e" and "length p < 2 ^ 32" and "DecodeFrom_loop e p = (m, e', q)"
  shows "ve_wf e'"
  using assms
proof (induction e p rule: DecodeFrom_loop.induct)
  case (1 e p)
  show ?case
  proof (cases "GetVarint32 p")
    case None
    with 1(2-) show ?thesis
      by (simp add: DecodeFrom_loop.simps [of e p])
  next
    case (Some tr)
    obtain tag r where tr: "tr = (tag, r)"
      by (cases tr)
    have len: "length r < 2 ^ 32"
      using GetVarint_shorter(1) Some 1(3) tr by fastforce
    show ?thesis
    proof (cases "Decode_tag tag e r")
      case (Inl msg)
      with 1(2-) Some tr show ?thesis
        by (simp add: DecodeFrom_loop.simps [of e p])
    next
      case (Inr er)
      obtain e1 r1 where er: "er = (e1, r1)"
        by (cases er)
      have "ve_wf e1" "length r1 < 2 ^ 32"
        using Decode_tag_wf [OF 1(2) len] Decode_tag_shorter [of tag e r] Inr er len by auto
      moreover have "DecodeFrom_loop e1 r1 = (m, e', q)"
        using 1(4) Some tr Inr er by (simp add: DecodeFrom_loop.simps [of e p])
      ultimately show ?thesis
        using 1(1) Some tr Inr er by blast
    qed
  qed
qed

section \<open>Properties\<close>

text \<open>C10: decoding what \<open>EncodeTo\<close> wrote for a well-formed edit gives OK and the same edit, field by field;
  the one exception are compaction pointers the target already had, which \<open>Clear\<close> keeps in front.\<close>

theorem version_edit_roundtrip:
  assumes "ve_wf e"
  shows "ve_DecodeFrom e0 (ve_EncodeTo e []) = (OK, e\<lparr>ve_compact_pointers := ve_compact_pointers e0 @ ve_compact_pointers e\<rparr>)"
proof -
  have "sorted (ve_deleted_files e)" "distinct (ve_deleted_files e)" "\<forall>(l, f) \<in> set (ve_new_files e). fm_plain f"
    using assms by (auto simp: ve_wf_def)
  then show ?thesis
    by (simp add: ve_DecodeFrom_def DecodeFrom_loop_Encode [OF assms] replay_scalars_Clear [OF assms] replay_compact_pointers
        replay_deleted_files replay_new_files fold_insort_insert [of "[]"])
qed

definition demo_edit :: VersionEdit where
  "demo_edit = ve_DeleteFile 2 9 (ve_DeleteFile 3 4 (AddFile 1 7 300 [97] [98] (SetCompactPointer 1 [99]
     (SetLastSequence 5 (SetLogNumber 12 (SetComparatorName [100] new_VersionEdit))))))"

theorem version_edit_roundtrip_witness:
  "ve_wf demo_edit \<and> ve_DecodeFrom new_VersionEdit (ve_EncodeTo demo_edit []) = (OK, demo_edit)"
proof -
  have "ve_wf demo_edit"
    unfolding demo_edit_def by (intro ve_wf_intros) (simp_all add: size_ok_def level_ok_def kNumLevels_def)
  then show ?thesis
    using version_edit_roundtrip [of demo_edit new_VersionEdit] by (simp add: new_VersionEdit_def)
qed

text \<open>C22: on every byte string \<open>DecodeFrom\<close> ends with OK or with a \<open>Corruption\<close>, OK only when all of the input was
  used, and in both cases it leaves a well-formed edit: levels in range, deletions an ordered set,
  numbers without their flag still 0.\<close>

theorem version_edit_decode_wf:
  assumes "ve_wf e0" and "length src < 2 ^ 32" and "ve_DecodeFrom e0 src = (s, e)"
  shows "(ok s \<or> IsCorruption s) \<and> ve_wf e \<and> (ok s \<longrightarrow> DecodeFrom_loop (ve_Clear e0) src = (None, e, []))"
proof -
  obtain m e' q where d: "DecodeFrom_loop (ve_Clear e0) src = (m, e', q)"
    by (cases "DecodeFrom_loop (ve_Clear e0) src")
  from DecodeFrom_loop_wf [OF ve_wf_ops(9) [OF assms(1)] assms(2) this] assms(3) show ?thesis
    by (auto simp: ve_DecodeFrom_def d Let_def split: option.splits if_splits)
qed

theorem version_edit_decode_wf_witness:
  "(ok (fst (ve_DecodeFrom new_VersionEdit [8])) \<or> IsCorruption (fst (ve_DecodeFrom new_VersionEdit [8]))) \<and>
   ve_wf (snd (ve_DecodeFrom new_VersionEdit [8]))"
  using version_edit_decode_wf [OF ve_wf_new _ surjective_pairing, of "[8]"] by simp

end
