(* ===== verification/Filename.thy ===== *)
theory Filename
  imports Env_Posix Comparators
begin

text \<open>
  \<^verbatim>\<open>util/logging.cpp\<close> and \<^verbatim>\<open>db/filename.cpp\<close>: printing and parsing of decimal numbers, the names of the
  files of a database, and the switch of the \<^verbatim>\<open>CURRENT\<close> file to a new manifest.
\<close>

section \<open>Numbers in text\<close>

definition AppendNumberTo :: "slice \<Rightarrow> u64 \<Rightarrow> slice" where
  "AppendNumberTo s num = s @ dec_nat (unat num)"

definition NumberToString :: "u64 \<Rightarrow> slice" where
  "NumberToString num = AppendNumberTo [] num"

definition hex_digit :: "nat \<Rightarrow> byte" where
  "hex_digit n = (if n < 10 then word_of_nat (48 + n) else word_of_nat (87 + n))"

definition escape_char :: "byte \<Rightarrow> slice" where
  "escape_char c =
     (if of_char CHR '' '' \<le> c \<and> c \<le> of_char CHR ''~'' then [c]
      else str [CHR 0x5C, CHR ''x''] @ [hex_digit (unat c div 16), hex_digit (unat c mod 16)])"

definition AppendEscapedStringTo :: "slice \<Rightarrow> slice \<Rightarrow> slice" where
  "AppendEscapedStringTo s value = foldl (\<lambda>s c. s @ escape_char c) s value"

definition EscapeString :: "slice \<Rightarrow> slice" where
  "EscapeString value = AppendEscapedStringTo [] value"

definition kMaxUint64 :: u64 where "kMaxUint64 = NOT 0"

definition is_digit :: "byte \<Rightarrow> bool" where
  "is_digit c \<longleftrightarrow> of_char CHR ''0'' \<le> c \<and> c \<le> of_char CHR ''9''"

text \<open>The loop returns \<open>None\<close> on overflow, else the value, the number of digits and the rest of the input.\<close>

fun ConsumeDecimal_loop :: "u64 \<Rightarrow> nat \<Rightarrow> slice \<Rightarrow> (u64 \<times> nat \<times> slice) option" where
  "ConsumeDecimal_loop v digits [] = Some (v, digits, [])"
| "ConsumeDecimal_loop v digits (c # cs) =
     (if is_digit c then
        let delta = ucast c - ucast (of_char CHR ''0'' :: byte) in
        if v > kMaxUint64 div 10 \<or> (v = kMaxUint64 div 10 \<and> delta > kMaxUint64 mod 10) then None
        else ConsumeDecimal_loop (v * 10 + delta) (digits + 1) cs
      else Some (v, digits, c # cs))"

definition ConsumeDecimalNumber :: "slice \<Rightarrow> (u64 \<times> slice) option" where
  "ConsumeDecimalNumber input =
     (case ConsumeDecimal_loop 0 0 input of
        None \<Rightarrow> None
      | Some (v, digits, rest) \<Rightarrow> if digits > 0 then Some (v, rest) else None)"

section \<open>File names\<close>

datatype FileType = kLogFile | kDBLockFile | kTableFile | kDescriptorFile | kCurrentFile | kTempFile | kInfoLogFile

text \<open>\<^verbatim>\<open>%06llu\<close>; the buffer of 100 bytes is never full.\<close>

definition dec06 :: "u64 \<Rightarrow> slice" where
  "dec06 number = (let ds = dec_nat (unat number) in replicate (6 - length ds) (of_char CHR ''0'') @ ds)"

definition MakeFileName :: "slice \<Rightarrow> u64 \<Rightarrow> slice \<Rightarrow> slice" where
  "MakeFileName name number suffix = name @ str ''/'' @ dec06 number @ str ''.'' @ suffix"

definition LogFileName :: "slice \<Rightarrow> u64 \<Rightarrow> slice" where
  "LogFileName name number = MakeFileName name number (str ''log'')"

definition TableFileName :: "slice \<Rightarrow> u64 \<Rightarrow> slice" where
  "TableFileName name number = MakeFileName name number (str ''ldb'')"

definition SSTTableFileName :: "slice \<Rightarrow> u64 \<Rightarrow> slice" where
  "SSTTableFileName name number = MakeFileName name number (str ''sst'')"

definition DescriptorFileName :: "slice \<Rightarrow> u64 \<Rightarrow> slice" where
  "DescriptorFileName dbname number = dbname @ str ''/MANIFEST-'' @ dec06 number"

definition CurrentFileName :: "slice \<Rightarrow> slice" where
  "CurrentFileName dbname = dbname @ str ''/CURRENT''"

definition LockFileName :: "slice \<Rightarrow> slice" where
  "LockFileName dbname = dbname @ str ''/LOCK''"

definition TempFileName :: "slice \<Rightarrow> u64 \<Rightarrow> slice" where
  "TempFileName dbname number = MakeFileName dbname number (str ''dbtmp'')"

definition InfoLogFileName :: "slice \<Rightarrow> slice" where
  "InfoLogFileName dbname = dbname @ str ''/LOG''"

definition OldInfoLogFileName :: "slice \<Rightarrow> slice" where
  "OldInfoLogFileName dbname = dbname @ str ''/LOG.old''"

definition ParseFileName :: "slice \<Rightarrow> (u64 \<times> FileType) option" where
  "ParseFileName fname =
     (if fname = str ''CURRENT'' then Some (0, kCurrentFile)
      else if fname = str ''LOCK'' then Some (0, kDBLockFile)
      else if fname = str ''LOG'' \<or> fname = str ''LOG.old'' then Some (0, kInfoLogFile)
      else if starts_with fname (str ''MANIFEST-'') then
        (case ConsumeDecimalNumber (drop (length (str ''MANIFEST-'')) fname) of
           None \<Rightarrow> None
         | Some (num, rest) \<Rightarrow> if rest \<noteq> [] then None else Some (num, kDescriptorFile))
      else
        (case ConsumeDecimalNumber fname of
           None \<Rightarrow> None
         | Some (num, suffix) \<Rightarrow>
             if suffix = str ''.log'' then Some (num, kLogFile)
             else if suffix = str ''.sst'' \<or> suffix = str ''.ldb'' then Some (num, kTableFile)
             else if suffix = str ''.dbtmp'' then Some (num, kTempFile)
             else None))"

definition SetCurrentFile :: "'w stdio \<Rightarrow> slice \<Rightarrow> u64 \<Rightarrow> 'w \<Rightarrow> status \<times> 'w" where
  "SetCurrentFile io dbname descriptor_number w =
     (let manifest = DescriptorFileName dbname descriptor_number;
          contents = drop (length dbname + 1) manifest;
          tmp = TempFileName dbname descriptor_number;
          (s, w) = DoWriteStringToFile io (contents @ [10]) tmp True w;
          (s, w) = (if ok s then RenameFile io tmp (CurrentFileName dbname) w else (s, w))
      in if \<not> ok s then (s, snd (DeleteFile io tmp w)) else (s, w))"

section \<open>Decimal numbers\<close>

text \<open>The value of a digit string, without bounds.\<close>

definition digit_value :: "byte \<Rightarrow> nat" where
  "digit_value c = unat c - 48"

definition decimal :: "slice \<Rightarrow> nat" where
  "decimal ds = foldl (\<lambda>v c. 10 * v + digit_value c) 0 ds"

lemma is_digit_unat: "is_digit c \<longleftrightarrow> 48 \<le> unat c \<and> unat c \<le> 57"
  by (simp add: is_digit_def word_le_nat_alt)

lemma decimal_mono: "v \<le> foldl (\<lambda>v c. 10 * v + digit_value c) v ds"
proof (induction ds arbitrary: v)
  case (Cons c ds)
  have "v \<le> 10 * v + digit_value c"
    by simp
  also note Cons
  finally show ?case
    by simp
qed simp

lemma kMaxUint64_div_mod: "unat (kMaxUint64 div 10) = (2 ^ 64 - 1) div 10" "unat (kMaxUint64 mod 10) = 5"
  by (simp_all add: kMaxUint64_def unat_div unat_mod)

lemma ConsumeDecimal_step:
  fixes v :: u64
  assumes "is_digit c"
  defines "delta \<equiv> ucast c - ucast (of_char CHR ''0'' :: byte)"
  shows "v > kMaxUint64 div 10 \<or> (v = kMaxUint64 div 10 \<and> delta > kMaxUint64 mod 10) \<longleftrightarrow> \<not> 10 * unat v + digit_value c < 2 ^ 64"
    and "10 * unat v + digit_value c < 2 ^ 64 \<Longrightarrow> v * 10 + delta = word_of_nat (10 * unat v + digit_value c)"
proof -
  have c: "48 \<le> unat c" "unat c \<le> 57"
    using assms(1) by (simp_all add: is_digit_unat)
  have d: "unat delta = digit_value c"
  proof -
    have "(48 :: u64) \<le> ucast c"
      using c by (simp add: word_le_nat_alt unat_ucast_up)
    then show ?thesis
      by (simp add: delta_def digit_value_def unat_sub unat_ucast_up)
  qed
  have "digit_value c \<le> 9"
    using c by (simp add: digit_value_def)
  then show "v > kMaxUint64 div 10 \<or> (v = kMaxUint64 div 10 \<and> delta > kMaxUint64 mod 10) \<longleftrightarrow> \<not> 10 * unat v + digit_value c < 2 ^ 64"
    unfolding word_less_nat_alt word_unat_eq_iff kMaxUint64_div_mod d by simp linarith
  have "v * 10 + delta = word_of_nat (unat (v * 10 + delta))"
    by simp
  also have "\<dots> = word_of_nat (unat v * 10 + unat delta)"
    by simp
  finally show "v * 10 + delta = word_of_nat (10 * unat v + digit_value c)"
    by (simp add: d mult.commute)
qed

lemma ConsumeDecimal_loop_digits:
  assumes "list_all is_digit ds" and "rest = [] \<or> \<not> is_digit (hd rest)"
  shows "ConsumeDecimal_loop v n (ds @ rest) =
    (let value = foldl (\<lambda>v c. 10 * v + digit_value c) (unat v) ds in
     if value < 2 ^ 64 then Some (word_of_nat value, n + length ds, rest) else None)"
  using assms(1)
proof (induction ds arbitrary: v n)
  case Nil
  then show ?case
    using assms(2) unat_less_exp [of v] by (cases rest) simp_all
next
  case (Cons c ds)
  define x where "x = 10 * unat v + digit_value c"
  from Cons.prems have c: "is_digit c" "list_all is_digit ds"
    by simp_all
  note step = ConsumeDecimal_step [OF c(1), of v, folded x_def]
  show ?case
  proof (cases "x < 2 ^ 64")
    case True
    then have "unat (word_of_nat x :: u64) = x"
      by (intro unat_word_of_nat_small) simp
    then show ?thesis
      using Cons.IH [OF c(2), of "word_of_nat x" "n + 1"] c(1) step True
      by (auto simp: Let_def simp flip: x_def)
  next
    case False
    moreover have "x \<le> foldl (\<lambda>v c. 10 * v + digit_value c) x ds"
      by (rule decimal_mono)
    ultimately show ?thesis
      using c(1) step(1) by (auto simp: Let_def simp flip: x_def)
  qed
qed

lemma ConsumeDecimalNumber_digits:
  assumes "list_all is_digit ds" and "ds \<noteq> []" and "rest = [] \<or> \<not> is_digit (hd rest)"
  shows "ConsumeDecimalNumber (ds @ rest) = (if decimal ds < 2 ^ 64 then Some (word_of_nat (decimal ds), rest) else None)"
  using assms(2) by (simp add: ConsumeDecimalNumber_def ConsumeDecimal_loop_digits [OF assms(1,3)] decimal_def Let_def)

lemma decimal_append: "decimal (xs @ [c]) = 10 * decimal xs + digit_value c"
  by (simp add: decimal_def)

lemma dec_nat_digits: "list_all is_digit (dec_nat n)" "decimal (dec_nat n) = n" "dec_nat n \<noteq> []"
proof (induction n rule: dec_nat.induct)
  case (1 n)
  have d: "is_digit (word_of_nat (48 + k)) \<and> digit_value (word_of_nat (48 + k)) = k" if "k < 10" for k
  proof -
    have "unat (word_of_nat (48 + k) :: byte) = 48 + k"
      using that by (intro unat_word_of_nat_small) simp
    with that show ?thesis
      by (simp add: is_digit_unat digit_value_def del: of_nat_add)
  qed
  { case 1
    show ?case
      using "1.IH"(1) d [of n] d [of "n mod 10"] by (subst dec_nat.simps) (simp del: of_nat_add)
  next
    case 2
    show ?case
      using "1.IH"(2) d [of n] d [of "n mod 10"] by (subst dec_nat.simps) (simp add: decimal_append del: of_nat_add, simp add: decimal_def)
  next
    case 3
    show ?case
      by (subst dec_nat.simps) simp }
qed

lemma dec06_digits: "list_all is_digit (dec06 n)" "decimal (dec06 n) = unat n" "dec06 n \<noteq> []"
proof -
  have "decimal (replicate k (of_char CHR ''0'') @ ds) = decimal ds" for k ds
    by (induction k) (simp_all add: decimal_def digit_value_def)
  moreover have "list_all is_digit (replicate k (of_char CHR ''0''))" for k
    by (simp add: list_all_iff is_digit_def)
  ultimately show "list_all is_digit (dec06 n)" "decimal (dec06 n) = unat n" "dec06 n \<noteq> []"
    by (simp_all add: dec06_def Let_def dec_nat_digits)
qed

lemma Consume_dec06:
  assumes "rest = [] \<or> \<not> is_digit (hd rest)"
  shows "ConsumeDecimalNumber (dec06 n @ rest) = Some (n, rest)"
  using unat_less_exp [of n] by (simp add: ConsumeDecimalNumber_digits [OF dec06_digits(1,3) assms] dec06_digits(2))

lemma dec06_not_letter: "dec06 n @ x \<noteq> c # y" if "\<not> is_digit c"
  using dec06_digits(1,3) [of n] that by (cases "dec06 n") auto

section \<open>Which files a call can change\<close>

text \<open>
  The library changes only the file a call names or a handle writes to, also when the call fails.
  Renaming replaces the target in one step or does nothing.
\<close>

locale stdio_frame = stdio_laws io files hname rest
  for io :: "'w stdio" and files :: "'w \<Rightarrow> slice \<Rightarrow> slice option" and hname :: "'w \<Rightarrow> nat \<Rightarrow> slice option" and rest :: "nat \<Rightarrow> 'w \<Rightarrow> slice" +
  assumes open_frame: "c_fopen io f mode w = (h, w') \<Longrightarrow> g \<noteq> f \<Longrightarrow> files w' g = files w g"
    and write_frame: "c_fwrite io h d w = (cnt, w') \<Longrightarrow> hname w h = Some f \<Longrightarrow> g \<noteq> f \<Longrightarrow> files w' g = files w g"
    and unlink_frame: "g \<noteq> f \<Longrightarrow> files (c_unlink io f w) g = files w g"
    and rename_atomic: "f \<noteq> g \<Longrightarrow> files (c_rename io f g w) = (files w)(g := files w f, f := None) \<or> files (c_rename io f g w) = files w"
begin

lemma Append_frame:
  assumes "wf_Append (UnSecurePosixWritableFile io fname h) d w = (s, w')" and "hname w h = Some f" and "g \<noteq> f"
  shows "files w' g = files w g"
  using assms write_frame [OF _ assms(2,3)]
  by (auto simp: UnSecurePosixWritableFile_def ocall_fwrite_def split: prod.splits if_splits)

lemma Sync_Close_frame:
  "wf_Sync (UnSecurePosixWritableFile io fname h) w = (s, w') \<Longrightarrow> files w' = files w"
  "wf_Close (UnSecurePosixWritableFile io fname h) w = (s, w') \<Longrightarrow> files w' = files w"
  "files (wf_Drop (UnSecurePosixWritableFile io fname h) w) = files w"
  using flush_keeps [of h w] close_keeps [of h w]
  by (auto simp: UnSecurePosixWritableFile_def Posix_Sync_def Posix_Close_def Let_def prod_eq_iff split: prod.splits if_splits)

lemma DoWriteStringToFile_frame:
  assumes "DoWriteStringToFile io data fname sync w = (s, w')" and "g \<noteq> fname"
  shows "files w' g = files w g"
proof -
  obtain h w0 where h: "c_fopen io fname (str ''w'') w = (h, w0)"
    by fastforce
  have f0: "files w0 g = files w g"
    using open_frame [OF h assms(2)] .
  show ?thesis
  proof (cases "h = 0")
    case True
    with h f0 assms show ?thesis
      by (auto simp: DoWriteStringToFile_def NewUnSecureWritableFile_def ocall_fopen_def)
  next
    case False
    let ?f = "UnSecurePosixWritableFile io fname h"
    obtain s1 w1 where a: "wf_Append ?f data w0 = (s1, w1)"
      by fastforce
    have f1: "files w1 g = files w g"
      using Append_frame [OF a _ assms(2)] open_write [OF h False] f0 by simp
    obtain s2 w2 where sy: "(if ok s1 \<and> sync then wf_Sync ?f w1 else (s1, w1)) = (s2, w2)"
      by fastforce
    obtain s3 w3 where cl: "(if ok s2 then wf_Close ?f w2 else (s2, wf_Drop ?f w2)) = (s3, w3)"
      by fastforce
    have "files w3 g = files w g"
      using f1 sy cl Sync_Close_frame by (auto split: if_splits)
    moreover have "(s, w') = (if \<not> ok s3 then (s3, c_unlink io fname w3) else (s3, w3))"
      using assms(1) h False a sy cl
      by (auto simp: DoWriteStringToFile_def NewUnSecureWritableFile_def ocall_fopen_def DeleteFile_def split: if_splits)
    ultimately show ?thesis
      using unlink_frame [OF assms(2)] by (auto split: if_splits)
  qed
qed

lemma SetCurrentFile_atomic:
  assumes "SetCurrentFile io dbname n w = (s, w')"
  shows "files w' (CurrentFileName dbname) = files w (CurrentFileName dbname) \<or>
    (ok s \<and> files w' (CurrentFileName dbname) = Some (str ''MANIFEST-'' @ dec06 n @ [10]))"
proof -
  let ?cur = "CurrentFileName dbname" and ?tmp = "TempFileName dbname n" and ?new = "str ''MANIFEST-'' @ dec06 n @ [10]"
  have ne: "?tmp \<noteq> ?cur"
    using dec06_not_letter [of "of_char CHR ''C''"] by (simp add: CurrentFileName_def TempFileName_def MakeFileName_def is_digit_def)
  have new: "drop (length dbname + 1) (DescriptorFileName dbname n) @ [10] = ?new"
    by (simp add: DescriptorFileName_def)
  obtain s1 w1 where wr: "DoWriteStringToFile io ?new ?tmp True w = (s1, w1)"
    by fastforce
  have w1: "files w1 ?cur = files w ?cur"
    using DoWriteStringToFile_frame [OF wr] ne by metis
  show ?thesis
  proof (cases "ok s1")
    case True
    then have "files w1 ?tmp = Some ?new"
      by (rule DoWriteStringToFile_contents [OF wr])
    moreover have "s = OK" "w' = c_rename io ?tmp ?cur w1"
      using assms True unfolding SetCurrentFile_def Let_def new wr by (simp_all add: RenameFile_def)
    ultimately show ?thesis
      using rename_atomic [OF ne, of w1] w1 by (auto simp: ne not_sym [OF ne])
  next
    case False
    then have "w' = c_unlink io ?tmp w1"
      using assms unfolding SetCurrentFile_def Let_def new wr by (simp add: DeleteFile_def)
    then show ?thesis
      using unlink_frame [of ?cur ?tmp w1] ne w1 by metis
  qed
qed

end

interpretation mem: stdio_frame mem_io mw_files "\<lambda>w h. map_option fst (mw_handles w h)" mem_rest
  by unfold_locales
    (auto simp: mem_io_def mem_fopen_def mem_open_def mem_fwrite_def split: if_splits option.splits)

section \<open>Properties\<close>

text \<open>C31: \<open>ParseFileName\<close> recognises every name the database gives its files, with the right type and, for
  numbered files, the number it was made from.\<close>

theorem filename_roundtrip:
  "ParseFileName (drop (length db + 1) (LogFileName db n)) = Some (n, kLogFile) \<and>
   ParseFileName (drop (length db + 1) (TableFileName db n)) = Some (n, kTableFile) \<and>
   ParseFileName (drop (length db + 1) (SSTTableFileName db n)) = Some (n, kTableFile) \<and>
   ParseFileName (drop (length db + 1) (DescriptorFileName db n)) = Some (n, kDescriptorFile) \<and>
   ParseFileName (drop (length db + 1) (TempFileName db n)) = Some (n, kTempFile) \<and>
   ParseFileName (drop (length db + 1) (CurrentFileName db)) = Some (0, kCurrentFile) \<and>
   ParseFileName (drop (length db + 1) (LockFileName db)) = Some (0, kDBLockFile) \<and>
   ParseFileName (drop (length db + 1) (InfoLogFileName db)) = Some (0, kInfoLogFile) \<and>
   ParseFileName (drop (length db + 1) (OldInfoLogFileName db)) = Some (0, kInfoLogFile)"
proof -
  have dot: "\<not> is_digit (hd (46 # x))" for x
    by (simp add: is_digit_def)
  have letters: "\<not> is_digit 67" "\<not> is_digit 76" "\<not> is_digit 77"
    by (simp_all add: is_digit_def)
  have numbered: "ParseFileName (dec06 n @ 46 # x) =
      (if x = str ''log'' then Some (n, kLogFile) else if x = str ''sst'' \<or> x = str ''ldb'' then Some (n, kTableFile)
       else if x = str ''dbtmp'' then Some (n, kTempFile) else None)" for x
    using Consume_dec06 [of "46 # x" n] dot dec06_not_letter [OF letters(1), of n] dec06_not_letter [OF letters(2), of n]
      dec06_not_letter [OF letters(3), of n]
    by (simp add: ParseFileName_def starts_with_iff)
  have manifest: "ParseFileName (77 # 65 # 78 # 73 # 70 # 69 # 83 # 84 # 45 # dec06 n) = Some (n, kDescriptorFile)"
    using Consume_dec06 [of "[]" n] by (simp add: ParseFileName_def starts_with_iff)
  show ?thesis
    using manifest
    by (simp add: LogFileName_def TableFileName_def SSTTableFileName_def TempFileName_def MakeFileName_def DescriptorFileName_def
        numbered CurrentFileName_def LockFileName_def InfoLogFileName_def OldInfoLogFileName_def)
      (simp add: ParseFileName_def)
qed

text \<open>C32: \<open>ConsumeDecimalNumber\<close> reads a string of digits as its exact value when that fits 64 bits and reports
  overflow otherwise; the checks in its loop never let a product or sum wrap.\<close>

theorem consume_decimal_exact:
  assumes "list_all is_digit ds" and "ds \<noteq> []" and "rest = [] \<or> \<not> is_digit (hd rest)"
  shows "ConsumeDecimalNumber (ds @ rest) = (if decimal ds < 2 ^ 64 then Some (word_of_nat (decimal ds), rest) else None)"
  by (rule ConsumeDecimalNumber_digits [OF assms])

theorem consume_decimal_exact_witness:
  "ConsumeDecimalNumber ([49, 56, 52, 52, 54, 55, 52, 52, 48, 55, 51, 55, 48, 57, 53, 53, 49, 54, 49, 54] @ [46]) = None \<and>
   ConsumeDecimalNumber ([52, 50] @ [46]) = Some (42, [46])"
  using consume_decimal_exact [of "[49, 56, 52, 52, 54, 55, 52, 52, 48, 55, 51, 55, 48, 57, 53, 53, 49, 54, 49, 54]" "[46]"]
    consume_decimal_exact [of "[52, 50]" "[46]"]
  by (simp add: is_digit_def decimal_def digit_value_def)



end
