(* ===== verification/Db_Options.thy ===== *)
theory Db_Options
  imports Bloom Dbformat
begin

text \<open>
  \<^verbatim>\<open>include/leveldb/options.h\<close> and \<^verbatim>\<open>util/options.cpp\<close>: the options of a database, of reads and of writes.
  The environment, the information log and the block cache are arguments of the operations that use them; the
  record says whether a block cache is set.
\<close>

datatype CompressionType = kNoCompression | kSnappyCompression

primrec CompressionType_code :: "CompressionType \<Rightarrow> byte" where
  "CompressionType_code kNoCompression = 0"
| "CompressionType_code kSnappyCompression = 1"

record Options =
  opt_comparator :: comparator
  opt_create_if_missing :: bool
  opt_error_if_exists :: bool
  opt_paranoid_checks :: bool
  opt_write_buffer_size :: nat
  opt_max_open_files :: int
  opt_block_cache :: bool
  opt_block_size :: nat
  opt_block_restart_interval :: nat
  opt_max_file_size :: nat
  opt_compression :: CompressionType
  opt_reuse_logs :: bool
  opt_filter_policy :: "filter_policy option"

definition default_Options :: Options where
  "default_Options =
     \<lparr>opt_comparator = BytewiseComparator, opt_create_if_missing = False, opt_error_if_exists = False,
      opt_paranoid_checks = False, opt_write_buffer_size = 4 * 2 ^ 20, opt_max_open_files = 2000, opt_block_cache = False,
      opt_block_size = 4096, opt_block_restart_interval = 16, opt_max_file_size = 2 * 2 ^ 20, opt_compression = kNoCompression,
      opt_reuse_logs = False, opt_filter_policy = None\<rparr>"

record ReadOptions =
  ro_verify_checksums :: bool
  ro_fill_cache :: bool
  ro_snapshot :: "SequenceNumber option"

definition default_ReadOptions :: ReadOptions where
  "default_ReadOptions = \<lparr>ro_verify_checksums = False, ro_fill_cache = True, ro_snapshot = None\<rparr>"

record WriteOptions =
  wo_sync :: bool

definition default_WriteOptions :: WriteOptions where
  "default_WriteOptions = \<lparr>wo_sync = False\<rparr>"

end
