(* ===== verification/Iterators.thy ===== *)
theory Iterators
  imports Comparators Status
begin

text \<open>
  \<^verbatim>\<open>include/leveldb/iterator.h\<close> and \<^verbatim>\<open>table/iterator.cpp\<close>: an iterator is the record of its virtual methods over
  a state. The locale \<open>seq_iterator\<close> is its contract: the iterator stands at a position of a fixed
  sequence of entries, past the end when it is not valid. Blocks, tables, merged and concatenated
  sequences meet it, and their users rely on it alone.
\<close>

record 's Iterator =
  i_Valid :: "'s \<Rightarrow> bool"
  i_SeekToFirst :: "'s \<Rightarrow> 's"
  i_SeekToLast :: "'s \<Rightarrow> 's"
  i_Seek :: "slice \<Rightarrow> 's \<Rightarrow> 's"
  i_Next :: "'s \<Rightarrow> 's"
  i_Prev :: "'s \<Rightarrow> 's"
  i_key :: "'s \<Rightarrow> slice"
  i_value :: "'s \<Rightarrow> slice"
  i_status :: "'s \<Rightarrow> status"

text \<open>The state of an \<open>EmptyIterator\<close> is its status; \<open>Next\<close>, \<open>Prev\<close>, \<open>key\<close> and \<open>value\<close> only assert.\<close>

definition EmptyIterator :: "status Iterator" where
  "EmptyIterator =
     \<lparr>i_Valid = (\<lambda>_. False), i_SeekToFirst = id, i_SeekToLast = id, i_Seek = (\<lambda>_. id), i_Next = id, i_Prev = id,
      i_key = (\<lambda>_. []), i_value = (\<lambda>_. []), i_status = id\<rparr>"

definition NewEmptyIterator :: status where "NewEmptyIterator = OK"
definition NewErrorIterator :: "status \<Rightarrow> status" where "NewErrorIterator s = s"

text \<open>Cleanup functions: the first registered one runs first, the others in reverse order of registration.\<close>

definition RegisterCleanup :: "'f \<Rightarrow> 'f list \<Rightarrow> 'f list" where
  "RegisterCleanup f cs = (case cs of [] \<Rightarrow> [f] | c # rest \<Rightarrow> c # f # rest)"

definition run_Cleanups :: "('w \<Rightarrow> 'w) list \<Rightarrow> 'w \<Rightarrow> 'w" where
  "run_Cleanups cs w = fold (\<lambda>f w. f w) cs w"

section \<open>The contract\<close>

type_synonym entries = "(slice \<times> slice) list"

text \<open>The position \<open>Seek\<close> moves to: the first entry that is not below the target.\<close>

definition lower_bound :: "(slice \<Rightarrow> slice \<Rightarrow> int) \<Rightarrow> slice \<Rightarrow> entries \<Rightarrow> nat" where
  "lower_bound cmp t es = length (takeWhile (\<lambda>(k, v). cmp k t < 0) es)"

lemma lower_bound_le: "lower_bound cmp t es \<le> length es"
  by (simp add: lower_bound_def length_takeWhile_le)

lemma lower_bound_eqI:
  assumes "i \<le> length es" and "\<And>j. j < i \<Longrightarrow> cmp (fst (es ! j)) t < 0" and "i < length es \<Longrightarrow> \<not> cmp (fst (es ! i)) t < 0"
  shows "lower_bound cmp t es = i"
proof -
  have "takeWhile (\<lambda>(k, v). cmp k t < 0) es = take i es"
    using assms by (intro takeWhile_eq_take_P_nth) (auto simp: case_prod_unfold)
  with assms(1) show ?thesis
    by (simp add: lower_bound_def)
qed

locale seq_iterator =
  fixes it :: "'s Iterator" and cmp :: "slice \<Rightarrow> slice \<Rightarrow> int" and es :: entries
    and inv :: "'s \<Rightarrow> bool" and pos :: "'s \<Rightarrow> nat"
  assumes pos_le: "inv s \<Longrightarrow> pos s \<le> length es"
    and valid: "inv s \<Longrightarrow> i_Valid it s \<longleftrightarrow> pos s < length es"
    and key: "inv s \<Longrightarrow> pos s < length es \<Longrightarrow> i_key it s = fst (es ! pos s)"
    and val: "inv s \<Longrightarrow> pos s < length es \<Longrightarrow> i_value it s = snd (es ! pos s)"
    and first: "inv s \<Longrightarrow> inv (i_SeekToFirst it s) \<and> pos (i_SeekToFirst it s) = 0"
    and last: "inv s \<Longrightarrow> inv (i_SeekToLast it s) \<and> pos (i_SeekToLast it s) = length es - 1"
    and seek: "inv s \<Longrightarrow> inv (i_Seek it t s) \<and> pos (i_Seek it t s) = lower_bound cmp t es"
    and step: "inv s \<Longrightarrow> pos s < length es \<Longrightarrow> inv (i_Next it s) \<and> pos (i_Next it s) = Suc (pos s)"
    and prev: "inv s \<Longrightarrow> pos s < length es \<Longrightarrow> inv (i_Prev it s) \<and>
      pos (i_Prev it s) = (if pos s = 0 then length es else pos s - 1)"
    and status_ok: "inv s \<Longrightarrow> ok (i_status it s)"
begin

text \<open>Scanning forward from a position visits the rest of the sequence.\<close>

fun scan :: "nat \<Rightarrow> 's \<Rightarrow> entries" where
  "scan 0 s = []"
| "scan (Suc n) s = (if i_Valid it s then (i_key it s, i_value it s) # scan n (i_Next it s) else [])"

lemma scan_drop: "inv s \<Longrightarrow> length es - pos s \<le> n \<Longrightarrow> scan n s = drop (pos s) es"
proof (induction n arbitrary: s)
  case (Suc n)
  show ?case
  proof (cases "pos s < length es")
    case True
    then show ?thesis
      using Suc.IH [of "i_Next it s"] Suc.prems step [OF Suc.prems(1) True]
      by (simp add: valid key val Cons_nth_drop_Suc)
  qed (use Suc.prems in \<open>simp add: valid\<close>)
qed simp

end

interpretation empty: seq_iterator EmptyIterator cmp "[]" ok "\<lambda>_. 0" for cmp
  by unfold_locales (auto simp: EmptyIterator_def lower_bound_def)

end
