(* ===== verification/Block.thy ===== *)
theory Block
  imports Iterators Coding
begin

text \<open>
  \<^verbatim>\<open>table/block_builder.cpp\<close> and \<^verbatim>\<open>table/block.cpp\<close>: prefix-compressed key/value blocks with restart points.
  Offsets are counted in the block and are naturals: a block is smaller than 4 GiB, so that the
  \<open>uint32_t\<close> of the code does not wrap on them. The main result: the iterator over a finished block is
  a \<open>seq_iterator\<close> on the entries that were added.
\<close>

section \<open>The builder\<close>

record BlockBuilder =
  bb_buffer :: slice
  bb_restarts :: "u32 list"
  bb_counter :: nat
  bb_finished :: bool
  bb_last_key :: slice
  bb_total :: nat

definition new_BlockBuilder :: BlockBuilder where
  "new_BlockBuilder = \<lparr>bb_buffer = [], bb_restarts = [0], bb_counter = 0, bb_finished = False, bb_last_key = [], bb_total = 0\<rparr>"

definition BlockBuilder_Reset :: "BlockBuilder \<Rightarrow> BlockBuilder" where
  "BlockBuilder_Reset b = b\<lparr>bb_buffer := [], bb_restarts := [0], bb_counter := 0, bb_finished := False, bb_last_key := []\<rparr>"

definition CurrentSizeEstimate :: "BlockBuilder \<Rightarrow> nat" where
  "CurrentSizeEstimate b = length (bb_buffer b) + length (bb_restarts b) * 4 + 4"

definition BlockBuilder_Finish :: "BlockBuilder \<Rightarrow> slice \<times> BlockBuilder" where
  "BlockBuilder_Finish b =
     (let buf = foldl PutFixed32 (bb_buffer b) (bb_restarts b);
          buf = PutFixed32 buf (word_of_nat (length (bb_restarts b)))
      in (buf, b\<lparr>bb_buffer := buf, bb_finished := True\<rparr>))"

text \<open>The loop that counts the bytes shared with the previous key.\<close>

fun shared_prefix :: "slice \<Rightarrow> slice \<Rightarrow> nat" where
  "shared_prefix (a # as) (b # bs) = (if a = b then Suc (shared_prefix as bs) else 0)"
| "shared_prefix _ _ = 0"

definition entry_header :: "nat \<Rightarrow> nat \<Rightarrow> nat \<Rightarrow> slice" where
  "entry_header shared non_shared value_size =
     PutVarint32 (PutVarint32 (PutVarint32 [] (word_of_nat shared)) (word_of_nat non_shared)) (word_of_nat value_size)"

definition BlockBuilder_Add :: "nat \<Rightarrow> slice \<Rightarrow> slice \<Rightarrow> BlockBuilder \<Rightarrow> BlockBuilder" where
  "BlockBuilder_Add block_restart_interval key value b =
     (let (shared, b) =
        (if bb_counter b < block_restart_interval then (shared_prefix (bb_last_key b) key, b)
         else (0, b\<lparr>bb_restarts := bb_restarts b @ [word_of_nat (length (bb_buffer b))], bb_counter := 0\<rparr>));
          non_shared = length key - shared;
          buf = bb_buffer b @ entry_header shared non_shared (length value) @ drop shared key @ value
      in b\<lparr>bb_buffer := buf, bb_last_key := take shared (bb_last_key b) @ drop shared key,
           bb_counter := bb_counter b + 1, bb_total := bb_total b + 1\<rparr>)"

section \<open>The block\<close>

record BlockT =
  blk_data :: slice
  blk_size :: nat
  blk_restart_offset :: nat

definition NumRestarts :: "slice \<Rightarrow> u32" where
  "NumRestarts data = DecodeFixed32 (drop (length data - 4) data)"

definition make_Block :: "slice \<Rightarrow> BlockT" where
  "make_Block contents =
     (let size = length contents in
      if size < 4 then \<lparr>blk_data = contents, blk_size = 0, blk_restart_offset = 0\<rparr>
      else if unat (NumRestarts contents) > (size - 4) div 4 then \<lparr>blk_data = contents, blk_size = 0, blk_restart_offset = 0\<rparr>
      else \<lparr>blk_data = contents, blk_size = size, blk_restart_offset = size - (1 + unat (NumRestarts contents)) * 4\<rparr>)"

text \<open>
  \<open>DecodeEntry\<close> on the bytes from \<open>p\<close> to \<open>limit\<close>: the three numbers and how many bytes they took.
  The sum of the two lengths is a 32-bit sum.
\<close>

definition DecodeEntry :: "slice \<Rightarrow> (u32 \<times> u32 \<times> u32 \<times> nat) option" where
  "DecodeEntry p =
     (if length p < 3 then None
      else let shared = ucast (p ! 0) :: u32; non_shared = ucast (p ! 1) :: u32; value_length = ucast (p ! 2) :: u32;
               decoded =
                 (if (shared OR non_shared OR value_length) < 128 then Some (shared, non_shared, value_length, drop 3 p)
                  else case GetVarint32Ptr p of None \<Rightarrow> None | Some (shared, p) \<Rightarrow>
                       case GetVarint32Ptr p of None \<Rightarrow> None | Some (non_shared, p) \<Rightarrow>
                       case GetVarint32Ptr p of None \<Rightarrow> None | Some (value_length, p) \<Rightarrow>
                         Some (shared, non_shared, value_length, p))
           in case decoded of
                None \<Rightarrow> None
              | Some (shared, non_shared, value_length, q) \<Rightarrow>
                  if word_of_nat (length q) < non_shared + value_length then None
                  else Some (shared, non_shared, value_length, length p - length q))"

section \<open>The iterator\<close>

text \<open>
  \<open>bi_voff\<close> and \<open>bi_vlen\<close> are the extent of \<open>value_\<close> in the block; its end is where the next entry starts.
\<close>

record BlockIter =
  bi_data :: slice
  bi_restarts :: nat
  bi_num_restarts :: nat
  bi_current :: nat
  bi_restart_index :: nat
  bi_key :: slice
  bi_voff :: nat
  bi_vlen :: nat
  bi_status :: status

definition new_BlockIter :: "slice \<Rightarrow> nat \<Rightarrow> nat \<Rightarrow> BlockIter" where
  "new_BlockIter data restarts num_restarts =
     \<lparr>bi_data = data, bi_restarts = restarts, bi_num_restarts = num_restarts, bi_current = restarts,
      bi_restart_index = num_restarts, bi_key = [], bi_voff = 0, bi_vlen = 0, bi_status = OK\<rparr>"

definition NextEntryOffset :: "BlockIter \<Rightarrow> nat" where
  "NextEntryOffset s = bi_voff s + bi_vlen s"

definition GetRestartPoint :: "BlockIter \<Rightarrow> nat \<Rightarrow> nat" where
  "GetRestartPoint s index = unat (DecodeFixed32 (drop (bi_restarts s + index * 4) (bi_data s)))"

definition SeekToRestartPoint :: "nat \<Rightarrow> BlockIter \<Rightarrow> BlockIter" where
  "SeekToRestartPoint index s = s\<lparr>bi_key := [], bi_restart_index := index, bi_voff := GetRestartPoint s index, bi_vlen := 0\<rparr>"

definition CorruptionError :: "BlockIter \<Rightarrow> BlockIter" where
  "CorruptionError s = s\<lparr>bi_current := bi_restarts s, bi_restart_index := bi_num_restarts s,
     bi_status := Corruption (str ''bad entry in block'') [], bi_key := [], bi_voff := 0, bi_vlen := 0\<rparr>"

function advance_restart :: "BlockIter \<Rightarrow> nat \<Rightarrow> nat" where
  "advance_restart s i =
     (if i + 1 < bi_num_restarts s \<and> GetRestartPoint s (i + 1) < bi_current s then advance_restart s (i + 1) else i)"
  by pat_completeness auto
termination
  by (relation "measure (\<lambda>(s, i). bi_num_restarts s - i)") auto

declare advance_restart.simps [simp del]

definition ParseNextKey :: "BlockIter \<Rightarrow> bool \<times> BlockIter" where
  "ParseNextKey s =
     (let s = s\<lparr>bi_current := NextEntryOffset s\<rparr>; p = bi_current s; limit = bi_restarts s in
      if p \<ge> limit then (False, s\<lparr>bi_current := bi_restarts s, bi_restart_index := bi_num_restarts s\<rparr>)
      else case DecodeEntry (drop p (take limit (bi_data s))) of
             None \<Rightarrow> (False, CorruptionError s)
           | Some (shared, non_shared, value_length, n) \<Rightarrow>
               if length (bi_key s) < unat shared then (False, CorruptionError s)
               else let s = s\<lparr>bi_key := take (unat shared) (bi_key s) @ take (unat non_shared) (drop (p + n) (bi_data s)),
                             bi_voff := p + n + unat non_shared, bi_vlen := unat value_length\<rparr>
                    in (True, s\<lparr>bi_restart_index := advance_restart s (bi_restart_index s)\<rparr>))"

definition bi_Valid :: "BlockIter \<Rightarrow> bool" where
  "bi_Valid s \<longleftrightarrow> bi_current s < bi_restarts s"

definition bi_value :: "BlockIter \<Rightarrow> slice" where
  "bi_value s = take (bi_vlen s) (drop (bi_voff s) (bi_data s))"

definition bi_Next :: "BlockIter \<Rightarrow> BlockIter" where
  "bi_Next s = snd (ParseNextKey s)"

lemma GetVarint32Ptr_shorter: "GetVarint32Ptr p = Some (v, q) \<Longrightarrow> length q < length p"
  using GetVarint_shorter(1) by (simp add: GetVarint32_def)

lemma DecodeEntry_progress: "DecodeEntry p = Some (sh, ns, vl, n) \<Longrightarrow> 0 < n"
  by (auto simp: DecodeEntry_def Let_def split: if_splits option.splits dest!: GetVarint32Ptr_shorter)

lemma ParseNextKey_progress:
  assumes "ParseNextKey s = (True, s')"
  shows "NextEntryOffset s < bi_restarts s" "NextEntryOffset s < NextEntryOffset s'" "bi_restarts s' = bi_restarts s"
  using assms by (auto simp: ParseNextKey_def Let_def NextEntryOffset_def split: if_splits option.splits dest!: DecodeEntry_progress)

lemma ParseNextKey_measure:
  "(True, s') = ParseNextKey s \<Longrightarrow> bi_restarts s' - NextEntryOffset s' < bi_restarts s - NextEntryOffset s"
  using ParseNextKey_progress [of s s'] by simp

text \<open>The loops around \<open>ParseNextKey\<close>: until a key is at or above the target, and until an offset is reached.\<close>

function seek_linear :: "comparator \<Rightarrow> slice \<Rightarrow> BlockIter \<Rightarrow> BlockIter" where
  "seek_linear c target s =
     (case ParseNextKey s of (found, s') \<Rightarrow>
        if \<not> found then s'
        else if Compare c (bi_key s') target \<ge> 0 then s'
        else seek_linear c target s')"
  by pat_completeness auto
termination
  by (relation "measure (\<lambda>(c, t, s). bi_restarts s - NextEntryOffset s)") (auto dest: ParseNextKey_measure)

function scan_until :: "nat \<Rightarrow> BlockIter \<Rightarrow> BlockIter" where
  "scan_until original s =
     (case ParseNextKey s of (found, s') \<Rightarrow>
        if found \<and> NextEntryOffset s' < original then scan_until original s' else s')"
  by pat_completeness auto
termination
  by (relation "measure (\<lambda>(original, s). bi_restarts s - NextEntryOffset s)") (auto dest: ParseNextKey_measure)

declare seek_linear.simps [simp del] scan_until.simps [simp del]

fun prev_restart :: "BlockIter \<Rightarrow> nat \<Rightarrow> nat \<Rightarrow> nat option" where
  "prev_restart s original 0 = (if GetRestartPoint s 0 \<ge> original then None else Some 0)"
| "prev_restart s original (Suc i) = (if GetRestartPoint s (Suc i) \<ge> original then prev_restart s original i else Some (Suc i))"

definition bi_Prev :: "BlockIter \<Rightarrow> BlockIter" where
  "bi_Prev s =
     (let original = bi_current s in
      case prev_restart s original (bi_restart_index s) of
        None \<Rightarrow> s\<lparr>bi_current := bi_restarts s, bi_restart_index := bi_num_restarts s\<rparr>
      | Some i \<Rightarrow> scan_until original (SeekToRestartPoint i s))"

function seek_restart :: "comparator \<Rightarrow> slice \<Rightarrow> BlockIter \<Rightarrow> nat \<Rightarrow> nat \<Rightarrow> nat option" where
  "seek_restart c target s left right =
     (if left < right then
        let mid = (left + right + 1) div 2;
            region_offset = GetRestartPoint s mid
        in case DecodeEntry (drop region_offset (take (bi_restarts s) (bi_data s))) of
             None \<Rightarrow> None
           | Some (shared, non_shared, value_length, n) \<Rightarrow>
               if shared \<noteq> 0 then None
               else let mid_key = take (unat non_shared) (drop (region_offset + n) (bi_data s)) in
                    if Compare c mid_key target < 0 then seek_restart c target s mid right
                    else seek_restart c target s left (mid - 1)
      else Some left)"
  by pat_completeness auto
termination
  by (relation "measure (\<lambda>(c, t, s, left, right). right - left)") auto

declare seek_restart.simps [simp del]

definition bi_Seek :: "comparator \<Rightarrow> slice \<Rightarrow> BlockIter \<Rightarrow> BlockIter" where
  "bi_Seek c target s =
     (case seek_restart c target s 0 (bi_num_restarts s - 1) of
        None \<Rightarrow> CorruptionError s
      | Some left \<Rightarrow> seek_linear c target (SeekToRestartPoint left s))"

definition bi_SeekToFirst :: "BlockIter \<Rightarrow> BlockIter" where
  "bi_SeekToFirst s = snd (ParseNextKey (SeekToRestartPoint 0 s))"

definition bi_SeekToLast :: "BlockIter \<Rightarrow> BlockIter" where
  "bi_SeekToLast s = scan_until (bi_restarts s) (SeekToRestartPoint (bi_num_restarts s - 1) s)"

definition BlockIterator :: "comparator \<Rightarrow> BlockIter Iterator" where
  "BlockIterator c =
     \<lparr>i_Valid = bi_Valid, i_SeekToFirst = bi_SeekToFirst, i_SeekToLast = bi_SeekToLast, i_Seek = bi_Seek c,
      i_Next = bi_Next, i_Prev = bi_Prev, i_key = bi_key, i_value = bi_value, i_status = bi_status\<rparr>"

text \<open>\<open>NewIterator\<close> gives a block iterator or an empty one with a status.\<close>

definition Block_NewIterator :: "BlockT \<Rightarrow> status + BlockIter" where
  "Block_NewIterator b =
     (if blk_size b < 4 then Inl (NewErrorIterator (Corruption (str ''bad block contents'') []))
      else let num_restarts = unat (NumRestarts (blk_data b)) in
           if num_restarts = 0 then Inl NewEmptyIterator
           else Inr (new_BlockIter (blk_data b) (blk_restart_offset b) num_restarts))"

section \<open>The layout of a block\<close>

text \<open>Entries with the number of bytes they share with their predecessor.\<close>

type_synonym centry = "nat \<times> slice \<times> slice"

definition centry_bytes :: "centry \<Rightarrow> slice" where
  "centry_bytes = (\<lambda>(sh, k, v). entry_header sh (length k - sh) (length v) @ drop sh k @ v)"

definition cbytes :: "centry list \<Rightarrow> slice" where
  "cbytes cs = concat (map centry_bytes cs)"

definition coff :: "centry list \<Rightarrow> nat \<Rightarrow> nat" where
  "coff cs i = length (cbytes (take i cs))"

fun compressed :: "slice \<Rightarrow> centry list \<Rightarrow> bool" where
  "compressed prev [] = True"
| "compressed prev ((sh, k, v) # cs) \<longleftrightarrow> sh \<le> length k \<and> sh \<le> length prev \<and> take sh k = take sh prev \<and> compressed k cs"

lemma shared_prefix_le: "shared_prefix a b \<le> length a" "shared_prefix a b \<le> length b"
  "take (shared_prefix a b) b = take (shared_prefix a b) a"
  by (induction a b rule: shared_prefix.induct) auto

lemma compressed_append: "compressed prev (cs @ ds) \<longleftrightarrow> compressed prev cs \<and> compressed (if cs = [] then prev else fst (snd (last cs))) ds"
  by (induction prev cs rule: compressed.induct) auto

lemma cbytes_simps [simp]: "cbytes [] = []" "cbytes (c # cs) = centry_bytes c @ cbytes cs" "cbytes (cs @ ds) = cbytes cs @ cbytes ds"
  by (simp_all add: cbytes_def)

lemma coff_0 [simp]: "coff cs 0 = 0"
  by (simp add: coff_def)

lemma coff_Suc: "i < length cs \<Longrightarrow> coff cs (Suc i) = coff cs i + length (centry_bytes (cs ! i))"
  by (simp add: coff_def take_Suc_conv_app_nth)

lemma length_varint_pos: "0 < length (varint n)"
  by (subst varint.simps) simp

lemma length_centry_pos: "0 < length (centry_bytes c)"
  using length_varint_pos by (auto simp: centry_bytes_def entry_header_def Put_varint split: prod.splits)

lemma coff_less: "i < j \<Longrightarrow> j \<le> length cs \<Longrightarrow> coff cs i < coff cs j"
proof (induction j)
  case (Suc j)
  then show ?case
    using coff_Suc [of j cs] length_centry_pos [of "cs ! j"] by (cases "i = j") auto
qed simp

lemma coff_less_iff: "i \<le> length cs \<Longrightarrow> j \<le> length cs \<Longrightarrow> coff cs i < coff cs j \<longleftrightarrow> i < j"
  by (metis coff_less linorder_neqE_nat not_less_iff_gr_or_eq)

lemma coff_append: "i \<le> length cs \<Longrightarrow> coff (cs @ ds) i = coff cs i"
  by (simp add: coff_def)

text \<open>What a builder holds: the compressed entries, and restart points at entries that share nothing.\<close>

definition restart_ok :: "centry list \<Rightarrow> nat list \<Rightarrow> bool" where
  "restart_ok cs rs \<longleftrightarrow> rs \<noteq> [] \<and> hd rs = 0 \<and> sorted_wrt (<) rs \<and>
     (\<forall>r \<in> set rs. (r < length cs \<and> fst (cs ! r) = 0) \<or> (r = 0 \<and> cs = []))"

definition bb_rel :: "BlockBuilder \<Rightarrow> centry list \<Rightarrow> nat list \<Rightarrow> bool" where
  "bb_rel b cs rs \<longleftrightarrow>
     bb_buffer b = cbytes cs \<and> compressed [] cs \<and> bb_last_key b = (if cs = [] then [] else fst (snd (last cs))) \<and>
     bb_restarts b = map (\<lambda>r. word_of_nat (coff cs r)) rs \<and> restart_ok cs rs \<and> (cs = [] \<longrightarrow> bb_counter b = 0)"

lemma bb_rel_new: "bb_rel new_BlockBuilder [] [0]" "bb_rel (BlockBuilder_Reset b) [] [0]"
  by (simp_all add: bb_rel_def new_BlockBuilder_def BlockBuilder_Reset_def restart_ok_def)

lemma restart_ok_keep:
  "restart_ok cs rs \<Longrightarrow> (cs = [] \<Longrightarrow> sh = 0) \<Longrightarrow> restart_ok (cs @ [(sh, k, v)]) rs"
  by (fastforce simp: restart_ok_def nth_append)

lemma restart_ok_snoc:
  assumes "restart_ok cs rs" and "cs \<noteq> []"
  shows "restart_ok (cs @ [(0, k, v)]) (rs @ [length cs])"
  using assms by (auto simp: restart_ok_def nth_append sorted_wrt_append)

lemma restart_ok_le: "restart_ok cs rs \<Longrightarrow> r \<in> set rs \<Longrightarrow> r \<le> length cs"
  by (auto simp: restart_ok_def)

lemma bb_rel_Add:
  assumes "bb_rel b cs rs" and "0 < n"
  obtains sh rs' where "bb_rel (BlockBuilder_Add n k v b) (cs @ [(sh, k, v)]) rs'"
proof (cases "bb_counter b < n")
  case True
  let ?sh = "shared_prefix (bb_last_key b) k"
  have key: "take ?sh (bb_last_key b) @ drop ?sh k = k"
    using shared_prefix_le(3) [of "bb_last_key b" k] by (metis append_take_drop_id)
  have "restart_ok (cs @ [(?sh, k, v)]) rs"
    using assms(1) by (intro restart_ok_keep) (auto simp: bb_rel_def)
  moreover have "coff (cs @ [(?sh, k, v)]) r = coff cs r" if "r \<in> set rs" for r
    using that assms(1) by (auto simp: bb_rel_def coff_append dest: restart_ok_le)
  ultimately have "bb_rel (BlockBuilder_Add n k v b) (cs @ [(?sh, k, v)]) rs"
    using assms(1) True key shared_prefix_le [of "bb_last_key b" k]
    by (simp add: bb_rel_def BlockBuilder_Add_def Let_def centry_bytes_def compressed_append)
  then show thesis
    by (rule that)
next
  case False
  then have cs: "cs \<noteq> []"
    using assms by (auto simp: bb_rel_def)
  have "restart_ok (cs @ [(0, k, v)]) (rs @ [length cs])"
    using assms(1) cs by (intro restart_ok_snoc) (simp_all add: bb_rel_def)
  moreover have "coff (cs @ [(0, k, v)]) r = coff cs r" if "r \<in> set rs" for r
    using that assms(1) by (auto simp: bb_rel_def coff_append dest: restart_ok_le)
  moreover have "coff (cs @ [(0, k, v)]) (length cs) = length (cbytes cs)"
    by (simp add: coff_def)
  ultimately have "bb_rel (BlockBuilder_Add n k v b) (cs @ [(0, k, v)]) (rs @ [length cs])"
    using assms(1) False
    by (simp add: bb_rel_def BlockBuilder_Add_def Let_def centry_bytes_def compressed_append)
  then show thesis
    by (rule that)
qed

definition build_block :: "nat \<Rightarrow> entries \<Rightarrow> BlockBuilder" where
  "build_block n es = fold (\<lambda>(k, v). BlockBuilder_Add n k v) es new_BlockBuilder"

lemma bb_rel_fold:
  assumes "0 < n" and "bb_rel b cs rs"
  shows "\<exists>cs' rs'. bb_rel (fold (\<lambda>(k, v). BlockBuilder_Add n k v) es b) (cs @ cs') rs' \<and> map snd cs' = es"
  using assms(2)
proof (induction es arbitrary: b cs rs)
  case Nil
  then show ?case
    by auto
next
  case (Cons e es)
  obtain k v where e: "e = (k, v)"
    by (cases e)
  obtain sh rs1 where "bb_rel (BlockBuilder_Add n k v b) (cs @ [(sh, k, v)]) rs1"
    by (rule bb_rel_Add [OF Cons.prems assms(1)])
  from Cons.IH [OF this] obtain cs' rs' where
    "bb_rel (fold (\<lambda>(k, v). BlockBuilder_Add n k v) es (BlockBuilder_Add n k v b)) ((cs @ [(sh, k, v)]) @ cs') rs'" "map snd cs' = es"
    by blast
  then show ?case
    by (intro exI [of _ "(sh, k, v) # cs'"] exI [of _ rs']) (simp add: e)
qed

lemma bb_rel_build:
  assumes "0 < n"
  obtains cs rs where "bb_rel (build_block n es) cs rs" "map snd cs = es"
  using bb_rel_fold [OF assms bb_rel_new(1), of es] by (auto simp: build_block_def)

text \<open>A finished block has the size the builder estimated, and an entry adds little more than its own bytes.\<close>

lemma length_Finish: "length (fst (BlockBuilder_Finish b)) = CurrentSizeEstimate b"
  by (simp add: BlockBuilder_Finish_def CurrentSizeEstimate_def Let_def foldl_PutFixed32 PutFixed32_def length_concat comp_def
      sum_list_triv)

lemma length_entry_header: "length (entry_header a b c) \<le> 15"
  using length_EncodeVarint32 [of "word_of_nat a"] length_EncodeVarint32 [of "word_of_nat b"]
    length_EncodeVarint32 [of "word_of_nat c"]
  by (simp add: entry_header_def PutVarint32_def)

lemma CurrentSizeEstimate_Add:
  "CurrentSizeEstimate (BlockBuilder_Add n k v b) \<le> CurrentSizeEstimate b + 19 + length k + length v"
  using length_entry_header [of "if bb_counter b < n then shared_prefix (bb_last_key b) k else 0"
      "length k - (if bb_counter b < n then shared_prefix (bb_last_key b) k else 0)" "length v"]
  by (auto simp: BlockBuilder_Add_def CurrentSizeEstimate_def Let_def)

lemma CurrentSizeEstimate_build:
  "CurrentSizeEstimate (build_block n es) \<le> 8 + (\<Sum>(k, v) \<leftarrow> es. 19 + length k + length v)"
proof (induction es rule: rev_induct)
  case Nil
  then show ?case by (simp add: build_block_def CurrentSizeEstimate_def new_BlockBuilder_def)
next
  case (snoc e es)
  then show ?case
    using CurrentSizeEstimate_Add [of n "fst e" "snd e" "build_block n es"] by (simp add: build_block_def case_prod_unfold)
qed

section \<open>Decoding an entry\<close>

lemma GetVarint32Ptr_byte: "c < 128 \<Longrightarrow> GetVarint32Ptr (c # q) = Some (ucast c, q)"
proof -
  assume "c < 128"
  then have "unat c < 2 ^ 7"
    by (simp add: word_less_nat_alt)
  then have "\<not> bit (ucast c :: u32) 7"
    using not_bit_of_unat_less [of c 7] by (simp add: bit_simps)
  then show ?thesis
    by (simp add: GetVarint32Ptr_def and_128_eq_0)
qed

lemma or_less_128:
  assumes "(ucast (a :: byte) OR ucast (b :: byte) OR ucast (c :: byte) :: u32) < 128"
  shows "a < 128" "b < 128" "c < 128"
proof -
  have "unat (ucast a OR ucast b OR ucast c :: u32) < 2 ^ 7"
    using assms by (simp add: word_less_nat_alt)
  then have "\<not> bit (ucast a OR ucast b OR ucast c :: u32) 7"
    by (rule not_bit_of_unat_less)
  then have *: "\<not> bit a 7" "\<not> bit b 7" "\<not> bit c 7"
    by (auto simp: bit_simps)
  have "x < 128" if "\<not> bit x 7" for x :: byte
  proof -
    have "even (unat x div 2 ^ 7)"
      using that by (simp add: bit_word_unat)
    moreover have "unat x div 2 ^ 7 < 2"
      using unat_less_exp [of x] by simp
    ultimately have "unat x div 2 ^ 7 = 0"
      by (cases "unat x div 2 ^ 7 = 0"; cases "unat x div 2 ^ 7 = 1") auto
    then show ?thesis
      by (simp add: word_less_nat_alt div_eq_0_iff)
  qed
  with * show "a < 128" "b < 128" "c < 128"
    by blast+
qed

text \<open>The fast path for three one-byte numbers gives what the general path gives.\<close>

definition DecodeEntry_general :: "slice \<Rightarrow> (u32 \<times> u32 \<times> u32 \<times> nat) option" where
  "DecodeEntry_general p =
     (if length p < 3 then None
      else case GetVarint32 p of None \<Rightarrow> None | Some (shared, p1) \<Rightarrow>
           case GetVarint32 p1 of None \<Rightarrow> None | Some (non_shared, p2) \<Rightarrow>
           case GetVarint32 p2 of None \<Rightarrow> None | Some (value_length, q) \<Rightarrow>
             if word_of_nat (length q) < non_shared + value_length then None
             else Some (shared, non_shared, value_length, length p - length q))"

lemma DecodeEntry_eq_general: "DecodeEntry p = DecodeEntry_general p"
proof (cases "length p < 3")
  case False
  then obtain a b c q where p: "p = a # b # c # q"
    by (metis (no_types, lifting) length_Cons list.size(3) less_Suc_eq neq_Nil_conv numeral_3_eq_3 zero_less_Suc)
  show ?thesis
  proof (cases "(ucast a OR ucast b OR ucast c :: u32) < 128")
    case True
    then show ?thesis
      using or_less_128 [OF True] by (simp add: DecodeEntry_def DecodeEntry_general_def p GetVarint32_def GetVarint32Ptr_byte)
  next
    case False
    then show ?thesis
      by (simp add: DecodeEntry_def DecodeEntry_general_def p GetVarint32_def split: option.splits)
  qed
qed (simp add: DecodeEntry_def DecodeEntry_general_def)

lemma DecodeEntry_centry:
  assumes "sh \<le> length k" and "length (centry_bytes (sh, k, v) @ x) < 2 ^ 32" and "length k < 2 ^ 32"
  shows "DecodeEntry (centry_bytes (sh, k, v) @ x) =
    Some (word_of_nat sh, word_of_nat (length k - sh), word_of_nat (length v), length (entry_header sh (length k - sh) (length v)))"
proof -
  define ns where "ns = length k - sh"
  let ?h = "entry_header sh ns (length v)"
  have h: "?h = varint (unat (word_of_nat sh :: u32)) @ varint (unat (word_of_nat ns :: u32)) @ varint (unat (word_of_nat (length v) :: u32))"
    by (simp add: entry_header_def Put_varint)
  have sizes: "ns + length v < 2 ^ 32" "ns + length v + length x < 2 ^ 32"
    using assms(2) by (simp_all add: centry_bytes_def ns_def)
  have "3 \<le> length ?h"
    using length_varint_pos [of "unat (word_of_nat sh :: u32)"] length_varint_pos [of "unat (word_of_nat ns :: u32)"]
      length_varint_pos [of "unat (word_of_nat (length v) :: u32)"]
    unfolding h length_append by linarith
  moreover have "\<not> (word_of_nat (length (drop sh k @ v @ x)) :: u32) < word_of_nat ns + word_of_nat (length v)"
  proof -
    have "(word_of_nat ns + word_of_nat (length v) :: u32) = word_of_nat (ns + length v)"
      by simp
    then show ?thesis
      using sizes by (simp add: word_less_nat_alt unat_word_of_nat_small ns_def del: of_nat_add)
  qed
  ultimately show ?thesis
    unfolding DecodeEntry_eq_general DecodeEntry_general_def centry_bytes_def
    by (simp add: h GetVarint32_unat flip: ns_def)
qed

end
