(* ===== verification/Block_Iter.thy ===== *)
theory Block_Iter
  imports Block
begin

text \<open>
  The iterator of \<^verbatim>\<open>table/block.cpp\<close> on a block that \<^verbatim>\<open>table/block_builder.cpp\<close> finished: it is a \<open>seq_iterator\<close>
  over the entries that were added. The proofs follow the iterator between three kinds of state: at
  an entry, ready to parse an entry, and past the end.
\<close>

section \<open>Finished blocks\<close>

definition block_layout :: "slice \<Rightarrow> centry list \<Rightarrow> nat list \<Rightarrow> bool" where
  "block_layout data cs rs \<longleftrightarrow> compressed [] cs \<and> restart_ok cs rs \<and>
     data = cbytes cs @ concat (map (\<lambda>r. EncodeFixed32 (word_of_nat (coff cs r))) rs) @ EncodeFixed32 (word_of_nat (length rs)) \<and>
     length data < 2 ^ 32"

lemma length_concat_Fixed32 [simp]: "length (concat (map (\<lambda>r. EncodeFixed32 (f r)) rs)) = 4 * length rs"
  by (induction rs) simp_all

lemma block_layout_Finish:
  assumes "bb_rel b cs rs" and "BlockBuilder_Finish b = (data, b')" and "length data < 2 ^ 32"
  shows "block_layout data cs rs"
  using assms by (auto simp: block_layout_def BlockBuilder_Finish_def Let_def bb_rel_def foldl_PutFixed32 PutFixed32_def comp_def)

lemma block_layout_key_size:
  assumes "compressed prev cs" and "(sh, k, v) \<in> set cs"
  shows "length k \<le> length prev + length (cbytes cs)"
  using assms
proof (induction prev cs rule: compressed.induct)
  case (2 prev sh' k' v' cs)
  then have "length k' \<le> length prev + length (centry_bytes (sh', k', v'))"
    by (auto simp: centry_bytes_def)
  with 2 show ?case
    by fastforce
qed simp

lemma block_layout_NewIterator:
  assumes "block_layout data cs rs"
  shows "Block_NewIterator (make_Block data) = Inr (new_BlockIter data (length (cbytes cs)) (length rs))"
proof -
  have rs: "rs \<noteq> []" and size: "length data = length (cbytes cs) + 4 * length rs + 4" and lt: "length data < 2 ^ 32"
    using assms by (auto simp: block_layout_def restart_ok_def)
  have "drop (length data - 4) data = EncodeFixed32 (word_of_nat (length rs))"
    using assms size by (simp add: block_layout_def)
  then have "unat (NumRestarts data) = length rs"
    using DecodeFixed32_Encode [of "word_of_nat (length rs)" "[]"] size lt
    by (simp add: NumRestarts_def unat_word_of_nat_small)
  then show ?thesis
    using size rs by (simp add: Block_NewIterator_def make_Block_def Let_def)
qed

section \<open>States of the iterator\<close>

definition bi_base :: "slice \<Rightarrow> centry list \<Rightarrow> nat list \<Rightarrow> BlockIter \<Rightarrow> bool" where
  "bi_base data cs rs s \<longleftrightarrow> bi_data s = data \<and> bi_restarts s = length (cbytes cs) \<and> bi_num_restarts s = length rs \<and> ok (bi_status s)"

definition bi_ready :: "slice \<Rightarrow> centry list \<Rightarrow> nat list \<Rightarrow> nat \<Rightarrow> BlockIter \<Rightarrow> bool" where
  "bi_ready data cs rs i s \<longleftrightarrow> bi_base data cs rs s \<and> i \<le> length cs \<and> NextEntryOffset s = coff cs i \<and>
     (i < length cs \<longrightarrow> fst (cs ! i) \<le> length (bi_key s) \<and> take (fst (cs ! i)) (bi_key s) = take (fst (cs ! i)) (fst (snd (cs ! i)))) \<and>
     bi_restart_index s < length rs \<and> rs ! bi_restart_index s \<le> i"

definition bi_at :: "slice \<Rightarrow> centry list \<Rightarrow> nat list \<Rightarrow> nat \<Rightarrow> BlockIter \<Rightarrow> bool" where
  "bi_at data cs rs i s \<longleftrightarrow> bi_base data cs rs s \<and> i < length cs \<and> bi_current s = coff cs i \<and> NextEntryOffset s = coff cs (Suc i) \<and>
     bi_key s = fst (snd (cs ! i)) \<and> bi_value s = snd (snd (cs ! i)) \<and>
     bi_restart_index s < length rs \<and> rs ! bi_restart_index s \<le> i"

definition bi_end :: "slice \<Rightarrow> centry list \<Rightarrow> nat list \<Rightarrow> BlockIter \<Rightarrow> bool" where
  "bi_end data cs rs s \<longleftrightarrow> bi_base data cs rs s \<and> bi_current s = length (cbytes cs)"

lemma compressed_nth:
  "compressed prev cs \<Longrightarrow> Suc i < length cs \<Longrightarrow>
   fst (cs ! Suc i) \<le> length (fst (snd (cs ! i))) \<and> take (fst (cs ! Suc i)) (fst (snd (cs ! i))) = take (fst (cs ! Suc i)) (fst (snd (cs ! Suc i)))"
proof (induction prev cs arbitrary: i rule: compressed.induct)
  case (2 prev sh k v cs)
  then show ?case
    by (cases i; cases cs) (auto split: prod.splits)
qed simp

lemma compressed_share: "compressed prev cs \<Longrightarrow> i < length cs \<Longrightarrow> fst (cs ! i) \<le> length (fst (snd (cs ! i)))"
  by (induction prev cs arbitrary: i rule: compressed.induct) (auto simp: nth_Cons split: nat.splits)

lemma bi_at_ready:
  assumes "block_layout data cs rs" and "bi_at data cs rs i s"
  shows "bi_ready data cs rs (Suc i) s"
  using assms compressed_nth [of "[]" cs i] by (auto simp: bi_at_def bi_ready_def block_layout_def)

lemma GetRestartPoint_coff:
  assumes "block_layout data cs rs" and "bi_base data cs rs s" and "j < length rs"
  shows "GetRestartPoint s j = coff cs (rs ! j)"
proof -
  let ?enc = "\<lambda>rs. concat (map (\<lambda>r. EncodeFixed32 (word_of_nat (coff cs r))) rs)"
  have split: "?enc rs = ?enc (take j rs) @ EncodeFixed32 (word_of_nat (coff cs (rs ! j))) @ ?enc (drop (Suc j) rs)"
    by (subst id_take_nth_drop [OF assms(3)]) simp
  have "drop (length (cbytes cs) + j * 4) data =
      EncodeFixed32 (word_of_nat (coff cs (rs ! j))) @ ?enc (drop (Suc j) rs) @ EncodeFixed32 (word_of_nat (length rs))"
    using assms(1,3) unfolding block_layout_def split by simp
  moreover have "coff cs (rs ! j) \<le> length (cbytes cs)"
    by (simp add: coff_def) (metis append_take_drop_id cbytes_simps(3) length_append le_add1)
  moreover have "length (cbytes cs) < 2 ^ 32"
    using assms(1) by (auto simp: block_layout_def)
  ultimately show ?thesis
    using assms(2) by (simp add: GetRestartPoint_def bi_base_def unat_word_of_nat_small)
qed

section \<open>Parsing one entry\<close>

lemma block_layout_entry:
  assumes "block_layout data cs rs" and "i < length cs"
  shows "drop (coff cs i) (take (length (cbytes cs)) data) = centry_bytes (cs ! i) @ cbytes (drop (Suc i) cs)"
    and "\<exists>x. drop (coff cs i) data = centry_bytes (cs ! i) @ x"
proof -
  have "cbytes cs = cbytes (take i cs) @ centry_bytes (cs ! i) @ cbytes (drop (Suc i) cs)"
    by (subst id_take_nth_drop [OF assms(2)]) simp
  moreover obtain y where "data = cbytes cs @ y"
    using assms(1) by (auto simp: block_layout_def)
  ultimately show "drop (coff cs i) (take (length (cbytes cs)) data) = centry_bytes (cs ! i) @ cbytes (drop (Suc i) cs)"
    and "\<exists>x. drop (coff cs i) data = centry_bytes (cs ! i) @ x"
    by (simp_all add: coff_def)
qed

lemma block_layout_DecodeEntry:
  assumes "block_layout data cs rs" and "i < length cs" and "cs ! i = (sh, k, v)"
  defines "h \<equiv> length (entry_header sh (length k - sh) (length v))"
  shows "DecodeEntry (drop (coff cs i) (take (length (cbytes cs)) data)) =
      Some (word_of_nat sh, word_of_nat (length k - sh), word_of_nat (length v), h)"
    and "take (length k - sh) (drop (coff cs i + h) data) = drop sh k"
    and "take (length v) (drop (coff cs i + h + (length k - sh)) data) = v"
    and "coff cs (Suc i) = coff cs i + h + (length k - sh) + length v"
    and "sh \<le> length k" "length k < 2 ^ 32" "length v < 2 ^ 32"
proof -
  have size: "length (cbytes cs) < 2 ^ 32" and c: "compressed [] cs"
    using assms(1) by (auto simp: block_layout_def)
  show sh: "sh \<le> length k"
    using compressed_share [OF c assms(2)] assms(3) by simp
  have mem: "(sh, k, v) \<in> set cs"
    using assms(2,3) nth_mem by metis
  show k: "length k < 2 ^ 32"
    using block_layout_key_size [OF c mem] size by simp
  have bytes: "length (centry_bytes (cs ! i) @ cbytes (drop (Suc i) cs)) < 2 ^ 32"
    unfolding block_layout_entry(1) [OF assms(1,2), symmetric] using size by simp
  then show "length v < 2 ^ 32"
    by (simp add: assms(3) centry_bytes_def)
  show "DecodeEntry (drop (coff cs i) (take (length (cbytes cs)) data)) =
      Some (word_of_nat sh, word_of_nat (length k - sh), word_of_nat (length v), h)"
    using DecodeEntry_centry [OF sh _ k] bytes unfolding block_layout_entry(1) [OF assms(1,2)] h_def assms(3) by blast
  obtain x where x: "drop (coff cs i) data = centry_bytes (cs ! i) @ x"
    using block_layout_entry(2) [OF assms(1,2)] by blast
  have "drop (coff cs i + n) data = drop n (centry_bytes (cs ! i) @ x)" for n
    by (simp add: x add.commute flip: drop_drop)
  then show "take (length k - sh) (drop (coff cs i + h) data) = drop sh k"
    and "take (length v) (drop (coff cs i + h + (length k - sh)) data) = v"
    by (simp_all add: assms(3) centry_bytes_def h_def add.assoc)
  show "coff cs (Suc i) = coff cs i + h + (length k - sh) + length v"
    by (simp add: coff_Suc [OF assms(2)] assms(3) centry_bytes_def h_def)
qed

lemma coff_length [simp]: "coff cs (length cs) = length (cbytes cs)"
  by (simp add: coff_def)

lemma coff_before_end: "i < length cs \<Longrightarrow> coff cs i < length (cbytes cs)"
  using coff_less [of i "length cs" cs] by simp

lemma advance_restart_le:
  assumes "block_layout data cs rs" and "bi_base data cs rs s" and "bi_current s = coff cs i" "i \<le> length cs"
    and "j < length rs" "rs ! j \<le> i"
  shows "advance_restart s j < length rs \<and> rs ! advance_restart s j \<le> i"
  using assms
proof (induction s j rule: advance_restart.induct)
  case (1 s j)
  have num: "bi_num_restarts s = length rs"
    using 1(3) by (simp add: bi_base_def)
  show ?case
  proof (cases "j + 1 < bi_num_restarts s \<and> GetRestartPoint s (j + 1) < bi_current s")
    case True
    then have "coff cs (rs ! (j + 1)) < coff cs i"
      using GetRestartPoint_coff [OF 1(2,3), of "j + 1"] 1(4) num by simp
    then have "rs ! (j + 1) \<le> i"
      using coff_less_iff [of "rs ! (j + 1)" cs i] restart_ok_le [of cs rs "rs ! (j + 1)"] 1(2,5) True num
      by (simp add: block_layout_def)
    then show ?thesis
      using 1(1) [OF True 1(2-5)] True num by (subst (1 2) advance_restart.simps) simp
  qed (use 1 in \<open>subst (1 2) advance_restart.simps, auto\<close>)
qed

lemma ParseNextKey_at:
  assumes "block_layout data cs rs" and "bi_ready data cs rs i s" and "i < length cs"
  obtains s' where "ParseNextKey s = (True, s')" "bi_at data cs rs i s'"
proof -
  obtain sh k v where e: "cs ! i = (sh, k, v)"
    by (cases "cs ! i")
  note d = block_layout_DecodeEntry [OF assms(1,3) e]
  have b: "bi_data s = data" "bi_restarts s = length (cbytes cs)" "bi_num_restarts s = length rs" "ok (bi_status s)"
    "NextEntryOffset s = coff cs i" "sh \<le> length (bi_key s)" "take sh (bi_key s) = take sh k"
    "bi_restart_index s < length rs" "rs ! bi_restart_index s \<le> i"
    using assms(2,3) e by (auto simp: bi_ready_def bi_base_def)
  have key: "take sh (bi_key s) @ drop sh k = k"
    using b(7) by simp
  have w: "unat (word_of_nat sh :: u32) = sh" "unat (word_of_nat (length k - sh) :: u32) = length k - sh" "unat (word_of_nat (length v) :: u32) = length v"
    using d(5-7) by (simp_all add: unat_word_of_nat_small del: of_nat_diff)
  have lt: "coff cs i < length (cbytes cs)"
    by (rule coff_before_end [OF assms(3)])
  define t where "t = s\<lparr>bi_current := coff cs i, bi_key := k,
    bi_voff := coff cs i + length (entry_header sh (length k - sh) (length v)) + (length k - sh), bi_vlen := length v\<rparr>"
  have "bi_base data cs rs t"
    using b by (simp add: t_def bi_base_def)
  from advance_restart_le [OF assms(1) this _ less_imp_le [OF assms(3)] b(8,9)]
  have r: "advance_restart t (bi_restart_index s) < length rs" "rs ! advance_restart t (bi_restart_index s) \<le> i"
    by (simp_all add: t_def)
  have "ParseNextKey s = (True, t\<lparr>bi_restart_index := advance_restart t (bi_restart_index s)\<rparr>)"
    using lt b(1,2,5,6) d(1,2) key w by (simp add: ParseNextKey_def Let_def t_def not_less del: of_nat_diff)
  moreover have "bi_at data cs rs i (t\<lparr>bi_restart_index := advance_restart t (bi_restart_index s)\<rparr>)"
    using r b assms(3) d(3,4) e by (simp add: bi_at_def bi_base_def t_def NextEntryOffset_def bi_value_def)
  ultimately show thesis
    by (rule that)
qed

lemma ParseNextKey_end:
  assumes "bi_ready data cs rs (length cs) s"
  obtains s' where "ParseNextKey s = (False, s')" "bi_end data cs rs s'"
  using assms by (auto simp: ParseNextKey_def Let_def bi_ready_def bi_end_def bi_base_def)

section \<open>The loops\<close>

definition bi_reached :: "slice \<Rightarrow> centry list \<Rightarrow> nat list \<Rightarrow> nat \<Rightarrow> BlockIter \<Rightarrow> bool" where
  "bi_reached data cs rs i s \<longleftrightarrow> (if i < length cs then bi_at data cs rs i s else i = length cs \<and> bi_end data cs rs s)"

lemma ParseNextKey_reached:
  assumes "block_layout data cs rs" and "bi_ready data cs rs i s"
  shows "bi_reached data cs rs i (snd (ParseNextKey s)) \<and> (fst (ParseNextKey s) \<longleftrightarrow> i < length cs)"
proof (cases "i < length cs")
  case True
  then show ?thesis
    by (rule ParseNextKey_at [OF assms]) (simp add: bi_reached_def True)
next
  case False
  then have "i = length cs"
    using assms(2) by (simp add: bi_ready_def)
  then show ?thesis
    using ParseNextKey_end [of data cs rs s] assms(2) by (metis bi_reached_def fst_conv less_irrefl snd_conv)
qed

lemma bi_reached_base: "bi_reached data cs rs i s \<Longrightarrow> bi_base data cs rs s"
  by (auto simp: bi_reached_def bi_at_def bi_end_def split: if_splits)

lemma restart_entry:
  assumes "block_layout data cs rs" and "j < length rs"
  shows "rs ! j \<le> length cs" and "rs ! j < length cs \<Longrightarrow> fst (cs ! (rs ! j)) = 0"
    and "0 < j \<Longrightarrow> rs ! j < length cs" and "rs ! 0 = 0" and "j < j' \<Longrightarrow> j' < length rs \<Longrightarrow> rs ! j < rs ! j'"
proof -
  have ok: "restart_ok cs rs"
    using assms(1) by (simp add: block_layout_def)
  then have at: "rs ! j < length cs \<and> fst (cs ! (rs ! j)) = 0 \<or> rs ! j = 0 \<and> cs = []"
    using nth_mem [OF assms(2)] unfolding restart_ok_def by blast
  then show "rs ! j \<le> length cs" "rs ! j < length cs \<Longrightarrow> fst (cs ! (rs ! j)) = 0"
    by auto
  show less: "rs ! j < rs ! j'" if "j < j'" "j' < length rs" for j j'
    using ok that sorted_wrt_nth_less unfolding restart_ok_def by blast
  show "rs ! 0 = 0"
    using ok hd_conv_nth [of rs] unfolding restart_ok_def by simp
  show "rs ! j < length cs" if "0 < j"
    using less [OF that assms(2)] at by auto
qed

lemma SeekToRestartPoint_ready:
  assumes "block_layout data cs rs" and "bi_base data cs rs s" and "j < length rs"
  shows "bi_ready data cs rs (rs ! j) (SeekToRestartPoint j s)"
  using assms(2,3) restart_entry [OF assms(1,3)] GetRestartPoint_coff [OF assms]
  by (auto simp: SeekToRestartPoint_def bi_ready_def bi_base_def NextEntryOffset_def)

lemma seek_linear_reached:
  assumes "block_layout data cs rs" and "bi_ready data cs rs i s" and "\<And>j. j < i \<Longrightarrow> Compare c (fst (snd (cs ! j))) t < 0"
  shows "bi_reached data cs rs (lower_bound (Compare c) t (map snd cs)) (seek_linear c t s)"
  using assms
proof (induction c t s arbitrary: i rule: seek_linear.induct)
  case (1 c t s)
  obtain found s' where p: "ParseNextKey s = (found, s')"
    by (cases "ParseNextKey s")
  have r: "bi_reached data cs rs i s'" "found \<longleftrightarrow> i < length cs" and i: "i \<le> length cs"
    using ParseNextKey_reached [OF 1(2,3)] 1(3) p by (simp_all add: bi_ready_def)
  show ?case
  proof (cases "found \<and> Compare c (bi_key s') t < 0")
    case True
    then have at: "bi_at data cs rs i s'"
      using r by (simp add: bi_reached_def)
    then have "Compare c (fst (snd (cs ! j))) t < 0" if "j < Suc i" for j
      using that 1(4) [of j] True by (cases "j = i") (auto simp: bi_at_def)
    then show ?thesis
      using 1(1) [OF p [symmetric] _ _ 1(2) bi_at_ready [OF 1(2) at]] True
      by (subst seek_linear.simps) (simp add: p)
  next
    case False
    then have "seek_linear c t s = s'"
      by (subst seek_linear.simps) (auto simp: p)
    moreover have "lower_bound (Compare c) t (map snd cs) = i"
      using r False i 1(4) by (intro lower_bound_eqI) (auto simp: bi_reached_def bi_at_def)
    ultimately show ?thesis
      using r by simp
  qed
qed

lemma scan_until_reached:
  assumes "block_layout data cs rs" and "bi_ready data cs rs i s" and "i < m" and "m \<le> length cs"
  shows "bi_reached data cs rs (m - 1) (scan_until (coff cs m) s)"
  using assms(2,3)
proof (induction "m - i" arbitrary: i s)
  case (Suc d)
  have i: "i < length cs"
    using Suc.prems assms(4) by simp
  obtain s' where p: "ParseNextKey s = (True, s')" and at: "bi_at data cs rs i s'"
    by (rule ParseNextKey_at [OF assms(1) Suc.prems(1) i])
  have "NextEntryOffset s' < coff cs m \<longleftrightarrow> Suc i < m"
    using at coff_less_iff [of "Suc i" cs m] i assms(4) by (simp add: bi_at_def)
  moreover have "i = m - 1" if "\<not> Suc i < m"
    using that Suc.prems by simp
  ultimately show ?case
    using Suc.hyps(1) [OF _ bi_at_ready [OF assms(1) at]] Suc.hyps(2) Suc.prems(2) at i
    by (subst scan_until.simps) (auto simp: p bi_reached_def)
qed simp

lemma scan_until_empty:
  assumes "block_layout data [] rs" and "bi_ready data [] rs 0 s"
  shows "bi_reached data [] rs 0 (scan_until n s)"
  using ParseNextKey_reached [OF assms] by (subst scan_until.simps) (auto split: prod.splits)

lemma prev_restart_cases:
  assumes "block_layout data cs rs" and "bi_base data cs rs s" and "j < length rs" and "i \<le> length cs" and "rs ! j \<le> i"
  shows "case prev_restart s (coff cs i) j of None \<Rightarrow> i = 0 | Some j' \<Rightarrow> j' < length rs \<and> rs ! j' < i"
  using assms(3,5)
proof (induction j)
  case 0
  then show ?case
    using GetRestartPoint_coff [OF assms(1,2), of 0] restart_entry(4) [OF assms(1), of 0] coff_less_iff [of 0 cs i] assms(4) by auto
next
  case (Suc j)
  then have "rs ! j < i"
    using restart_entry(5) [OF assms(1), of j "Suc j"] by simp
  with Suc show ?case
    using GetRestartPoint_coff [OF assms(1,2) Suc.prems(1)] coff_less_iff [of "rs ! Suc j" cs i] assms(4) restart_entry(1) [OF assms(1) Suc.prems(1)]
    by (auto simp: not_le)
qed

lemma seek_restart_below:
  assumes "block_layout data cs rs" and "bi_base data cs rs s" and "right < length rs" and "left \<le> right"
    and "left = 0 \<or> Compare c (fst (snd (cs ! (rs ! left)))) t < 0"
  shows "\<exists>l. seek_restart c t s left right = Some l \<and> l < length rs \<and> (l = 0 \<or> Compare c (fst (snd (cs ! (rs ! l)))) t < 0)"
  using assms(3-5)
proof (induction "right - left" arbitrary: left right rule: less_induct)
  case less
  show ?case
  proof (cases "left < right")
    case True
    define mid where "mid = (left + right + 1) div 2"
    have mid: "left < mid" "mid \<le> right" "mid < length rs"
      using True less.prems(1) by (auto simp: mid_def)
    obtain sh k v where e: "cs ! (rs ! mid) = (sh, k, v)"
      by (cases "cs ! (rs ! mid)")
    note r = restart_entry [OF assms(1) mid(3)]
    have lt: "rs ! mid < length cs" and sh: "sh = 0"
      using r(2,3) mid(1) e by auto
    note d = block_layout_DecodeEntry [OF assms(1) lt e]
    let ?h = "length (entry_header sh (length k - sh) (length v))"
    have g: "GetRestartPoint s mid = coff cs (rs ! mid)" "bi_data s = data" "bi_restarts s = length (cbytes cs)"
      using GetRestartPoint_coff [OF assms(1,2) mid(3)] assms(2) by (simp_all add: bi_base_def)
    have k: "take (unat (word_of_nat (length k) :: u32)) (drop (coff cs (rs ! mid) + ?h) data) = k"
      using d(2,6) sh by (simp add: unat_word_of_nat_small)
    have step: "seek_restart c t s left right =
      (if Compare c k t < 0 then seek_restart c t s mid right else seek_restart c t s left (mid - 1))"
      unfolding seek_restart.simps [of c t s left right] mid_def [symmetric] Let_def using True g d(1) k sh by simp
    show ?thesis
      using less.hyps [of right mid] less.hyps [of "mid - 1" left] less.prems mid e unfolding step
      by (cases "Compare c k t < 0") simp_all
  next
    case False
    with less.prems show ?thesis
      by (subst seek_restart.simps) auto
  qed
qed

section \<open>The iterator meets its contract\<close>

definition bi_pos :: "centry list \<Rightarrow> BlockIter \<Rightarrow> nat" where
  "bi_pos cs s = card {i. i < length cs \<and> coff cs i < bi_current s}"

definition bi_inv :: "slice \<Rightarrow> centry list \<Rightarrow> nat list \<Rightarrow> BlockIter \<Rightarrow> bool" where
  "bi_inv data cs rs s \<longleftrightarrow> (\<exists>i. bi_reached data cs rs i s)"

lemma bi_reached_pos:
  assumes "bi_reached data cs rs i s"
  shows "bi_pos cs s = i" and "i \<le> length cs"
proof -
  have i: "i \<le> length cs" "bi_current s = coff cs i"
    using assms by (auto simp: bi_reached_def bi_at_def bi_end_def split: if_splits)
  then have "{j. j < length cs \<and> coff cs j < bi_current s} = {..<i}"
    using coff_less_iff [of _ cs i] by auto
  with i show "bi_pos cs s = i" and "i \<le> length cs"
    by (simp_all add: bi_pos_def)
qed

lemma bi_invE:
  assumes "bi_inv data cs rs s"
  obtains "bi_reached data cs rs (bi_pos cs s) s" "bi_pos cs s \<le> length cs" "bi_base data cs rs s"
  using assms bi_reached_pos bi_reached_base unfolding bi_inv_def by metis

lemma bi_reachedI: "bi_reached data cs rs i s \<Longrightarrow> bi_inv data cs rs s \<and> bi_pos cs s = i"
  using bi_reached_pos(1) bi_inv_def by metis

lemma SeekToFirst_reached:
  assumes "block_layout data cs rs" and "bi_base data cs rs s"
  shows "bi_reached data cs rs 0 (bi_SeekToFirst s)"
proof -
  have "0 < length rs"
    using assms(1) by (auto simp: block_layout_def restart_ok_def)
  then show ?thesis
    using SeekToRestartPoint_ready [OF assms] ParseNextKey_reached [OF assms(1)] restart_entry(4) [OF assms(1)]
    by (metis bi_SeekToFirst_def)
qed

lemma SeekToLast_reached:
  assumes "block_layout data cs rs" and "bi_base data cs rs s"
  shows "bi_reached data cs rs (length cs - 1) (bi_SeekToLast s)"
proof -
  have j: "length rs - 1 < length rs"
    using assms(1) by (auto simp: block_layout_def restart_ok_def)
  note r = SeekToRestartPoint_ready [OF assms j]
  have b: "bi_num_restarts s = length rs" "bi_restarts s = coff cs (length cs)"
    using assms(2) by (simp_all add: bi_base_def)
  show ?thesis
  proof (cases "cs = []")
    case True
    then show ?thesis
      using r scan_until_empty [of data rs] assms(1) restart_entry(1) [OF assms(1) j] b by (simp add: bi_SeekToLast_def)
  next
    case False
    have "rs ! (length rs - 1) < length cs"
      using restart_entry(3,4) [OF assms(1) j] False by (cases "length rs - 1 = 0") auto
    from scan_until_reached [OF assms(1) r this order_refl] show ?thesis
      using b by (simp add: bi_SeekToLast_def)
  qed
qed

lemma Prev_reached:
  assumes "block_layout data cs rs" and "bi_at data cs rs i s"
  shows "bi_reached data cs rs (if i = 0 then length cs else i - 1) (bi_Prev s)"
proof -
  have b: "bi_base data cs rs s" "i < length cs" "bi_current s = coff cs i" "bi_restart_index s < length rs" "rs ! bi_restart_index s \<le> i"
    using assms(2) by (simp_all add: bi_at_def)
  note c = prev_restart_cases [OF assms(1) b(1,4) less_imp_le [OF b(2)] b(5)]
  show ?thesis
  proof (cases "prev_restart s (coff cs i) (bi_restart_index s)")
    case None
    with c b show ?thesis
      by (auto simp: bi_Prev_def Let_def bi_reached_def bi_end_def bi_base_def)
  next
    case (Some j)
    then have j: "j < length rs" "rs ! j < i"
      using c by simp_all
    from scan_until_reached [OF assms(1) SeekToRestartPoint_ready [OF assms(1) b(1) j(1)] j(2) less_imp_le [OF b(2)]]
    show ?thesis
      using Some j b(3) by (simp add: bi_Prev_def)
  qed
qed

lemma Seek_reached:
  assumes "block_layout data cs rs" and "bi_base data cs rs s" and "three_way (Compare c)"
    and "sorted_wrt (\<lambda>a b. Compare c (fst a) (fst b) < 0) (map snd cs)"
  shows "bi_reached data cs rs (lower_bound (Compare c) t (map snd cs)) (bi_Seek c t s)"
proof -
  have "0 < length rs" and num: "bi_num_restarts s = length rs"
    using assms(1,2) by (auto simp: block_layout_def restart_ok_def bi_base_def)
  then obtain l where l: "seek_restart c t s 0 (length rs - 1) = Some l" "l < length rs"
    "l = 0 \<or> Compare c (fst (snd (cs ! (rs ! l)))) t < 0"
    using seek_restart_below [OF assms(1,2), of "length rs - 1" 0 c t] by auto
  have "Compare c (fst (snd (cs ! j))) t < 0" if "j < rs ! l" for j
  proof (cases "l = 0")
    case False
    then have "rs ! l < length cs"
      using restart_entry(3) [OF assms(1) l(2)] by simp
    then have "Compare c (fst (snd (cs ! j))) (fst (snd (cs ! (rs ! l)))) < 0"
      using sorted_wrt_nth_less [OF assms(4), of j "rs ! l"] that by simp
    then show ?thesis
      using three_way.cmp_less_trans [OF assms(3)] l(3) False by blast
  qed (use that restart_entry(4) [OF assms(1) l(2)] in simp)
  from seek_linear_reached [OF assms(1) SeekToRestartPoint_ready [OF assms(1,2) l(2)] this] show ?thesis
    unfolding bi_Seek_def num l(1) by simp
qed

lemma seq_iterator_block:
  assumes "block_layout data cs rs" and "three_way (Compare c)"
    and "sorted_wrt (\<lambda>a b. Compare c (fst a) (fst b) < 0) (map snd cs)"
  shows "seq_iterator (BlockIterator c) (Compare c) (map snd cs) (bi_inv data cs rs) (bi_pos cs)"
proof (unfold_locales, goal_cases pos_le valid key val first last seek step prev status)
  case (valid s)
  then show ?case
    by (rule bi_invE) (auto simp: BlockIterator_def bi_Valid_def bi_reached_def bi_at_def bi_end_def bi_base_def
        coff_before_end split: if_splits)
next
  case (first s)
  then show ?case
    by (auto elim!: bi_invE intro!: bi_reachedI SeekToFirst_reached [OF assms(1)] simp: BlockIterator_def)
next
  case (last s)
  then show ?case
    by (auto elim!: bi_invE intro!: bi_reachedI SeekToLast_reached [OF assms(1)] simp: BlockIterator_def simp del: One_nat_def)
next
  case (seek s t)
  then show ?case
    by (auto elim!: bi_invE intro!: bi_reachedI Seek_reached [OF assms(1) _ assms(2,3)] simp: BlockIterator_def)
next
  case (step s)
  then show ?case
    using bi_at_ready [OF assms(1), of "bi_pos cs s" s] ParseNextKey_reached [OF assms(1), of "Suc (bi_pos cs s)" s]
    by (auto elim!: bi_invE intro!: bi_reachedI simp: BlockIterator_def bi_Next_def bi_reached_def [of _ _ _ "bi_pos cs s"])
next
  case (prev s)
  then have "bi_at data cs rs (bi_pos cs s) s"
    by (auto elim!: bi_invE simp: bi_reached_def)
  from Prev_reached [OF assms(1) this, THEN bi_reachedI] show ?case
    by (simp add: BlockIterator_def)
qed (auto elim!: bi_invE simp: BlockIterator_def bi_reached_def bi_at_def bi_base_def)

lemma new_BlockIter_inv: "bi_inv data cs rs (new_BlockIter data (length (cbytes cs)) (length rs))"
  unfolding bi_inv_def
  by (intro exI [of _ "length cs"]) (simp add: bi_reached_def bi_end_def bi_base_def new_BlockIter_def)

lemma built_block_iterator:
  assumes "three_way (Compare c)" and "0 < n" and "sorted_wrt (\<lambda>a b. Compare c (fst a) (fst b) < 0) es"
    and "length (fst (BlockBuilder_Finish (build_block n es))) < 2 ^ 32"
  shows "\<exists>s inv pos. Block_NewIterator (make_Block (fst (BlockBuilder_Finish (build_block n es)))) = Inr s \<and> inv s \<and>
    seq_iterator (BlockIterator c) (Compare c) es inv pos"
proof -
  obtain cs rs where r: "bb_rel (build_block n es) cs rs" and es: "map snd cs = es"
    by (rule bb_rel_build [OF assms(2)])
  have l: "block_layout (fst (BlockBuilder_Finish (build_block n es))) cs rs"
    by (rule block_layout_Finish [OF r surjective_pairing assms(4)])
  have "seq_iterator (BlockIterator c) (Compare c) es (bi_inv (fst (BlockBuilder_Finish (build_block n es))) cs rs) (bi_pos cs)"
    using seq_iterator_block [OF l assms(1)] assms(3) es by simp
  then show ?thesis
    using block_layout_NewIterator [OF l] new_BlockIter_inv by metis
qed

text \<open>C4: The block a builder finishes from entries in increasing key order, with any restart interval, opens and the
  iterator on it meets the iterator contract for exactly those entries: the restart array, the prefix
  compression, the binary search over restart points and the linear scans are invisible.
\<close>

theorem block_iterator:
  assumes "three_way (Compare c)" and "0 < n" and "sorted_wrt (\<lambda>a b. Compare c (fst a) (fst b) < 0) es"
    and "length (fst (BlockBuilder_Finish (build_block n es))) < 2 ^ 32"
  shows "\<exists>s inv pos. Block_NewIterator (make_Block (fst (BlockBuilder_Finish (build_block n es)))) = Inr s \<and> inv s \<and>
    seq_iterator (BlockIterator c) (Compare c) es inv pos"
  by (rule built_block_iterator [OF assms])

theorem block_iterator_witness:
  "\<exists>s inv pos. Block_NewIterator (make_Block (fst (BlockBuilder_Finish (build_block 2
       [(str ''ab'', str ''1''), (str ''abc'', str ''2''), (str ''b'', str ''3'')])))) = Inr s \<and> inv s \<and>
     seq_iterator (BlockIterator BytewiseComparator) (Compare BytewiseComparator)
       [(str ''ab'', str ''1''), (str ''abc'', str ''2''), (str ''b'', str ''3'')] inv pos"
proof (rule block_iterator)
  show "three_way (Compare BytewiseComparator)"
    by unfold_locales
  show "sorted_wrt (\<lambda>a b. Compare BytewiseComparator (fst a) (fst b) < 0)
      [(str ''ab'', str ''1''), (str ''abc'', str ''2''), (str ''b'', str ''3'')]"
    by code_simp
  show "length (fst (BlockBuilder_Finish (build_block 2
      [(str ''ab'', str ''1''), (str ''abc'', str ''2''), (str ''b'', str ''3'')]))) < 2 ^ 32"
    by (simp add: build_block_def BlockBuilder_Add_def BlockBuilder_Finish_def new_BlockBuilder_def Let_def entry_header_def
        Put_varint varint.simps foldl_PutFixed32 PutFixed32_def str_def comp_def)
qed simp

lemma DecodeEntry_in_bounds:
  assumes "DecodeEntry p = Some (sh, ns, vl, n)" and "length p < 2 ^ 32" and "unat ns + unat vl < 2 ^ 32"
  shows "n + unat ns + unat vl \<le> length p"
proof -
  obtain q :: slice where q: "\<not> word_of_nat (length q) < ns + vl" "n = length p - length q" "length q < length p"
    using assms(1) unfolding DecodeEntry_eq_general DecodeEntry_general_def
    by (auto split: if_splits option.splits dest!: GetVarint_shorter(1) intro: that)
  have "unat (ns + vl) = unat ns + unat vl"
    using assms(3) by (simp add: unat_word_ariths)
  then show ?thesis
    using q assms(2) by (simp add: word_less_nat_alt unat_word_of_nat_small)
qed

text \<open>C30: On arbitrary bytes, the key and value of an entry that decodes lie inside the block exactly when their
  lengths add up without wrapping around 32 bits. The bounds check of the code is made on the wrapped sum:
  the witness is a corrupt entry of seven bytes that decodes with a key of almost 4 GB.\<close>

theorem block_entry_bounds:
  assumes "DecodeEntry p = Some (sh, ns, vl, n)" and "length p < 2 ^ 32"
  shows "n + unat ns + unat vl \<le> length p \<longleftrightarrow> unat ns + unat vl < 2 ^ 32"
  using DecodeEntry_in_bounds [OF assms] assms(2) by auto

theorem block_entry_bounds_witness:
  "DecodeEntry (varint 0 @ varint (2 ^ 32 - 1) @ varint 1) = Some (0, 2 ^ 32 - 1, 1, 7) \<and>
   \<not> 7 + unat (2 ^ 32 - 1 :: u32) + unat (1 :: u32) \<le> length (varint 0 @ varint (2 ^ 32 - 1) @ varint 1)"
proof
  show *: "DecodeEntry (varint 0 @ varint (2 ^ 32 - 1) @ varint 1) = Some (0, 2 ^ 32 - 1, 1, 7)"
    using GetVarint32_varint [of 0] GetVarint32_varint [of "2 ^ 32 - 1"] GetVarint32_varint [of 1 "[]"]
    by (simp add: DecodeEntry_eq_general DecodeEntry_general_def varint.simps)
  show "\<not> 7 + unat (2 ^ 32 - 1 :: u32) + unat (1 :: u32) \<le> length (varint 0 @ varint (2 ^ 32 - 1) @ varint 1)"
  proof -
    have "length (varint 0 @ varint (2 ^ 32 - 1) @ varint 1) < 2 ^ 32"
      by (simp add: varint.simps)
    from block_entry_bounds [OF * this] show ?thesis
      by simp
  qed
qed

end
