(* ===== verification/Format.thy ===== *)
theory Format
  imports Db_Options Crc32c Env_Posix Block_Iter
begin

text \<open>
  \<^verbatim>\<open>table/format.h\<close> and \<^verbatim>\<open>table/format.cpp\<close>: block handles, the footer and the reading of a block. The
  functions of \<^verbatim>\<open>port/port_posix.h\<close> around the Snappy library are a record of functions; the library itself is not part
  of the repository. A random access file is a record of its methods; the interface \<open>random_access_file\<close> is derived
  for the class that \<^verbatim>\<open>util/env_posix.cpp\<close> uses for tables.
\<close>

section \<open>Block handles and the footer\<close>

record BlockHandle =
  bh_offset :: u64
  bh_size :: u64

definition new_BlockHandle :: BlockHandle where
  "new_BlockHandle = \<lparr>bh_offset = -1, bh_size = -1\<rparr>"

definition kMaxEncodedLength :: nat where "kMaxEncodedLength = 10 + 10"

definition BlockHandle_EncodeTo :: "BlockHandle \<Rightarrow> slice \<Rightarrow> slice" where
  "BlockHandle_EncodeTo h dst = PutVarint64 (PutVarint64 dst (bh_offset h)) (bh_size h)"

definition BlockHandle_DecodeFrom :: "slice \<Rightarrow> status + (BlockHandle \<times> slice)" where
  "BlockHandle_DecodeFrom input =
     (case GetVarint64 input of
        None \<Rightarrow> Inl (Corruption (str ''bad block handle'') [])
      | Some (off, input) \<Rightarrow>
          (case GetVarint64 input of
             None \<Rightarrow> Inl (Corruption (str ''bad block handle'') [])
           | Some (sz, input) \<Rightarrow> Inr (\<lparr>bh_offset = off, bh_size = sz\<rparr>, input)))"

record Footer =
  ft_metaindex_handle :: BlockHandle
  ft_index_handle :: BlockHandle

definition kTableMagicNumber :: u64 where "kTableMagicNumber = 0xdb4775248b80fb57"
definition kBlockTrailerSize :: nat where "kBlockTrailerSize = 5"
definition Footer_kEncodedLength :: nat where "Footer_kEncodedLength = 2 * kMaxEncodedLength + 8"

text \<open>\<open>std::string::resize\<close>.\<close>

definition resize :: "nat \<Rightarrow> slice \<Rightarrow> slice" where
  "resize n s = take n s @ replicate (n - length s) 0"

definition Footer_EncodeTo :: "Footer \<Rightarrow> slice \<Rightarrow> slice" where
  "Footer_EncodeTo f dst =
     (let dst = BlockHandle_EncodeTo (ft_metaindex_handle f) dst;
          dst = BlockHandle_EncodeTo (ft_index_handle f) dst;
          dst = resize (2 * kMaxEncodedLength) dst;
          dst = PutFixed32 dst (ucast (kTableMagicNumber AND 0xffffffff))
      in PutFixed32 dst (ucast (drop_bit 32 kTableMagicNumber)))"

definition Footer_DecodeFrom :: "slice \<Rightarrow> status + (Footer \<times> slice)" where
  "Footer_DecodeFrom input =
     (let magic_ptr = drop (Footer_kEncodedLength - 8) input;
          magic_lo = DecodeFixed32 magic_ptr;
          magic_hi = DecodeFixed32 (drop 4 magic_ptr);
          magic = push_bit 32 (ucast magic_hi) OR ucast magic_lo :: u64
      in if magic \<noteq> kTableMagicNumber then Inl (Corruption (str ''not an sstable (bad magic number)'') [])
         else case BlockHandle_DecodeFrom input of
                Inl s \<Rightarrow> Inl s
              | Inr (metaindex, rest) \<Rightarrow>
                  (case BlockHandle_DecodeFrom rest of
                     Inl s \<Rightarrow> Inl s
                   | Inr (index, rest) \<Rightarrow> Inr (\<lparr>ft_metaindex_handle = metaindex, ft_index_handle = index\<rparr>, drop 8 magic_ptr)))"

section \<open>Random access files and Snappy\<close>

text \<open>\<open>ra_scratch\<close> says whether a read puts its result into the buffer of the caller.\<close>

record 'w RandomAccessFile =
  ra_Read :: "u64 \<Rightarrow> nat \<Rightarrow> 'w \<Rightarrow> status \<times> slice \<times> 'w"
  ra_scratch :: bool

definition NewRandomAccessFile :: "'w stdio \<Rightarrow> slice \<Rightarrow> status \<times> 'w RandomAccessFile option" where
  "NewRandomAccessFile io fname = (OK, Some \<lparr>ra_Read = UnSecurePosixRandomAccessFile_Read io fname, ra_scratch = True\<rparr>)"

definition NewSpecialRandomAccessFile :: "'w stdio \<Rightarrow> slice \<Rightarrow> status \<times> 'w RandomAccessFile option" where
  "NewSpecialRandomAccessFile io fname = (OK, Some \<lparr>ra_Read = PosixRandomAccessFile_Read io fname, ra_scratch = True\<rparr>)"

record snappy =
  Snappy_Compress :: "slice \<Rightarrow> slice option"
  Snappy_GetUncompressedLength :: "slice \<Rightarrow> nat option"
  Snappy_Uncompress :: "slice \<Rightarrow> slice option"

text \<open>\<^verbatim>\<open>port_posix.h\<close> without the macro \<^verbatim>\<open>SNAPPY\<close>, as the enclave is built.\<close>

definition no_snappy :: snappy where
  "no_snappy = \<lparr>Snappy_Compress = (\<lambda>_. None), Snappy_GetUncompressedLength = (\<lambda>_. None), Snappy_Uncompress = (\<lambda>_. None)\<rparr>"

section \<open>Reading a block\<close>

record BlockContents =
  bc_data :: slice
  bc_cachable :: bool
  bc_heap_allocated :: bool

text \<open>
  The size with the trailer is a 64-bit sum. If it wraps, the code goes on to read at \<open>data + n\<close>, outside the buffer;
  the lists are too short there and the values read are not specified.
\<close>

definition ReadBlock ::
  "snappy \<Rightarrow> 'w RandomAccessFile \<Rightarrow> ReadOptions \<Rightarrow> BlockHandle \<Rightarrow> 'w \<Rightarrow> (status + BlockContents) \<times> 'w"
where
  "ReadBlock sn rf options handle w =
     (let n = bh_size handle;
          total = n + word_of_nat kBlockTrailerSize;
          (s, data, w) = ra_Read rf (bh_offset handle) (unat total) w
      in if \<not> ok s then (Inl s, w)
         else if word_of_nat (length data) \<noteq> total then (Inl (Corruption (str ''truncated block read'') []), w)
         else if ro_verify_checksums options \<and>
             crc_Value 0 (take (unat n + 1) data) \<noteq> crc_Unmask (DecodeFixed32 (drop (unat n + 1) data))
         then (Inl (Corruption (str ''block checksum mismatch'') []), w)
         else if data ! unat n = CompressionType_code kNoCompression then
           (Inr \<lparr>bc_data = take (unat n) data, bc_cachable = ra_scratch rf, bc_heap_allocated = ra_scratch rf\<rparr>, w)
         else if data ! unat n = CompressionType_code kSnappyCompression then
           (case Snappy_GetUncompressedLength sn (take (unat n) data) of
              None \<Rightarrow> (Inl (Corruption (str ''corrupted compressed block contents'') []), w)
            | Some ulength \<Rightarrow>
                (case Snappy_Uncompress sn (take (unat n) data) of
                   None \<Rightarrow> (Inl (Corruption (str ''corrupted compressed block contents'') []), w)
                 | Some u \<Rightarrow> (Inr \<lparr>bc_data = take ulength u, bc_cachable = True, bc_heap_allocated = True\<rparr>, w)))
         else (Inl (Corruption (str ''bad block type'') []), w))"

text \<open>The five bytes that \<open>TableBuilder::WriteRawBlock\<close> puts after a block.\<close>

definition block_trailer :: "CompressionType \<Rightarrow> slice \<Rightarrow> slice" where
  "block_trailer type contents =
     (let t = CompressionType_code type; crc = crc_Extend 0 (crc_Value 0 contents) [t]
      in t # EncodeFixed32 (crc_Mask crc))"

section \<open>Interfaces\<close>

locale random_access_file =
  fixes rf :: "'w RandomAccessFile" and holds :: "slice \<Rightarrow> 'w \<Rightarrow> bool"
  assumes small: "holds data w \<Longrightarrow> length data < 2 ^ 31"
    and read: "holds data w \<Longrightarrow> unat off + n \<le> length data \<Longrightarrow>
      \<exists>w'. ra_Read rf off n w = (OK, take n (drop (unat off) data), w') \<and> holds data w'"

text \<open>The Snappy format stores the uncompressed length as a number of at most 32 bits.\<close>

locale snappy_laws =
  fixes sn :: snappy
  assumes roundtrip: "Snappy_Compress sn x = Some y \<Longrightarrow>
    Snappy_GetUncompressedLength sn y = Some (length x) \<and> Snappy_Uncompress sn y = Some x"
    and limit: "Snappy_GetUncompressedLength sn y = Some n \<Longrightarrow> n < 2 ^ 32"

interpretation no_snappy: snappy_laws no_snappy
  by unfold_locales (simp_all add: no_snappy_def)

section \<open>Round trips\<close>

lemma BlockHandle_roundtrip [simp]: "BlockHandle_DecodeFrom (BlockHandle_EncodeTo h [] @ rest) = Inr (h, rest)"
  by (simp add: BlockHandle_DecodeFrom_def BlockHandle_EncodeTo_def PutVarint64_def EncodeVarint64_varint)

lemma BlockHandle_EncodeTo_append: "BlockHandle_EncodeTo h dst = dst @ BlockHandle_EncodeTo h []"
  by (simp add: BlockHandle_EncodeTo_def PutVarint64_def)

lemma BlockHandle_roundtrip_Nil [simp]: "BlockHandle_DecodeFrom (BlockHandle_EncodeTo h []) = Inr (h, [])"
  using BlockHandle_roundtrip [of h "[]"] by simp

lemma length_BlockHandle: "length (BlockHandle_EncodeTo h []) \<le> kMaxEncodedLength"
  using length_EncodeVarint64 [of "bh_offset h"] length_EncodeVarint64 [of "bh_size h"]
  by (simp add: BlockHandle_EncodeTo_def PutVarint64_def kMaxEncodedLength_def)

lemma Footer_EncodeTo_eq:
  "Footer_EncodeTo f [] =
     BlockHandle_EncodeTo (ft_metaindex_handle f) [] @ BlockHandle_EncodeTo (ft_index_handle f) [] @
     replicate (40 - length (BlockHandle_EncodeTo (ft_metaindex_handle f) []) - length (BlockHandle_EncodeTo (ft_index_handle f) [])) 0 @
     EncodeFixed32 0x8b80fb57 @ EncodeFixed32 0xdb477524"
  using length_BlockHandle [of "ft_metaindex_handle f"] length_BlockHandle [of "ft_index_handle f"]
  by (simp add: Footer_EncodeTo_def BlockHandle_EncodeTo_append [of _ "BlockHandle_EncodeTo (ft_metaindex_handle f) []"]
      Let_def resize_def kMaxEncodedLength_def PutFixed32_def kTableMagicNumber_def)

lemma length_Footer [simp]: "length (Footer_EncodeTo f []) = 48"
  using length_BlockHandle [of "ft_metaindex_handle f"] length_BlockHandle [of "ft_index_handle f"]
  by (simp add: Footer_EncodeTo_eq kMaxEncodedLength_def)

lemma Footer_roundtrip: "Footer_DecodeFrom (Footer_EncodeTo f []) = Inr (f, [])"
proof -
  let ?m = "BlockHandle_EncodeTo (ft_metaindex_handle f) []" and ?i = "BlockHandle_EncodeTo (ft_index_handle f) []"
  have "drop 40 (Footer_EncodeTo f []) = EncodeFixed32 0x8b80fb57 @ EncodeFixed32 0xdb477524"
    using length_BlockHandle [of "ft_metaindex_handle f"] length_BlockHandle [of "ft_index_handle f"]
    by (simp add: Footer_EncodeTo_eq kMaxEncodedLength_def)
  moreover have "push_bit 32 (ucast (0xdb477524 :: u32)) OR ucast (0x8b80fb57 :: u32) = kTableMagicNumber"
    by (simp add: kTableMagicNumber_def)
  moreover have "DecodeFixed32 (EncodeFixed32 v) = v" for v
    using DecodeFixed32_Encode [of v "[]"] by simp
  moreover have "BlockHandle_DecodeFrom (Footer_EncodeTo f []) = Inr (ft_metaindex_handle f, drop (length ?m) (Footer_EncodeTo f []))"
    by (simp add: Footer_EncodeTo_eq)
  moreover have "\<exists>r. BlockHandle_DecodeFrom (drop (length ?m) (Footer_EncodeTo f [])) = Inr (ft_index_handle f, r)"
    by (simp add: Footer_EncodeTo_eq)
  ultimately show ?thesis
    by (auto simp: Footer_DecodeFrom_def Footer_kEncodedLength_def kMaxEncodedLength_def)
qed

section \<open>What a table file holds at a handle\<close>

definition block_at :: "snappy \<Rightarrow> slice \<Rightarrow> BlockHandle \<Rightarrow> slice \<Rightarrow> bool" where
  "block_at sn data h raw \<longleftrightarrow>
     (\<exists>type stored. unat (bh_size h) = length stored \<and>
        take (length stored + kBlockTrailerSize) (drop (unat (bh_offset h)) data) = stored @ block_trailer type stored \<and>
        (case type of kNoCompression \<Rightarrow> stored = raw
         | kSnappyCompression \<Rightarrow> Snappy_GetUncompressedLength sn stored = Some (length raw) \<and> Snappy_Uncompress sn stored = Some raw))"

lemma length_block_trailer [simp]: "length (block_trailer type contents) = kBlockTrailerSize"
  by (simp add: block_trailer_def Let_def kBlockTrailerSize_def)

lemma block_trailer_crc:
  "crc_Value 0 (contents @ [CompressionType_code type]) = crc_Unmask (DecodeFixed32 (tl (block_trailer type contents)))"
  using DecodeFixed32_Encode [of _ "[]"] crc_Extend_Extend [of 0 0 0 contents "[CompressionType_code type]" 0]
  by (simp add: block_trailer_def Let_def crc_Unmask_Mask crc_Value_def)

lemma block_at_bound:
  assumes "block_at sn data h raw"
  shows "unat (bh_offset h) + (unat (bh_size h) + kBlockTrailerSize) \<le> length data"
proof -
  obtain type stored where s: "unat (bh_size h) = length stored"
    "take (length stored + kBlockTrailerSize) (drop (unat (bh_offset h)) data) = stored @ block_trailer type stored"
    using assms by (auto simp: block_at_def)
  have "min (length data - unat (bh_offset h)) (length stored + kBlockTrailerSize) = length stored + kBlockTrailerSize"
    using arg_cong [OF s(2), of length] by simp
  then show ?thesis
    using s(1) by (simp add: kBlockTrailerSize_def)
qed

lemma block_at_append:
  assumes "block_at sn data h raw"
  shows "block_at sn (data @ rest) h raw"
proof -
  have "take (unat (bh_size h) + kBlockTrailerSize) (drop (unat (bh_offset h)) (data @ rest)) =
      take (unat (bh_size h) + kBlockTrailerSize) (drop (unat (bh_offset h)) data)"
    using block_at_bound [OF assms] by simp
  then show ?thesis
    using assms unfolding block_at_def by (metis (no_types, lifting))
qed

context random_access_file
begin

lemma ReadBlock_at:
  assumes "holds data w" and at: "block_at sn data h raw"
  shows "\<exists>bc w'. ReadBlock sn rf options h w = (Inr bc, w') \<and> bc_data bc = raw \<and> holds data w'"
proof -
  obtain type stored where s: "unat (bh_size h) = length stored"
    "take (length stored + kBlockTrailerSize) (drop (unat (bh_offset h)) data) = stored @ block_trailer type stored"
    "case type of kNoCompression \<Rightarrow> stored = raw
     | kSnappyCompression \<Rightarrow> Snappy_GetUncompressedLength sn stored = Some (length raw) \<and> Snappy_Uncompress sn stored = Some raw"
    using at by (auto simp: block_at_def)
  have bound: "length stored + kBlockTrailerSize < 2 ^ 31"
    using block_at_bound [OF at] small [OF assms(1)] s(1) by simp
  have total: "unat (bh_size h + word_of_nat kBlockTrailerSize) = length stored + kBlockTrailerSize"
    using bound s(1) by (simp add: unat_word_ariths unat_of_nat kBlockTrailerSize_def)
  then have word: "word_of_nat (length stored + kBlockTrailerSize) = bh_size h + word_of_nat kBlockTrailerSize"
    by (metis of_nat_unat ucast_id)
  obtain w' where r: "ra_Read rf (bh_offset h) (length stored + kBlockTrailerSize) w = (OK, stored @ block_trailer type stored, w')" "holds data w'"
    using read [OF assms(1), of "bh_offset h" "length stored + kBlockTrailerSize"] block_at_bound [OF at] s(1,2) by auto
  have split: "stored @ block_trailer type stored = (stored @ [CompressionType_code type]) @ tl (block_trailer type stored)"
    by (simp add: block_trailer_def Let_def)
  have crc: "crc_Value 0 (take (length stored + 1) (stored @ block_trailer type stored)) =
      crc_Unmask (DecodeFixed32 (drop (length stored + 1) (stored @ block_trailer type stored)))"
    unfolding split using block_trailer_crc [of stored type] by simp
  have byte: "(stored @ block_trailer type stored) ! length stored = CompressionType_code type"
    by (simp add: block_trailer_def Let_def)
  show ?thesis
    using s(3) r(2) byte crc word unfolding ReadBlock_def Let_def total r(1)
    by (cases type) (simp_all add: s(1) nth_append)
qed

end

section \<open>The in-memory file system\<close>

definition mem_table :: "slice \<Rightarrow> mem_world RandomAccessFile" where
  "mem_table fname = the (snd (NewRandomAccessFile mem_io fname))"

interpretation mem_table: random_access_file "mem_table fname" "\<lambda>data w. length data < 2 ^ 31 \<and> mw_files w fname = Some data" for fname
proof (unfold_locales, goal_cases)
  case (2 data w off n)
  then have "unat off < 2 ^ 31" "n < 2 ^ 31" "sint (ucast off :: u32) = int (unat off)"
    using as_int_small [of "unat off"] by (auto simp: as_int_def)
  with 2 show ?case
    by (auto simp: mem_table_def NewRandomAccessFile_def UnSecurePosixRandomAccessFile_Read_def mem_io_def ocall_fopen_def ocall_fseek_def
        ocall_fread_def mem_fopen_def mem_open_def mem_advance_def mem_rest_def str_def split: prod.splits option.splits)
qed simp

end
