(* ===== verification/Table_Builder.thy ===== *)
theory Table_Builder
  imports Format Filter_Block
begin

text \<open>
  \<^verbatim>\<open>table/table_builder.cpp\<close>: writing a sorted table. The record has the fields of \<open>TableBuilder::Rep\<close>; the file is an
  argument, \<open>index_block_options\<close> is the restart interval 1 and \<open>compressed_output\<close>, empty between calls, is left out. It
  is shown which blocks a finished table consists of and what its index and its filter say of them.
\<close>

record TableBuilder =
  tb_options :: Options
  tb_offset :: u64
  tb_status :: status
  tb_data_block :: BlockBuilder
  tb_index_block :: BlockBuilder
  tb_last_key :: slice
  tb_num_entries :: int
  tb_closed :: bool
  tb_filter_block :: "FilterBlockBuilder option"
  tb_pending_index_entry :: bool
  tb_pending_handle :: BlockHandle

definition map_filter :: "(filter_policy \<Rightarrow> FilterBlockBuilder \<Rightarrow> FilterBlockBuilder) \<Rightarrow> TableBuilder \<Rightarrow> TableBuilder" where
  "map_filter f r =
     (case opt_filter_policy (tb_options r) of
        None \<Rightarrow> r
      | Some policy \<Rightarrow> r\<lparr>tb_filter_block := map_option (f policy) (tb_filter_block r)\<rparr>)"

definition new_TableBuilder :: "Options \<Rightarrow> TableBuilder" where
  "new_TableBuilder options =
     map_filter (\<lambda>policy. StartBlock policy 0)
       \<lparr>tb_options = options, tb_offset = 0, tb_status = OK, tb_data_block = new_BlockBuilder, tb_index_block = new_BlockBuilder,
        tb_last_key = [], tb_num_entries = 0, tb_closed = False,
        tb_filter_block = map_option (\<lambda>_. new_FilterBlockBuilder) (opt_filter_policy options),
        tb_pending_index_entry = False, tb_pending_handle = new_BlockHandle\<rparr>"

text \<open>The comparators are compared by address; the argument is the outcome.\<close>

definition ChangeOptions :: "bool \<Rightarrow> Options \<Rightarrow> TableBuilder \<Rightarrow> status \<times> TableBuilder" where
  "ChangeOptions same_comparator options r =
     (if \<not> same_comparator then (InvalidArgument (str ''changing comparator while building table'') [], r)
      else (OK, r\<lparr>tb_options := options\<rparr>))"

definition WriteRawBlock ::
  "'w WritableFile \<Rightarrow> slice \<Rightarrow> CompressionType \<Rightarrow> TableBuilder \<Rightarrow> 'w \<Rightarrow> BlockHandle \<times> TableBuilder \<times> 'w"
where
  "WriteRawBlock dest block_contents type r w =
     (let handle = \<lparr>bh_offset = tb_offset r, bh_size = word_of_nat (length block_contents)\<rparr>;
          (s, w) = wf_Append dest block_contents w
      in if ok s then
           let (s, w) = wf_Append dest (block_trailer type block_contents) w
           in (handle, r\<lparr>tb_status := s,
                 tb_offset := (if ok s then tb_offset r + word_of_nat (length block_contents) + word_of_nat kBlockTrailerSize
                               else tb_offset r)\<rparr>, w)
         else (handle, r\<lparr>tb_status := s\<rparr>, w))"

definition compress_block :: "snappy \<Rightarrow> CompressionType \<Rightarrow> slice \<Rightarrow> slice \<times> CompressionType" where
  "compress_block sn type raw =
     (case type of
        kNoCompression \<Rightarrow> (raw, kNoCompression)
      | kSnappyCompression \<Rightarrow>
          (case Snappy_Compress sn raw of
             None \<Rightarrow> (raw, kNoCompression)
           | Some packed \<Rightarrow>
               if length packed < length raw - length raw div 8 then (packed, kSnappyCompression) else (raw, kNoCompression)))"

definition WriteBlock ::
  "snappy \<Rightarrow> 'w WritableFile \<Rightarrow> BlockBuilder \<Rightarrow> TableBuilder \<Rightarrow> 'w \<Rightarrow> BlockHandle \<times> BlockBuilder \<times> TableBuilder \<times> 'w"
where
  "WriteBlock sn dest block r w =
     (let (raw, block) = BlockBuilder_Finish block;
          (block_contents, type) = compress_block sn (opt_compression (tb_options r)) raw;
          (handle, r, w) = WriteRawBlock dest block_contents type r w
      in (handle, BlockBuilder_Reset block, r, w))"

definition TableBuilder_Flush :: "snappy \<Rightarrow> 'w WritableFile \<Rightarrow> TableBuilder \<Rightarrow> 'w \<Rightarrow> TableBuilder \<times> 'w" where
  "TableBuilder_Flush sn dest r w =
     (if \<not> ok (tb_status r) then (r, w)
      else if bb_buffer (tb_data_block r) = [] then (r, w)
      else
        let (handle, block, r, w) = WriteBlock sn dest (tb_data_block r) r w;
            r = r\<lparr>tb_pending_handle := handle, tb_data_block := block\<rparr>;
            (r, w) = (if ok (tb_status r) then
                        let (s, w) = wf_Flush dest w in (r\<lparr>tb_pending_index_entry := True, tb_status := s\<rparr>, w)
                      else (r, w))
        in (map_filter (\<lambda>policy. StartBlock policy (tb_offset r)) r, w))"

text \<open>The index entry of the last block, under a key that separates it from what follows.\<close>

definition add_index_entry :: "slice \<Rightarrow> TableBuilder \<Rightarrow> TableBuilder" where
  "add_index_entry key r =
     r\<lparr>tb_last_key := key,
       tb_index_block := BlockBuilder_Add 1 key (BlockHandle_EncodeTo (tb_pending_handle r) []) (tb_index_block r),
       tb_pending_index_entry := False\<rparr>"

definition TableBuilder_Add :: "snappy \<Rightarrow> 'w WritableFile \<Rightarrow> slice \<Rightarrow> slice \<Rightarrow> TableBuilder \<Rightarrow> 'w \<Rightarrow> TableBuilder \<times> 'w" where
  "TableBuilder_Add sn dest key value r w =
     (if \<not> ok (tb_status r) then (r, w)
      else
        let r = (if tb_pending_index_entry r
                 then add_index_entry (FindShortestSeparator (opt_comparator (tb_options r)) (tb_last_key r) key) r else r);
            r = map_filter (\<lambda>policy. AddKey key) r;
            r = r\<lparr>tb_last_key := key, tb_num_entries := tb_num_entries r + 1,
                  tb_data_block := BlockBuilder_Add (opt_block_restart_interval (tb_options r)) key value (tb_data_block r)\<rparr>
        in if CurrentSizeEstimate (tb_data_block r) \<ge> opt_block_size (tb_options r) then TableBuilder_Flush sn dest r w else (r, w))"

definition write_filter :: "'w WritableFile \<Rightarrow> TableBuilder \<Rightarrow> 'w \<Rightarrow> BlockHandle \<times> TableBuilder \<times> 'w" where
  "write_filter dest r w =
     (case (opt_filter_policy (tb_options r), tb_filter_block r) of
        (Some policy, Some fb) \<Rightarrow>
          if ok (tb_status r) then WriteRawBlock dest (Finish_filter policy fb) kNoCompression r w else (new_BlockHandle, r, w)
      | _ \<Rightarrow> (new_BlockHandle, r, w))"

definition filter_key :: "filter_policy \<Rightarrow> slice" where
  "filter_key policy = str ''filter.'' @ Filter_Name policy"

definition meta_index_block :: "BlockHandle \<Rightarrow> TableBuilder \<Rightarrow> BlockBuilder" where
  "meta_index_block filter_handle r =
     (case (opt_filter_policy (tb_options r), tb_filter_block r) of
        (Some policy, Some fb) \<Rightarrow>
          BlockBuilder_Add (opt_block_restart_interval (tb_options r)) (filter_key policy) (BlockHandle_EncodeTo filter_handle [])
            new_BlockBuilder
      | _ \<Rightarrow> new_BlockBuilder)"

definition write_index :: "snappy \<Rightarrow> 'w WritableFile \<Rightarrow> TableBuilder \<Rightarrow> 'w \<Rightarrow> BlockHandle \<times> TableBuilder \<times> 'w" where
  "write_index sn dest r w =
     (let r = (if tb_pending_index_entry r
               then add_index_entry (FindShortSuccessor (opt_comparator (tb_options r)) (tb_last_key r)) r else r);
          (handle, block, r, w) = WriteBlock sn dest (tb_index_block r) r w
      in (handle, r\<lparr>tb_index_block := block\<rparr>, w))"

definition write_footer :: "'w WritableFile \<Rightarrow> Footer \<Rightarrow> TableBuilder \<Rightarrow> 'w \<Rightarrow> TableBuilder \<times> 'w" where
  "write_footer dest footer r w =
     (let encoding = Footer_EncodeTo footer []; (s, w) = wf_Append dest encoding w
      in (r\<lparr>tb_status := s, tb_offset := (if ok s then tb_offset r + word_of_nat (length encoding) else tb_offset r)\<rparr>, w))"

definition TableBuilder_Finish :: "snappy \<Rightarrow> 'w WritableFile \<Rightarrow> TableBuilder \<Rightarrow> 'w \<Rightarrow> status \<times> TableBuilder \<times> 'w" where
  "TableBuilder_Finish sn dest r w =
     (let (r, w) = TableBuilder_Flush sn dest r w;
          r = r\<lparr>tb_closed := True\<rparr>;
          (filter_handle, r, w) = write_filter dest r w;
          (metaindex_handle, r, w) =
            (if ok (tb_status r) then
               let (handle, block, r, w) = WriteBlock sn dest (meta_index_block filter_handle r) r w in (handle, r, w)
             else (new_BlockHandle, r, w));
          (index_handle, r, w) = (if ok (tb_status r) then write_index sn dest r w else (new_BlockHandle, r, w));
          (r, w) = (if ok (tb_status r)
                    then write_footer dest \<lparr>ft_metaindex_handle = metaindex_handle, ft_index_handle = index_handle\<rparr> r w else (r, w))
      in (tb_status r, r, w))"

definition TableBuilder_Abandon :: "TableBuilder \<Rightarrow> TableBuilder" where
  "TableBuilder_Abandon r = r\<lparr>tb_closed := True\<rparr>"

definition TableBuilder_NumEntries :: "TableBuilder \<Rightarrow> u64" where
  "TableBuilder_NumEntries r = word_of_int (tb_num_entries r)"

definition TableBuilder_FileSize :: "TableBuilder \<Rightarrow> u64" where
  "TableBuilder_FileSize r = tb_offset r"

text \<open>Building a table from a sequence of entries.\<close>

definition build_table :: "snappy \<Rightarrow> 'w WritableFile \<Rightarrow> Options \<Rightarrow> entries \<Rightarrow> 'w \<Rightarrow> status \<times> TableBuilder \<times> 'w" where
  "build_table sn dest options es w =
     (let (r, w) = fold (\<lambda>(k, v) (r, w). TableBuilder_Add sn dest k v r w) es (new_TableBuilder options, w)
      in TableBuilder_Finish sn dest r w)"

section \<open>Block builders that hold a sequence\<close>

text \<open>\<open>Reset\<close> keeps the count of all entries ever added, which nothing else reads.\<close>

definition builds :: "nat \<Rightarrow> BlockBuilder \<Rightarrow> entries \<Rightarrow> bool" where
  "builds n b es \<longleftrightarrow> b\<lparr>bb_total := 0\<rparr> = (build_block n es)\<lparr>bb_total := 0\<rparr>"

definition block_bytes :: "nat \<Rightarrow> entries \<Rightarrow> slice" where
  "block_bytes n es = fst (BlockBuilder_Finish (build_block n es))"

lemma builds_new [simp]: "builds n new_BlockBuilder []" "builds n (BlockBuilder_Reset b) []"
  by (simp_all add: builds_def build_block_def new_BlockBuilder_def BlockBuilder_Reset_def)

lemma Add_total: "(BlockBuilder_Add n k v b)\<lparr>bb_total := 0\<rparr> = (BlockBuilder_Add n k v (b\<lparr>bb_total := 0\<rparr>))\<lparr>bb_total := 0\<rparr>"
  by (simp add: BlockBuilder_Add_def Let_def split: if_splits)

lemma builds_Add: "builds n b es \<Longrightarrow> builds n (BlockBuilder_Add n k v b) (es @ [(k, v)])"
  unfolding builds_def build_block_def fold_append comp_def
  by (subst Add_total) (simp add: Add_total [of n k v "fold _ es new_BlockBuilder"])

lemma Finish_total: "fst (BlockBuilder_Finish b) = fst (BlockBuilder_Finish (b\<lparr>bb_total := 0\<rparr>))"
  by (simp add: BlockBuilder_Finish_def Let_def)

lemma builds_Finish: "builds n b es \<Longrightarrow> fst (BlockBuilder_Finish b) = block_bytes n es"
  unfolding builds_def block_bytes_def by (metis Finish_total)

lemma Add_nonempty: "bb_buffer (BlockBuilder_Add n k v b) \<noteq> []"
  by (auto simp: BlockBuilder_Add_def Let_def entry_header_def PutVarint32_def EncodeVarint32_varint)

lemma builds_empty: "builds n b es \<Longrightarrow> bb_buffer b = [] \<longleftrightarrow> es = []"
proof -
  assume "builds n b es"
  then have "bb_buffer b = bb_buffer (build_block n es)"
    unfolding builds_def by (metis BlockBuilder.select_convs(1) BlockBuilder.surjective BlockBuilder.update_convs(6))
  then show ?thesis
    using Add_nonempty by (cases es rule: rev_cases) (auto simp: build_block_def new_BlockBuilder_def)
qed

section \<open>The layout of a file of blocks\<close>

type_synonym stored_block = "CompressionType \<times> slice"

definition layout :: "stored_block list \<Rightarrow> slice" where
  "layout bs = concat (map (\<lambda>(t, d). d @ block_trailer t d) bs)"

definition handle_at :: "stored_block list \<Rightarrow> nat \<Rightarrow> BlockHandle" where
  "handle_at bs i = \<lparr>bh_offset = word_of_nat (length (layout (take i bs))), bh_size = word_of_nat (length (snd (bs ! i)))\<rparr>"

definition stores :: "snappy \<Rightarrow> stored_block \<Rightarrow> slice \<Rightarrow> bool" where
  "stores sn b raw \<longleftrightarrow>
     (case fst b of kNoCompression \<Rightarrow> snd b = raw
      | kSnappyCompression \<Rightarrow> Snappy_GetUncompressedLength sn (snd b) = Some (length raw) \<and> Snappy_Uncompress sn (snd b) = Some raw)"

lemma layout_append [simp]: "layout (bs @ cs) = layout bs @ layout cs" "layout [] = []"
  by (simp_all add: layout_def)

lemma layout_Cons [simp]: "layout (b # bs) = snd b @ block_trailer (fst b) (snd b) @ layout bs"
  by (simp add: layout_def case_prod_unfold)

lemma handle_at_append [simp]: "i < length bs \<Longrightarrow> handle_at (bs @ cs) i = handle_at bs i"
  by (simp add: handle_at_def nth_append)

lemma handle_at_snoc: "handle_at (bs @ [b]) (length bs) = \<lparr>bh_offset = word_of_nat (length (layout bs)), bh_size = word_of_nat (length (snd b))\<rparr>"
  by (simp add: handle_at_def)

lemma block_at_layout:
  assumes "i < length bs" and "stores sn (bs ! i) raw" and "length (layout bs @ rest) < 2 ^ 31"
  shows "block_at sn (layout bs @ rest) (handle_at bs i) raw"
proof -
  obtain t d where b: "bs ! i = (t, d)" by fastforce
  have split: "layout bs = layout (take i bs) @ d @ block_trailer t d @ layout (drop (Suc i) bs)"
    using id_take_nth_drop [OF assms(1)] b layout_append(1) [of "take i bs" "bs ! i # drop (Suc i) bs"] by simp
  have len: "length (layout (take i bs)) + length d < 2 ^ 31"
    using assms(3) unfolding split by simp
  then have "unat (bh_offset (handle_at bs i)) = length (layout (take i bs))" "unat (bh_size (handle_at bs i)) = length d"
    by (simp_all add: handle_at_def b unat_of_nat)
  then show ?thesis
    using assms(2) unfolding block_at_def split by (intro exI [of _ t] exI [of _ d]) (simp add: stores_def b split: CompressionType.splits)
qed

lemma compress_block_stores:
  assumes "snappy_laws sn" and "compress_block sn type raw = (d, t)"
  shows "stores sn (t, d) raw"
  using assms(2) snappy_laws.roundtrip [OF assms(1)]
  by (auto simp: compress_block_def stores_def split: CompressionType.splits option.splits if_splits)

section \<open>What the builder has written\<close>

definition filter_calls :: "stored_block list \<Rightarrow> entries list \<Rightarrow> (u64 \<times> slice list) list" where
  "filter_calls bs ess = map (\<lambda>i. (bh_offset (handle_at bs i), map fst (ess ! i))) [0..<length bs]"

definition run_filter :: "filter_policy \<Rightarrow> (u64 \<times> slice list) list \<Rightarrow> FilterBlockBuilder" where
  "run_filter policy calls = fold (\<lambda>(off, keys) b. fold AddKey keys (StartBlock policy off b)) calls new_FilterBlockBuilder"

lemma filter_calls_snoc:
  "length ess = length bs \<Longrightarrow> filter_calls (bs @ [b]) (ess @ [es]) = filter_calls bs ess @ [(word_of_nat (length (layout bs)), map fst es)]"
  by (simp add: filter_calls_def handle_at_snoc nth_append cong: map_cong)

lemma run_filter_snoc: "run_filter p (calls @ [(off, keys)]) = fold AddKey keys (StartBlock p off (run_filter p calls))"
  by (simp add: run_filter_def)

lemma run_filter_AddKey: "AddKey k (run_filter p (calls @ [(off, keys)])) = run_filter p (calls @ [(off, keys @ [k])])"
  by (simp add: run_filter_snoc)

locale table_format = snappy_laws sn + comparator_laws "opt_comparator options" valid
  for sn :: snappy and options :: Options and valid +
  assumes interval: "0 < opt_block_restart_interval options"
begin

abbreviation compare where "compare \<equiv> Compare (opt_comparator options)"
abbreviation ri where "ri \<equiv> opt_block_restart_interval options"

definition index_ok :: "stored_block list \<Rightarrow> entries list \<Rightarrow> entries \<Rightarrow> nat \<Rightarrow> slice \<times> slice \<Rightarrow> bool" where
  "index_ok bs ess cur i ix \<longleftrightarrow> snd ix = BlockHandle_EncodeTo (handle_at bs i) [] \<and> valid (fst ix) \<and>
     (\<forall>e \<in> set (ess ! i). compare (fst e) (fst ix) \<le> 0) \<and>
     (\<forall>e \<in> set (concat (drop (Suc i) ess) @ cur). compare (fst ix) (fst e) < 0) \<and>
     (\<forall>e es. concat (drop (Suc i) ess) @ cur = e # es \<longrightarrow>
        fst ix = FindShortestSeparator (opt_comparator options) (fst (last (ess ! i))) (fst e))"

definition blocks_ok :: "stored_block list \<Rightarrow> entries list \<Rightarrow> bool" where
  "blocks_ok bs ess \<longleftrightarrow> length ess = length bs \<and>
     (\<forall>i < length bs. ess ! i \<noteq> [] \<and> stores sn (bs ! i) (block_bytes ri (ess ! i)))"

definition keys_ok :: "entries \<Rightarrow> bool" where
  "keys_ok es \<longleftrightarrow> sorted_wrt (\<lambda>a b. compare (fst a) (fst b) < 0) es \<and> (\<forall>e \<in> set es. valid (fst e))"

text \<open>The blocks of a finished table of the entries \<open>es\<close>: the data blocks, at most one filter block, the metaindex and the
  index, with the index entries \<open>ixs\<close>.\<close>

definition filter_blocks :: "stored_block list \<Rightarrow> entries list \<Rightarrow> stored_block list" where
  "filter_blocks bs ess =
     (case opt_filter_policy options of
        None \<Rightarrow> []
      | Some p \<Rightarrow> [(kNoCompression, build_filter_block p (filter_calls bs ess @ [(word_of_nat (length (layout bs)), [])]))])"

definition meta_entries :: "stored_block list \<Rightarrow> entries list \<Rightarrow> entries" where
  "meta_entries bs ess =
     (case opt_filter_policy options of
        None \<Rightarrow> []
      | Some p \<Rightarrow> [(filter_key p, BlockHandle_EncodeTo (handle_at (bs @ filter_blocks bs ess) (length bs)) [])])"

definition table_file :: "slice \<Rightarrow> stored_block list \<Rightarrow> entries list \<Rightarrow> entries \<Rightarrow> bool" where
  "table_file data bs ess ixs \<longleftrightarrow>
     (\<exists>meta idx. let all = bs @ filter_blocks bs ess @ [meta, idx]; m = length bs + length (filter_blocks bs ess)
        in data = layout all @ Footer_EncodeTo \<lparr>ft_metaindex_handle = handle_at all m, ft_index_handle = handle_at all (Suc m)\<rparr> [] \<and>
           stores sn meta (block_bytes ri (meta_entries bs ess)) \<and> stores sn idx (block_bytes 1 ixs)) \<and>
     blocks_ok bs ess \<and> length ixs = length bs \<and> (\<forall>i < length bs. index_ok bs ess [] i (ixs ! i)) \<and> keys_ok (concat ess)"

end

locale table_writer = table_format sn options valid + out: writable_file dest live contents
  for sn options valid and dest :: "'w WritableFile" and live and contents
begin

definition tb_rel :: "TableBuilder \<Rightarrow> 'w \<Rightarrow> stored_block list \<Rightarrow> entries list \<Rightarrow> entries \<Rightarrow> entries \<Rightarrow> bool" where
  "tb_rel r w bs ess ixs cur \<longleftrightarrow>
     live w \<and> contents w = layout bs \<and> tb_options r = options \<and> tb_status r = OK \<and> tb_offset r = word_of_nat (length (layout bs)) \<and>
     blocks_ok bs ess \<and> builds ri (tb_data_block r) cur \<and> builds 1 (tb_index_block r) ixs \<and>
     tb_pending_index_entry r = (bs \<noteq> [] \<and> cur = []) \<and>
     (tb_pending_index_entry r \<longrightarrow> tb_pending_handle r = handle_at bs (length bs - 1)) \<and>
     length ixs = (if tb_pending_index_entry r then length bs - 1 else length bs) \<and>
     (\<forall>i < length ixs. index_ok bs ess cur i (ixs ! i)) \<and>
     (concat ess @ cur \<noteq> [] \<longrightarrow> tb_last_key r = fst (last (concat ess @ cur))) \<and>
     keys_ok (concat ess @ cur) \<and>
     tb_filter_block r = map_option (\<lambda>p. run_filter p (filter_calls bs ess @ [(word_of_nat (length (layout bs)), map fst cur)]))
       (opt_filter_policy options)"

lemma new_TableBuilder_rel:
  assumes "live w" "contents w = []"
  shows "tb_rel (new_TableBuilder options) w [] [] [] []"
  using assms by (simp add: tb_rel_def new_TableBuilder_def map_filter_def blocks_ok_def keys_ok_def filter_calls_def run_filter_def
      split: option.splits)

lemma WriteRawBlock_ok:
  assumes "live w" and "WriteRawBlock dest d t r w = (h, r', w')" and "ok (tb_status r')"
  shows "live w'" "contents w' = contents w @ d @ block_trailer t d" "h = \<lparr>bh_offset = tb_offset r, bh_size = word_of_nat (length d)\<rparr>"
    "r' = r\<lparr>tb_status := OK, tb_offset := tb_offset r + word_of_nat (length d + kBlockTrailerSize)\<rparr>"
proof -
  obtain s1 w1 where a: "wf_Append dest d w = (s1, w1)" by fastforce
  obtain s2 w2 where b: "wf_Append dest (block_trailer t d) w1 = (s2, w2)" by fastforce
  have e: "(h, r', w') = (if ok s1 then (\<lparr>bh_offset = tb_offset r, bh_size = word_of_nat (length d)\<rparr>,
      r\<lparr>tb_status := s2, tb_offset := (if ok s2 then tb_offset r + word_of_nat (length d) + word_of_nat kBlockTrailerSize else tb_offset r)\<rparr>, w2)
      else (\<lparr>bh_offset = tb_offset r, bh_size = word_of_nat (length d)\<rparr>, r\<lparr>tb_status := s1\<rparr>, w1))"
    using assms(2) unfolding WriteRawBlock_def Let_def a b prod.case by (simp add: a b split: if_splits)
  then have s1: "ok s1" using assms(3) by (auto split: if_splits)
  with e have s2: "ok s2" using assms(3) by auto
  have "live w1 \<and> contents w1 = contents w @ d" using out.append_law [OF assms(1) a s1] .
  with out.append_law [OF _ b s2] have w2: "live w2 \<and> contents w2 = contents w @ d @ block_trailer t d"
    by simp
  have "w' = w2" "h = \<lparr>bh_offset = tb_offset r, bh_size = word_of_nat (length d)\<rparr>"
    "r' = r\<lparr>tb_status := s2, tb_offset := tb_offset r + word_of_nat (length d + kBlockTrailerSize)\<rparr>"
    using e s1 s2 by (simp_all add: add.assoc)
  then show "live w'" "contents w' = contents w @ d @ block_trailer t d" "h = \<lparr>bh_offset = tb_offset r, bh_size = word_of_nat (length d)\<rparr>"
    "r' = r\<lparr>tb_status := OK, tb_offset := tb_offset r + word_of_nat (length d + kBlockTrailerSize)\<rparr>"
    using w2 s2 by (auto simp: ok_def OK_def)
qed

lemma WriteBlock_ok:
  assumes "live w" and "WriteBlock sn dest b r w = (h, b', r', w')" and "ok (tb_status r')" and "builds n b es"
  shows "\<exists>sb. stores sn sb (block_bytes n es) \<and> live w' \<and> contents w' = contents w @ layout [sb] \<and>
    h = \<lparr>bh_offset = tb_offset r, bh_size = word_of_nat (length (snd sb))\<rparr> \<and> b' = BlockBuilder_Reset (snd (BlockBuilder_Finish b)) \<and>
    r' = r\<lparr>tb_status := OK, tb_offset := tb_offset r + word_of_nat (length (layout [sb]))\<rparr>"
proof -
  obtain d t where c: "compress_block sn (opt_compression (tb_options r)) (block_bytes n es) = (d, t)" by fastforce
  have raw: "fst (BlockBuilder_Finish b) = block_bytes n es" by (rule builds_Finish [OF assms(4)])
  have "stores sn (t, d) (block_bytes n es)"
    by (rule compress_block_stores [OF _ c]) unfold_locales
  moreover have "WriteRawBlock dest d t r w = (h, r', w')" and "b' = BlockBuilder_Reset (snd (BlockBuilder_Finish b))"
    using assms(2) raw c by (auto simp: WriteBlock_def Let_def split: prod.splits)
  ultimately show ?thesis
    using WriteRawBlock_ok [OF assms(1) _ assms(3)] by (intro exI [of _ "(t, d)"]) (auto simp: kBlockTrailerSize_def)
qed

lemma index_ok_Flush:
  assumes "index_ok bs ess cur i ix" "i < length bs" "length ess = length bs"
  shows "index_ok (bs @ [b]) (ess @ [cur]) [] i ix"
  using assms by (auto simp: index_ok_def nth_append)

lemma Flush_status: "\<not> ok (tb_status r) \<Longrightarrow> TableBuilder_Flush sn dest r w = (r, w)"
  by (simp add: TableBuilder_Flush_def)

lemma Flush_empty: "tb_rel r w bs ess ixs [] \<Longrightarrow> TableBuilder_Flush sn dest r w = (r, w)"
  using builds_empty [of ri "tb_data_block r" "[]"] by (auto simp: TableBuilder_Flush_def tb_rel_def)

lemma Flush_rel:
  assumes rel: "tb_rel r w bs ess ixs cur" and "cur \<noteq> []" and fl: "TableBuilder_Flush sn dest r w = (r', w')" and ok: "ok (tb_status r')"
  shows "\<exists>b. tb_rel r' w' (bs @ [b]) (ess @ [cur]) ixs [] \<and> tb_closed r' = tb_closed r"
proof -
  obtain h blk r1 w1 where wb: "WriteBlock sn dest (tb_data_block r) r w = (h, blk, r1, w1)"
    by (metis prod_cases4)
  obtain s2 w2 where f: "wf_Flush dest w1 = (s2, w2)" by fastforce
  have ne: "bb_buffer (tb_data_block r) \<noteq> []" and ok0: "ok (tb_status r)"
    using rel assms(2) builds_empty [of ri "tb_data_block r" cur] by (auto simp: tb_rel_def)
  let ?r2 = "r1\<lparr>tb_pending_handle := h, tb_data_block := blk\<rparr>"
  have e: "(r', w') = (if ok (tb_status r1)
      then (map_filter (\<lambda>p. StartBlock p (tb_offset r1)) (?r2\<lparr>tb_pending_index_entry := True, tb_status := s2\<rparr>), w2)
      else (map_filter (\<lambda>p. StartBlock p (tb_offset r1)) ?r2, w1))"
    using fl ne ok0 wb f by (simp add: TableBuilder_Flush_def Let_def split: if_splits)
  have mf: "tb_status (map_filter g q) = tb_status q" for g q
    by (simp add: map_filter_def split: option.split)
  have ok1: "ok (tb_status r1)" using e ok by (auto simp: mf split: if_splits)
  with e have r': "r' = map_filter (\<lambda>p. StartBlock p (tb_offset r1)) (?r2\<lparr>tb_pending_index_entry := True, tb_status := s2\<rparr>)" "w' = w2"
    by simp_all
  then have ok2: "ok s2" using ok by (simp add: mf)
  have rel': "live w" "contents w = layout bs" "tb_offset r = word_of_nat (length (layout bs))" "builds ri (tb_data_block r) cur"
    using rel by (simp_all add: tb_rel_def)
  obtain sb where sb: "stores sn sb (block_bytes ri cur)" "live w1" "contents w1 = layout (bs @ [sb])"
    "h = handle_at (bs @ [sb]) (length bs)" "blk = BlockBuilder_Reset (snd (BlockBuilder_Finish (tb_data_block r)))"
    "r1 = r\<lparr>tb_status := OK, tb_offset := word_of_nat (length (layout (bs @ [sb])))\<rparr>"
    using WriteBlock_ok [OF rel'(1) wb ok1 rel'(4)] rel'(2,3) by (auto simp: handle_at_snoc)
  have w2: "live w2 \<and> contents w2 = layout (bs @ [sb])"
    using out.flush_law [OF sb(2) f ok2] sb(3) by simp
  have blocks: "blocks_ok (bs @ [sb]) (ess @ [cur])" and len: "length ess = length bs"
    using rel sb(1) assms(2) by (auto simp: tb_rel_def blocks_ok_def nth_append less_Suc_eq)
  have np: "\<not> tb_pending_index_entry r" and ixs: "length ixs = length bs"
    using rel assms(2) by (auto simp: tb_rel_def)
  have idx: "\<forall>i < length ixs. index_ok (bs @ [sb]) (ess @ [cur]) [] i (ixs ! i)"
    using rel ixs len index_ok_Flush by (simp add: tb_rel_def)
  have "tb_rel r' w' (bs @ [sb]) (ess @ [cur]) ixs []"
    using rel w2 blocks idx ixs ok2 assms(2) len
    by (simp add: tb_rel_def r' sb(4,5,6) map_filter_def filter_calls_snoc run_filter_def ok_def OK_def split: option.splits)
  moreover have "tb_closed r' = tb_closed r"
    by (simp add: r' map_filter_def sb(6) split: option.split)
  ultimately show ?thesis
    by blast
qed

lemma keys_ok_snoc:
  "keys_ok (es @ [e]) \<longleftrightarrow> keys_ok es \<and> valid (fst e) \<and> (\<forall>e' \<in> set es. compare (fst e') (fst e) < 0)"
  by (auto simp: keys_ok_def sorted_wrt_append)

lemma keys_ok_le_last:
  assumes "keys_ok es" "e \<in> set es"
  shows "compare (fst e) (fst (last es)) \<le> 0"
proof (cases es rule: rev_cases)
  case (snoc ys y)
  with assms show ?thesis by (auto simp: keys_ok_snoc less_imp_le)
qed (use assms in simp)

lemma later_entry:
  assumes rel: "tb_rel r w bs ess ixs cur" and "i < length ixs"
  shows "\<exists>e. e \<in> set (concat (drop (Suc i) ess) @ cur)"
proof (cases "cur = []")
  case True
  then have i: "Suc i < length ess"
    using rel assms(2) by (auto simp: tb_rel_def blocks_ok_def split: if_splits)
  then have "ess ! Suc i \<noteq> []" "ess ! Suc i \<in> set (drop (Suc i) ess)"
    using rel by (auto simp: tb_rel_def blocks_ok_def in_set_conv_nth intro!: exI [of _ 0])
  then show ?thesis by (cases "ess ! Suc i") force+
next
  case False
  then show ?thesis by (intro exI [of _ "hd cur"]) simp
qed

lemma index_ok_Add:
  assumes rel: "tb_rel r w bs ess ixs cur" and keys: "keys_ok (concat ess @ cur @ [(k, v)])" and i: "i < length ixs"
  shows "index_ok bs ess (cur @ [(k, v)]) i (ixs ! i)"
proof -
  have ix: "index_ok bs ess cur i (ixs ! i)" using rel i by (simp add: tb_rel_def)
  obtain e where e: "e \<in> set (concat (drop (Suc i) ess) @ cur)" using later_entry [OF rel i] ..
  then have "e \<in> set (concat ess @ cur)" by (auto dest: in_set_dropD)
  then have "compare (fst e) k < 0"
    using keys keys_ok_snoc [of "concat ess @ cur" "(k, v)"] by simp
  moreover have "compare (fst (ixs ! i)) (fst e) < 0" using ix e by (auto simp: index_ok_def)
  ultimately have "compare (fst (ixs ! i)) k < 0" using cmp_less_trans by blast
  moreover have "fst (ixs ! i) = FindShortestSeparator (opt_comparator options) (fst (last (ess ! i))) (fst e')"
    if "concat (drop (Suc i) ess) @ cur @ [(k, v)] = e' # es" for e' es
  proof -
    obtain e1 es1 where e1: "concat (drop (Suc i) ess) @ cur = e1 # es1" using e by (metis list.exhaust list.set_cases)
    then have "e' = e1" using that by (metis append_assoc append_Cons list.inject)
    then show ?thesis using ix e1 unfolding index_ok_def by blast
  qed
  ultimately show ?thesis
    using ix by (auto simp: index_ok_def)
qed

lemma index_ok_separator:
  assumes rel: "tb_rel r w bs ess ixs []" and bs: "bs \<noteq> []" and sep: "valid sep" "compare (tb_last_key r) sep \<le> 0"
    and later: "\<And>e. e \<in> set cur \<Longrightarrow> compare sep (fst e) < 0"
    and eq: "\<And>e es. cur = e # es \<Longrightarrow> sep = FindShortestSeparator (opt_comparator options) (tb_last_key r) (fst e)"
  shows "index_ok bs ess cur (length bs - 1) (sep, BlockHandle_EncodeTo (tb_pending_handle r) [])"
proof -
  have len: "length ess = length bs" and ne: "ess ! (length bs - 1) \<noteq> []"
    using rel bs by (auto simp: tb_rel_def blocks_ok_def)
  have mem: "e \<in> set (concat ess)" if "e \<in> set (ess ! (length bs - 1))" for e
    using that bs len by (metis (no_types, lifting) UN_I diff_less length_greater_0_conv nth_mem set_concat zero_less_one)
  then have "concat ess \<noteq> []" using ne by (cases "ess ! (length bs - 1)") fastforce+
  then have last: "tb_last_key r = fst (last (concat ess))" and keys: "keys_ok (concat ess)"
    using rel by (simp_all add: tb_rel_def)
  have "compare (fst e) sep \<le> 0" if "e \<in> set (ess ! (length bs - 1))" for e
    using keys_ok_le_last [OF keys mem [OF that]] sep(2) cmp_le_trans unfolding last by blast
  moreover have "drop (Suc (length bs - 1)) ess = []" using len bs by simp
  moreover have "tb_pending_handle r = handle_at bs (length bs - 1)" using rel bs by (simp add: tb_rel_def)
  moreover have "last (concat ess) = last (ess ! (length bs - 1))"
    using ne bs len by (cases ess rule: rev_cases) (auto simp: nth_append)
  ultimately show ?thesis using sep(1) later eq by (simp add: index_ok_def last)
qed

lemma Add_rel:
  assumes rel: "tb_rel r w bs ess ixs cur" and keys: "keys_ok (concat ess @ cur @ [(k, v)])"
    and add: "TableBuilder_Add sn dest k v r w = (r', w')" and ok: "ok (tb_status r')"
  shows "\<exists>bs' ess' ixs' cur'. tb_rel r' w' bs' ess' ixs' cur' \<and> concat ess' @ cur' = concat ess @ cur @ [(k, v)]"
proof -
  let ?c = "opt_comparator options" and ?sep = "FindShortestSeparator (opt_comparator options) (tb_last_key r) k"
  let ?r1 = "if tb_pending_index_entry r then add_index_entry ?sep r else r"
  let ?r2 = "map_filter (\<lambda>p. AddKey k) ?r1"
  let ?r3 = "?r2\<lparr>tb_last_key := k, tb_num_entries := tb_num_entries ?r2 + 1, tb_data_block := BlockBuilder_Add ri k v (tb_data_block ?r2)\<rparr>"
  let ?ixs = "if tb_pending_index_entry r then ixs @ [(?sep, BlockHandle_EncodeTo (tb_pending_handle r) [])] else ixs"
  have st: "ok (tb_status r)" "tb_options r = options" using rel by (simp_all add: tb_rel_def)
  have opt: "tb_options ?r2 = options"
    using st(2) by (simp add: map_filter_def add_index_entry_def split: option.splits)
  have e: "(r', w') = (if CurrentSizeEstimate (tb_data_block ?r3) \<ge> opt_block_size options then TableBuilder_Flush sn dest ?r3 w else (?r3, w))"
    unfolding add [symmetric] TableBuilder_Add_def Let_def st(2) using st(1) opt by (simp cong: if_cong split del: if_split)
  have new: "index_ok bs ess [(k, v)] (length bs - 1) (?sep, BlockHandle_EncodeTo (tb_pending_handle r) [])"
    if p: "tb_pending_index_entry r"
  proof -
    have cur: "cur = []" and bs: "bs \<noteq> []" using rel p by (auto simp: tb_rel_def)
    have last: "e \<in> set (concat ess) \<Longrightarrow> compare (fst e) k < 0" "valid k" for e
      using keys keys_ok_snoc [of "concat ess" "(k, v)"] cur by auto
    have "concat ess \<noteq> []" using rel bs by (cases bs) (auto simp: tb_rel_def blocks_ok_def)
    then have "tb_last_key r = fst (last (concat ess))" "last (concat ess) \<in> set (concat ess)" "keys_ok (concat ess)"
      using rel cur by (simp_all add: tb_rel_def del: set_concat)
    then have "compare (tb_last_key r) k < 0" "valid (tb_last_key r)"
      using last(1) by (auto simp: keys_ok_def)
    from separator [OF this(2) last(2) this(1)] show ?thesis
      by (intro index_ok_separator [OF _ bs]) (use rel cur in auto)
  qed
  have idx: "\<forall>i < length ?ixs. index_ok bs ess (cur @ [(k, v)]) i (?ixs ! i)"
  proof (intro allI impI)
    fix i assume i: "i < length ?ixs"
    show "index_ok bs ess (cur @ [(k, v)]) i (?ixs ! i)"
    proof (cases "i < length ixs")
      case True
      then show ?thesis using index_ok_Add [OF rel keys True] by (simp add: nth_append)
    next
      case False
      then have p: "tb_pending_index_entry r" "i = length ixs" "cur = []" "length ixs = length bs - 1"
        using i rel by (auto simp: tb_rel_def split: if_splits)
      then show ?thesis using new by (simp add: nth_append)
    qed
  qed
  have lenix: "length ?ixs = length bs" using rel by (auto simp: tb_rel_def)
  have build: "builds 1 (tb_index_block ?r2) ?ixs"
    using rel builds_Add [of 1 "tb_index_block r" ixs] by (auto simp: tb_rel_def map_filter_def add_index_entry_def split: option.splits)
  have r3: "tb_rel ?r3 w bs ess ?ixs (cur @ [(k, v)])"
    using rel keys idx lenix build builds_Add [of ri "tb_data_block r" cur k v]
    by (auto simp: tb_rel_def map_filter_def add_index_entry_def run_filter_AddKey split: option.splits)
  show ?thesis
  proof (cases "CurrentSizeEstimate (tb_data_block ?r3) \<ge> opt_block_size options")
    case True
    then have "TableBuilder_Flush sn dest ?r3 w = (r', w')" using e by simp
    from Flush_rel [OF r3 _ this ok] show ?thesis by fastforce
  next
    case False
    then have "r' = ?r3" "w' = w" using e by simp_all
    then show ?thesis using r3 by blast
  qed
qed

lemma Add_status: "\<not> ok (tb_status r) \<Longrightarrow> TableBuilder_Add sn dest k v r w = (r, w)"
  by (simp add: TableBuilder_Add_def)

lemma Add_fold_rel:
  assumes "tb_rel r w bs ess ixs cur" and "keys_ok (concat ess @ cur @ es)"
    and "fold (\<lambda>(k, v) (r, w). TableBuilder_Add sn dest k v r w) es (r, w) = (r', w')" and "ok (tb_status r')"
  shows "\<exists>bs' ess' ixs' cur'. tb_rel r' w' bs' ess' ixs' cur' \<and> concat ess' @ cur' = concat ess @ cur @ es"
  using assms
proof (induction es arbitrary: r w bs ess ixs cur)
  case Nil
  then show ?case by auto
next
  case (Cons e es)
  obtain k v where e: "e = (k, v)" by fastforce
  obtain r1 w1 where a: "TableBuilder_Add sn dest k v r w = (r1, w1)" by fastforce
  have f: "fold (\<lambda>(k, v) (r, w). TableBuilder_Add sn dest k v r w) es (r1, w1) = (r', w')"
    using Cons.prems(3) a e by simp
  have stuck: "fold (\<lambda>(k, v) (r, w). TableBuilder_Add sn dest k v r w) xs (q, u) = (q, u)" if "\<not> ok (tb_status q)" for xs q u
    using that by (induction xs) (auto simp: Add_status)
  then have ok1: "ok (tb_status r1)"
    using f Cons.prems(4) by (cases "ok (tb_status r1)") auto
  have "keys_ok (concat ess @ cur @ [(k, v)])"
    using Cons.prems(2) e by (auto simp: keys_ok_def sorted_wrt_append)
  from Add_rel [OF Cons.prems(1) this a ok1] obtain bs1 ess1 ixs1 cur1 where
    "tb_rel r1 w1 bs1 ess1 ixs1 cur1" "concat ess1 @ cur1 = concat ess @ cur @ [(k, v)]"
    by blast
  with Cons.IH [OF this(1) _ f Cons.prems(4)] Cons.prems(2) e show ?case
    by (metis append_Cons append_Nil append_assoc)
qed

lemma write_filter_ok:
  assumes rel: "tb_rel r w bs ess ixs []" and wr: "write_filter dest (r\<lparr>tb_closed := c\<rparr>) w = (h, r', w')" and ok: "ok (tb_status r')"
  shows "live w' \<and> contents w' = layout (bs @ filter_blocks bs ess) \<and>
    r' = r\<lparr>tb_closed := c, tb_offset := word_of_nat (length (layout (bs @ filter_blocks bs ess)))\<rparr> \<and>
    builds ri (meta_index_block h r') (meta_entries bs ess)"
proof (cases "opt_filter_policy options")
  case None
  then have "h = new_BlockHandle" "r' = r\<lparr>tb_closed := c\<rparr>" "w' = w"
    using rel wr by (auto simp: write_filter_def tb_rel_def)
  then show ?thesis
    using rel None by (simp add: tb_rel_def filter_blocks_def meta_entries_def meta_index_block_def)
next
  case (Some p)
  let ?fb = "build_filter_block p (filter_calls bs ess @ [(word_of_nat (length (layout bs)), [])])"
  have fb: "tb_filter_block r = Some (run_filter p (filter_calls bs ess @ [(word_of_nat (length (layout bs)), [])]))"
    using rel Some by (simp add: tb_rel_def)
  have b: "filter_blocks bs ess = [(kNoCompression, ?fb)]"
    using Some by (simp add: filter_blocks_def)
  have "WriteRawBlock dest ?fb kNoCompression (r\<lparr>tb_closed := c\<rparr>) w = (h, r', w')"
    using rel wr Some fb by (simp add: write_filter_def tb_rel_def build_filter_block_def run_filter_def)
  from WriteRawBlock_ok [OF _ this ok] rel
  have w': "live w'" "contents w' = layout (bs @ [(kNoCompression, ?fb)])"
    and h: "h = \<lparr>bh_offset = word_of_nat (length (layout bs)), bh_size = word_of_nat (length ?fb)\<rparr>"
    and r': "r' = r\<lparr>tb_closed := c, tb_offset := word_of_nat (length (layout (bs @ [(kNoCompression, ?fb)])))\<rparr>"
    by (simp_all add: tb_rel_def)
  have "builds ri (BlockBuilder_Add ri (filter_key p) (BlockHandle_EncodeTo h []) new_BlockBuilder) [(filter_key p, BlockHandle_EncodeTo h [])]"
    using builds_Add [of ri new_BlockBuilder "[]"] by simp
  then show ?thesis
    using w' r' rel Some fb
    by (simp add: b meta_index_block_def meta_entries_def handle_at_snoc h tb_rel_def)
qed

lemma write_index_ok:
  assumes rel: "tb_rel r w bs ess ixs []" and l: "live v" and q: "q = r\<lparr>tb_closed := c, tb_offset := o'\<rparr>"
    and wr: "write_index sn dest q v = (h, q', v')" and ok: "ok (tb_status q')"
  shows "\<exists>idx ixs'. stores sn idx (block_bytes 1 ixs') \<and> live v' \<and> contents v' = contents v @ layout [idx] \<and>
    h = \<lparr>bh_offset = o', bh_size = word_of_nat (length (snd idx))\<rparr> \<and>
    length ixs' = length bs \<and> (\<forall>i < length bs. index_ok bs ess [] i (ixs' ! i)) \<and> tb_offset q' = o' + word_of_nat (length (layout [idx]))"
proof -
  let ?sep = "FindShortSuccessor (opt_comparator options) (tb_last_key r)"
  let ?ix = "(?sep, BlockHandle_EncodeTo (tb_pending_handle r) [])"
  let ?ixs = "if tb_pending_index_entry r then ixs @ [?ix] else ixs"
  let ?q1 = "if tb_pending_index_entry q then add_index_entry (FindShortSuccessor (opt_comparator (tb_options q)) (tb_last_key q)) q else q"
  have opt: "tb_options r = options" using rel by (simp add: tb_rel_def)
  have build: "builds 1 (tb_index_block ?q1) ?ixs"
    using rel builds_Add [of 1 "tb_index_block r" ixs] by (auto simp: q opt tb_rel_def add_index_entry_def)
  obtain b q2 where wb: "WriteBlock sn dest (tb_index_block ?q1) ?q1 v = (h, b, q2, v')" and q': "q' = q2\<lparr>tb_index_block := b\<rparr>"
    using wr by (auto simp: write_index_def Let_def split: prod.splits)
  have last: "index_ok bs ess [] (length bs - 1) ?ix" if p: "tb_pending_index_entry r"
  proof -
    have bs: "bs \<noteq> []" using rel p by (auto simp: tb_rel_def)
    then have "concat ess \<noteq> []" using rel by (cases bs) (auto simp: tb_rel_def blocks_ok_def)
    then have "tb_last_key r = fst (last (concat ess))" "last (concat ess) \<in> set (concat ess)" "keys_ok (concat ess)"
      using rel by (simp_all add: tb_rel_def del: set_concat)
    then have "valid (tb_last_key r)" by (auto simp: keys_ok_def)
    from successor [OF this] show ?thesis
      by (intro index_ok_separator [OF rel bs]) auto
  qed
  have len: "length ?ixs = length bs" using rel by (auto simp: tb_rel_def)
  have "\<forall>i < length bs. index_ok bs ess [] i (?ixs ! i)"
  proof (intro allI impI)
    fix i assume i: "i < length bs"
    show "index_ok bs ess [] i (?ixs ! i)"
    proof (cases "i < length ixs")
      case True
      then have "index_ok bs ess [] i (ixs ! i)" using rel unfolding tb_rel_def by blast
      with True show ?thesis by (simp add: nth_append)
    next
      case False
      then have "tb_pending_index_entry r" "i = length bs - 1" "length ixs = length bs - 1"
        using i rel by (auto simp: tb_rel_def split: if_splits)
      then show ?thesis using last by (simp add: nth_append)
    qed
  qed
  moreover have o': "tb_offset ?q1 = o'" by (simp add: q add_index_entry_def)
  moreover have ok2: "ok (tb_status q2)" using ok by (simp add: q')
  obtain sb where "stores sn sb (block_bytes 1 ?ixs)" "live v'" "contents v' = contents v @ layout [sb]"
    "h = \<lparr>bh_offset = tb_offset ?q1, bh_size = word_of_nat (length (snd sb))\<rparr>"
    "q2 = ?q1\<lparr>tb_status := OK, tb_offset := tb_offset ?q1 + word_of_nat (length (layout [sb]))\<rparr>"
    using WriteBlock_ok [OF l wb ok2 build] by blast
  ultimately show ?thesis
    using len unfolding o' by (intro exI [of _ sb] exI [of _ ?ixs] conjI) (simp_all add: q' del: layout_Cons)
qed

lemma Finish_file:
  assumes rel0: "tb_rel r w bs0 ess0 ixs0 cur0" and fin: "TableBuilder_Finish sn dest r w = (s, r', w')" and ok: "ok s"
  shows "\<exists>bs ess ixs. table_file (contents w') bs ess ixs \<and> concat ess = concat ess0 @ cur0 \<and>
    tb_offset r' = word_of_nat (length (contents w'))"
proof -
  obtain r1 w1 where f1: "TableBuilder_Flush sn dest r w = (r1, w1)" by fastforce
  let ?r1 = "r1\<lparr>tb_closed := True\<rparr>"
  obtain fh r2 w2 where f2: "write_filter dest ?r1 w1 = (fh, r2, w2)" by (metis prod_cases3)
  obtain mh mb r3 w3 where f3: "WriteBlock sn dest (meta_index_block fh r2) r2 w2 = (mh, mb, r3, w3)" by (metis prod_cases4)
  obtain ih r4 w4 where f4: "write_index sn dest r3 w3 = (ih, r4, w4)" by (metis prod_cases3)
  let ?ft = "\<lparr>ft_metaindex_handle = mh, ft_index_handle = ih\<rparr>"
  obtain s5 w5 where f5: "wf_Append dest (Footer_EncodeTo ?ft []) w4 = (s5, w5)" by fastforce
  have steps: "ok (tb_status r2)" "ok (tb_status r3)" "ok (tb_status r4)" "ok s5"
    using fin ok f1 f2 f3 f4 f5 by (auto simp: TableBuilder_Finish_def write_footer_def Let_def split: if_splits)
  have "tb_status r1 = tb_status r2 \<or> ok (tb_status r1)"
    using f2 by (auto simp: write_filter_def split: option.splits if_splits)
  then have ok1: "ok (tb_status r1)" using steps(1) by auto
  have fin': "r' = r4\<lparr>tb_status := s5, tb_offset := tb_offset r4 + 48\<rparr>" "w' = w5"
    using fin f1 f2 f3 f4 f5 steps by (auto simp: TableBuilder_Finish_def write_footer_def Let_def)
  obtain bs ess ixs where rel: "tb_rel r1 w1 bs ess ixs []" and es: "concat ess = concat ess0 @ cur0"
  proof (cases "cur0 = []")
    case True
    then show ?thesis using that [of bs0 ess0 ixs0] rel0 Flush_empty [of r w bs0 ess0 ixs0] f1 by auto
  next
    case False
    then show ?thesis using that Flush_rel [OF rel0 False f1 ok1] by fastforce
  qed
  let ?fb = "filter_blocks bs ess"
  note w2 = write_filter_ok [OF rel f2 steps(1)]
  obtain meta where meta: "stores sn meta (block_bytes ri (meta_entries bs ess))" "live w3" "contents w3 = layout (bs @ ?fb @ [meta])"
    "mh = \<lparr>bh_offset = word_of_nat (length (layout (bs @ ?fb))), bh_size = word_of_nat (length (snd meta))\<rparr>"
    "r3 = r1\<lparr>tb_closed := True, tb_offset := word_of_nat (length (layout (bs @ ?fb @ [meta])))\<rparr>"
  proof -
    have "tb_status r1 = OK" using rel by (simp add: tb_rel_def)
    with WriteBlock_ok [OF _ f3 steps(2), of ri "meta_entries bs ess"] w2 that show ?thesis by fastforce
  qed
  obtain idx ixs' where idx: "stores sn idx (block_bytes 1 ixs')" "live w4" "contents w4 = layout (bs @ ?fb @ [meta, idx])"
    "ih = \<lparr>bh_offset = word_of_nat (length (layout (bs @ ?fb @ [meta]))), bh_size = word_of_nat (length (snd idx))\<rparr>"
    "length ixs' = length bs" "\<forall>i < length bs. index_ok bs ess [] i (ixs' ! i)"
    "tb_offset r4 = word_of_nat (length (layout (bs @ ?fb @ [meta, idx])))"
    using write_index_ok [OF rel meta(2,5) f4 steps(3)] meta(3) by auto
  let ?all = "bs @ ?fb @ [meta, idx]" and ?m = "length bs + length ?fb"
  have hs: "mh = handle_at ?all ?m" "ih = handle_at ?all (Suc ?m)"
    using meta(4) idx(4) by (simp_all add: handle_at_def nth_append)
  have w5: "contents w5 = layout ?all @ Footer_EncodeTo ?ft []"
    using out.append_law [OF idx(2) f5 steps(4)] idx(3) by simp
  have "blocks_ok bs ess" "keys_ok (concat ess)"
    using rel by (simp_all add: tb_rel_def)
  then have "table_file (contents w') bs ess ixs'"
    unfolding table_file_def Let_def fin'(2) w5 hs
    using meta(1) idx(1,5,6) by (intro conjI exI [of _ meta] exI [of _ idx]) simp_all
  moreover have "tb_offset r' = word_of_nat (length (contents w'))"
    by (simp add: fin' w5 idx(7))
  ultimately show ?thesis
    using es by blast
qed

lemma build_table_file:
  assumes "live w" "contents w = []" and "keys_ok es" and b: "build_table sn dest options es w = (s, r, w')" and "ok s"
  shows "\<exists>bs ess ixs. table_file (contents w') bs ess ixs \<and> concat ess = es \<and> TableBuilder_FileSize r = word_of_nat (length (contents w'))"
proof -
  obtain r1 w1 where f: "fold (\<lambda>(k, v) (r, w). TableBuilder_Add sn dest k v r w) es (new_TableBuilder options, w) = (r1, w1)"
    by fastforce
  then have fin: "TableBuilder_Finish sn dest r1 w1 = (s, r, w')"
    using b by (simp add: build_table_def)
  have "ok (tb_status r1)"
  proof (rule ccontr)
    assume "\<not> ok (tb_status r1)"
    then show False using fin assms(5) Flush_status [of r1 w1]
      by (auto simp: TableBuilder_Finish_def write_filter_def Let_def split: option.splits)
  qed
  from Add_fold_rel [OF new_TableBuilder_rel [OF assms(1,2)] _ f this] assms(3)
  obtain bs ess ixs cur where "tb_rel r1 w1 bs ess ixs cur" "concat ess @ cur = es" by auto
  with Finish_file [OF this(1) fin assms(5)] show ?thesis
    by (auto simp: TableBuilder_FileSize_def)
qed

end

interpretation mem_writer: table_writer no_snappy default_Options "\<lambda>_. True"
  "UnSecurePosixWritableFile mem_io fname h" "mem.live h fname" "mem.contents fname" for fname h
proof -
  have "comparator_laws (opt_comparator default_Options) (\<lambda>_. True)"
    by (simp add: default_Options_def) unfold_locales
  then show "table_writer no_snappy default_Options (\<lambda>_. True)
      (UnSecurePosixWritableFile mem_io fname h) (mem.live h fname) (mem.contents fname)"
    by (intro table_writer.intro table_format.intro table_format_axioms.intro mem.unsecure_wf.writable_file_axioms
        no_snappy.snappy_laws_axioms) (auto simp: default_Options_def)
qed

end
