(* ===== verification/Two_Level.thy ===== *)
theory Two_Level
  imports Iterators "HOL-Library.While_Combinator"
begin

text \<open>
  \<^verbatim>\<open>table/iterator_wrapper.h\<close> and \<^verbatim>\<open>table/two_level_iterator.cpp\<close>: an iterator that concatenates the sequences
  an index iterator points to. The block function and the release of its iterators act on a world that
  the state carries. Under the contract of the index and of the blocks, the two-level iterator
  meets the same contract for the concatenation.
\<close>

section \<open>The wrapper that caches validity and key\<close>

record 's IteratorWrapper =
  iw_iter :: "'s option"
  iw_valid :: bool
  iw_key :: slice

definition iw_Update :: "'s Iterator \<Rightarrow> 's IteratorWrapper \<Rightarrow> 's IteratorWrapper" where
  "iw_Update it x =
     (case iw_iter x of None \<Rightarrow> x
      | Some s \<Rightarrow> x\<lparr>iw_valid := i_Valid it s, iw_key := if i_Valid it s then i_key it s else iw_key x\<rparr>)"

definition iw_Set :: "'s Iterator \<Rightarrow> 's option \<Rightarrow> 's IteratorWrapper \<Rightarrow> 's IteratorWrapper" where
  "iw_Set it i x = (if i = None then x\<lparr>iw_iter := None, iw_valid := False\<rparr> else iw_Update it (x\<lparr>iw_iter := i\<rparr>))"

definition new_IteratorWrapper :: "'s Iterator \<Rightarrow> 's option \<Rightarrow> 's IteratorWrapper" where
  "new_IteratorWrapper it i = iw_Set it i \<lparr>iw_iter = None, iw_valid = False, iw_key = []\<rparr>"

definition iw_move :: "'s Iterator \<Rightarrow> ('s \<Rightarrow> 's) \<Rightarrow> 's IteratorWrapper \<Rightarrow> 's IteratorWrapper" where
  "iw_move it f x = iw_Update it (x\<lparr>iw_iter := map_option f (iw_iter x)\<rparr>)"

definition iw_value :: "'s Iterator \<Rightarrow> 's IteratorWrapper \<Rightarrow> slice" where
  "iw_value it x = (case iw_iter x of None \<Rightarrow> [] | Some s \<Rightarrow> i_value it s)"

definition iw_status :: "'s Iterator \<Rightarrow> 's IteratorWrapper \<Rightarrow> status" where
  "iw_status it x = (case iw_iter x of None \<Rightarrow> OK | Some s \<Rightarrow> i_status it s)"

definition wrapped :: "'s Iterator \<Rightarrow> 's IteratorWrapper Iterator" where
  "wrapped it =
     \<lparr>i_Valid = iw_valid, i_SeekToFirst = iw_move it (i_SeekToFirst it), i_SeekToLast = iw_move it (i_SeekToLast it),
      i_Seek = (\<lambda>t. iw_move it (i_Seek it t)), i_Next = iw_move it (i_Next it), i_Prev = iw_move it (i_Prev it),
      i_key = iw_key, i_value = iw_value it, i_status = iw_status it\<rparr>"

section \<open>The two-level iterator\<close>

text \<open>
  \<open>tl_cleanup\<close> is what deleting the current data iterator does to the world; it does nothing when there is none.
\<close>

record ('i, 'd, 'w) TwoLevelIterator =
  tl_status :: status
  tl_index :: "'i IteratorWrapper"
  tl_data :: "'d IteratorWrapper"
  tl_cleanup :: "'w \<Rightarrow> 'w"
  tl_handle :: slice
  tl_world :: 'w

type_synonym ('d, 'w) block_function = "slice \<Rightarrow> 'w \<Rightarrow> ('d \<times> ('w \<Rightarrow> 'w)) \<times> 'w"

definition new_TwoLevelIterator :: "'i Iterator \<Rightarrow> 'd Iterator \<Rightarrow> 'i \<Rightarrow> 'w \<Rightarrow> ('i, 'd, 'w) TwoLevelIterator" where
  "new_TwoLevelIterator iit dit i w =
     \<lparr>tl_status = OK, tl_index = new_IteratorWrapper iit (Some i), tl_data = new_IteratorWrapper dit None,
      tl_cleanup = id, tl_handle = [], tl_world = w\<rparr>"

definition SaveError :: "status \<Rightarrow> ('i, 'd, 'w) TwoLevelIterator \<Rightarrow> ('i, 'd, 'w) TwoLevelIterator" where
  "SaveError e s = (if ok (tl_status s) \<and> \<not> ok e then s\<lparr>tl_status := e\<rparr> else s)"

definition SetDataIterator ::
  "'d Iterator \<Rightarrow> ('d \<times> ('w \<Rightarrow> 'w)) option \<Rightarrow> ('i, 'd, 'w) TwoLevelIterator \<Rightarrow> ('i, 'd, 'w) TwoLevelIterator"
where
  "SetDataIterator dit new s =
     (let s = (if iw_iter (tl_data s) \<noteq> None then SaveError (iw_status dit (tl_data s)) s else s)
      in s\<lparr>tl_world := tl_cleanup s (tl_world s), tl_data := iw_Set dit (map_option fst new) (tl_data s),
           tl_cleanup := (case new of None \<Rightarrow> id | Some (d, c) \<Rightarrow> c)\<rparr>)"

definition InitDataBlock ::
  "'i Iterator \<Rightarrow> 'd Iterator \<Rightarrow> ('d, 'w) block_function \<Rightarrow> ('i, 'd, 'w) TwoLevelIterator \<Rightarrow> ('i, 'd, 'w) TwoLevelIterator"
where
  "InitDataBlock iit dit bf s =
     (if \<not> iw_valid (tl_index s) then SetDataIterator dit None s
      else let handle = iw_value iit (tl_index s) in
           if iw_iter (tl_data s) \<noteq> None \<and> Slice_compare handle (tl_handle s) = 0 then s
           else let (iter, w) = bf handle (tl_world s)
                in SetDataIterator dit (Some iter) (s\<lparr>tl_world := w, tl_handle := handle\<rparr>))"

definition tl_move_data :: "'d Iterator \<Rightarrow> ('d \<Rightarrow> 'd) \<Rightarrow> ('i, 'd, 'w) TwoLevelIterator \<Rightarrow> ('i, 'd, 'w) TwoLevelIterator" where
  "tl_move_data dit f s = (if iw_iter (tl_data s) \<noteq> None then s\<lparr>tl_data := iw_move dit f (tl_data s)\<rparr> else s)"

text \<open>
  One round of a skip loop moves to another block and positions its iterator; the loop stops at a valid
  data iterator or, after dropping it, when the index is not valid. \<open>None\<close> is a loop that never stops.
\<close>

definition skip_round ::
  "'i Iterator \<Rightarrow> 'd Iterator \<Rightarrow> ('d, 'w) block_function \<Rightarrow> ('i \<Rightarrow> 'i) \<Rightarrow> ('d \<Rightarrow> 'd) \<Rightarrow>
   ('i, 'd, 'w) TwoLevelIterator \<Rightarrow> ('i, 'd, 'w) TwoLevelIterator"
where
  "skip_round iit dit bf move start s =
     tl_move_data dit start (InitDataBlock iit dit bf (s\<lparr>tl_index := iw_move iit move (tl_index s)\<rparr>))"

definition skip_loop ::
  "'i Iterator \<Rightarrow> 'd Iterator \<Rightarrow> ('d, 'w) block_function \<Rightarrow> ('i \<Rightarrow> 'i) \<Rightarrow> ('d \<Rightarrow> 'd) \<Rightarrow>
   ('i, 'd, 'w) TwoLevelIterator \<Rightarrow> ('i, 'd, 'w) TwoLevelIterator option"
where
  "skip_loop iit dit bf move start s =
     map_option (\<lambda>s. if iw_iter (tl_data s) = None \<or> \<not> iw_valid (tl_data s) then SetDataIterator dit None s else s)
       (while_option (\<lambda>s. (iw_iter (tl_data s) = None \<or> \<not> iw_valid (tl_data s)) \<and> iw_valid (tl_index s))
         (skip_round iit dit bf move start) s)"

definition SkipEmptyDataBlocksForward where
  "SkipEmptyDataBlocksForward iit dit bf = skip_loop iit dit bf (i_Next iit) (i_SeekToFirst dit)"

definition SkipEmptyDataBlocksBackward where
  "SkipEmptyDataBlocksBackward iit dit bf = skip_loop iit dit bf (i_Prev iit) (i_SeekToLast dit)"

definition tl_Seek where
  "tl_Seek iit dit bf target s =
     SkipEmptyDataBlocksForward iit dit bf (tl_move_data dit (i_Seek dit target)
       (InitDataBlock iit dit bf (s\<lparr>tl_index := iw_move iit (i_Seek iit target) (tl_index s)\<rparr>)))"

definition tl_SeekToFirst where
  "tl_SeekToFirst iit dit bf s =
     SkipEmptyDataBlocksForward iit dit bf (tl_move_data dit (i_SeekToFirst dit)
       (InitDataBlock iit dit bf (s\<lparr>tl_index := iw_move iit (i_SeekToFirst iit) (tl_index s)\<rparr>)))"

definition tl_SeekToLast where
  "tl_SeekToLast iit dit bf s =
     SkipEmptyDataBlocksBackward iit dit bf (tl_move_data dit (i_SeekToLast dit)
       (InitDataBlock iit dit bf (s\<lparr>tl_index := iw_move iit (i_SeekToLast iit) (tl_index s)\<rparr>)))"

definition tl_Next where
  "tl_Next iit dit bf s = SkipEmptyDataBlocksForward iit dit bf (tl_move_data dit (i_Next dit) s)"

definition tl_Prev where
  "tl_Prev iit dit bf s = SkipEmptyDataBlocksBackward iit dit bf (tl_move_data dit (i_Prev dit) s)"

definition tl_get_status where
  "tl_get_status iit dit s =
     (if \<not> ok (iw_status iit (tl_index s)) then iw_status iit (tl_index s)
      else if iw_iter (tl_data s) \<noteq> None \<and> \<not> ok (iw_status dit (tl_data s)) then iw_status dit (tl_data s)
      else tl_status s)"

text \<open>The methods of the record are total: a movement that never returns leaves the state as it was.\<close>

definition or_stuck :: "('s \<Rightarrow> 's option) \<Rightarrow> 's \<Rightarrow> 's" where
  "or_stuck f s = (case f s of None \<Rightarrow> s | Some s' \<Rightarrow> s')"

definition TwoLevel :: "'i Iterator \<Rightarrow> 'd Iterator \<Rightarrow> ('d, 'w) block_function \<Rightarrow> ('i, 'd, 'w) TwoLevelIterator Iterator" where
  "TwoLevel iit dit bf =
     \<lparr>i_Valid = (\<lambda>s. iw_valid (tl_data s)),
      i_SeekToFirst = or_stuck (tl_SeekToFirst iit dit bf), i_SeekToLast = or_stuck (tl_SeekToLast iit dit bf),
      i_Seek = (\<lambda>t. or_stuck (tl_Seek iit dit bf t)),
      i_Next = or_stuck (tl_Next iit dit bf), i_Prev = or_stuck (tl_Prev iit dit bf),
      i_key = (\<lambda>s. iw_key (tl_data s)), i_value = (\<lambda>s. iw_value dit (tl_data s)),
      i_status = tl_get_status iit dit\<rparr>"

lemma skip_loop_unfold:
  "skip_loop iit dit bf f g s =
     (if iw_iter (tl_data s) = None \<or> \<not> iw_valid (tl_data s)
      then if iw_valid (tl_index s) then skip_loop iit dit bf f g (skip_round iit dit bf f g s) else Some (SetDataIterator dit None s)
      else Some s)"
  unfolding skip_loop_def by (subst while_option_unfold) simp

section \<open>The wrapper keeps the contract\<close>

definition iw_ok :: "'s Iterator \<Rightarrow> ('s \<Rightarrow> bool) \<Rightarrow> 's IteratorWrapper \<Rightarrow> bool" where
  "iw_ok it I x = (case iw_iter x of None \<Rightarrow> False
     | Some s \<Rightarrow> I s \<and> iw_valid x = i_Valid it s \<and> (iw_valid x \<longrightarrow> iw_key x = i_key it s))"

definition iw_pos :: "('s \<Rightarrow> nat) \<Rightarrow> 's IteratorWrapper \<Rightarrow> nat" where
  "iw_pos pos x = pos (the (iw_iter x))"

lemma iw_Set_ok: "I s \<Longrightarrow> iw_ok it I (iw_Set it (Some s) x)" "iw_iter (iw_Set it i x) = i"
  by (auto simp: iw_Set_def iw_Update_def iw_ok_def split: option.splits)

lemma iw_move_iter: "iw_iter (iw_move it f x) = map_option f (iw_iter x)"
  by (auto simp: iw_move_def iw_Update_def split: option.splits)

lemma iw_move_ok:
  assumes "iw_ok it I x" and "\<And>s. I s \<Longrightarrow> pos s = iw_pos pos x \<Longrightarrow> I (f s) \<and> pos (f s) = p"
  shows "iw_ok it I (iw_move it f x) \<and> iw_pos pos (iw_move it f x) = p"
  using assms by (auto simp: iw_ok_def iw_move_def iw_Update_def iw_pos_def split: option.splits)

context seq_iterator
begin

lemma iw_valid_iff: "iw_ok it inv x \<Longrightarrow> iw_valid x \<longleftrightarrow> iw_pos pos x < length es"
  by (auto simp: iw_ok_def iw_pos_def valid split: option.splits)

lemma iw_value_eq: "iw_ok it inv x \<Longrightarrow> iw_pos pos x < length es \<Longrightarrow> iw_value it x = snd (es ! iw_pos pos x)"
  by (auto simp: iw_ok_def iw_pos_def iw_value_def val split: option.splits)

lemma iw_key_eq: "iw_ok it inv x \<Longrightarrow> iw_pos pos x < length es \<Longrightarrow> iw_key x = fst (es ! iw_pos pos x)"
  by (auto simp: iw_ok_def iw_pos_def valid key split: option.splits)

lemma iw_pos_le: "iw_ok it inv x \<Longrightarrow> iw_pos pos x \<le> length es"
  by (auto simp: iw_ok_def iw_pos_def pos_le split: option.splits)

lemma iw_status_ok: "iw_ok it inv x \<Longrightarrow> ok (iw_status it x)"
  by (auto simp: iw_ok_def iw_status_def status_ok split: option.splits)

lemma wrapped_seq_iterator: "seq_iterator (wrapped it) cmp es (iw_ok it inv) (iw_pos pos)"
proof (unfold_locales, goal_cases le valid key val first last seek forth backw status)
  case (forth x)
  then show ?case
    unfolding wrapped_def by (simp, intro iw_move_ok) (auto simp: wrapped_def step)
next
  case (backw x)
  then show ?case
    unfolding wrapped_def by (simp only: Iterator.simps, intro iw_move_ok) (auto simp: wrapped_def prev)
qed (simp_all add: wrapped_def iw_pos_le iw_valid_iff iw_key_eq iw_value_eq iw_status_ok iw_move_ok first last seek)

end

section \<open>The contract of the parts\<close>

lemma lower_bound_append_all:
  "\<forall>e \<in> set xs. cmp (fst e) t < 0 \<Longrightarrow> lower_bound cmp t (xs @ ys) = length xs + lower_bound cmp t ys"
  by (simp add: lower_bound_def case_prod_unfold)

lemma lower_bound_append_none:
  "\<forall>e \<in> set ys. \<not> cmp (fst e) t < 0 \<Longrightarrow> lower_bound cmp t (xs @ ys) = lower_bound cmp t xs"
  unfolding lower_bound_def by (induction xs) (cases ys, auto simp: case_prod_unfold)


definition data_ok :: "'d Iterator \<Rightarrow> (slice \<Rightarrow> 'd \<Rightarrow> bool) \<Rightarrow> slice set \<Rightarrow> ('i, 'd, 'w) TwoLevelIterator \<Rightarrow> bool" where
  "data_ok dit dinv H s \<longleftrightarrow>
     (if iw_iter (tl_data s) = None then \<not> iw_valid (tl_data s) else tl_handle s \<in> H \<and> iw_ok dit (dinv (tl_handle s)) (tl_data s))"

locale two_level = order: three_way cmp for cmp :: "slice \<Rightarrow> slice \<Rightarrow> int" +
  fixes iit :: "'i Iterator" and dit :: "'d Iterator" and bf :: "('d, 'w) block_function" and ies :: entries
    and iinv :: "'i \<Rightarrow> bool" and ipos :: "'i \<Rightarrow> nat"
    and block :: "slice \<Rightarrow> entries" and dinv :: "slice \<Rightarrow> 'd \<Rightarrow> bool" and dpos :: "slice \<Rightarrow> 'd \<Rightarrow> nat"
    and winv :: "'w \<Rightarrow> bool"
  assumes index: "seq_iterator iit cmp ies iinv ipos"
    and data: "h \<in> snd ` set ies \<Longrightarrow> seq_iterator dit cmp (block h) (dinv h) (dpos h)"
    and open_block: "h \<in> snd ` set ies \<Longrightarrow> winv w \<Longrightarrow> bf h w = ((d, c), w') \<Longrightarrow>
      dinv h d \<and> winv w' \<and> (\<forall>v. winv v \<longrightarrow> winv (c v))"
    and upper: "j < length ies \<Longrightarrow> e \<in> set (block (snd (ies ! j))) \<Longrightarrow> cmp (fst e) (fst (ies ! j)) \<le> 0"
    and lower: "j < k \<Longrightarrow> k < length ies \<Longrightarrow> e \<in> set (block (snd (ies ! k))) \<Longrightarrow> cmp (fst (ies ! j)) (fst e) < 0"
begin

definition blocks :: "entries list" where
  "blocks = map (block \<circ> snd) ies"

definition all_entries :: entries where
  "all_entries = concat blocks"

definition off :: "nat \<Rightarrow> nat" where
  "off j = length (concat (take j blocks))"

definition tl_base :: "('i, 'd, 'w) TwoLevelIterator \<Rightarrow> bool" where
  "tl_base s \<longleftrightarrow> winv (tl_world s) \<and> (\<forall>w. winv w \<longrightarrow> winv (tl_cleanup s w)) \<and> ok (tl_status s) \<and>
     iw_ok iit iinv (tl_index s) \<and> data_ok dit dinv (snd ` set ies) s"

definition tl_on :: "nat \<Rightarrow> nat \<Rightarrow> ('i, 'd, 'w) TwoLevelIterator \<Rightarrow> bool" where
  "tl_on j i s \<longleftrightarrow> tl_base s \<and> iw_pos ipos (tl_index s) = j \<and> j < length ies \<and> iw_iter (tl_data s) \<noteq> None \<and>
     tl_handle s = snd (ies ! j) \<and> iw_pos (dpos (tl_handle s)) (tl_data s) = i"

definition tl_off :: "('i, 'd, 'w) TwoLevelIterator \<Rightarrow> bool" where
  "tl_off s \<longleftrightarrow> tl_base s \<and> iw_iter (tl_data s) = None"

definition tl_inv :: "('i, 'd, 'w) TwoLevelIterator \<Rightarrow> bool" where
  "tl_inv s \<longleftrightarrow> tl_off s \<or> (\<exists>j i. tl_on j i s \<and> i < length (blocks ! j))"

definition tl_pos :: "('i, 'd, 'w) TwoLevelIterator \<Rightarrow> nat" where
  "tl_pos s = (if iw_iter (tl_data s) = None then length all_entries
     else off (iw_pos ipos (tl_index s)) + iw_pos (dpos (tl_handle s)) (tl_data s))"

lemma blocks_nth: "j < length ies \<Longrightarrow> blocks ! j = block (snd (ies ! j))" "length blocks = length ies"
  by (simp_all add: blocks_def)

lemma off_Suc: "j < length ies \<Longrightarrow> off (Suc j) = off j + length (blocks ! j)"
  by (simp add: off_def take_Suc_conv_app_nth blocks_nth(2))

lemma off_length: "off (length ies) = length all_entries" "off 0 = 0"
  by (simp_all add: off_def all_entries_def blocks_nth(2))

lemma all_entries_split: "j < length ies \<Longrightarrow> all_entries = concat (take j blocks) @ blocks ! j @ concat (drop (Suc j) blocks)"
  unfolding all_entries_def by (subst id_take_nth_drop [of j blocks]) (simp_all add: blocks_nth(2))

lemma all_entries_nth: "j < length ies \<Longrightarrow> i < length (blocks ! j) \<Longrightarrow> off j + i < length all_entries \<and> all_entries ! (off j + i) = blocks ! j ! i"
  using all_entries_split [of j] by (simp add: off_def nth_append)

lemma off_le: "j \<le> length ies \<Longrightarrow> off j \<le> length all_entries"
  unfolding off_def all_entries_def by (metis append_take_drop_id concat_append le_add1 length_append)

lemma index_handle: "j < length ies \<Longrightarrow> snd (ies ! j) \<in> snd ` set ies"
  by simp

lemma tl_onD:
  assumes "tl_on j i s"
  shows "i \<le> length (blocks ! j)" and "iw_valid (tl_data s) \<longleftrightarrow> i < length (blocks ! j)"
    and "i < length (blocks ! j) \<Longrightarrow> iw_key (tl_data s) = fst (blocks ! j ! i)"
    and "i < length (blocks ! j) \<Longrightarrow> iw_value dit (tl_data s) = snd (blocks ! j ! i)"
    and "ok (iw_status dit (tl_data s))" and "iw_iter (tl_data s) \<noteq> None" and "j < length ies" and "tl_pos s = off j + i"
proof -
  have h: "tl_handle s = snd (ies ! j)" and j: "j < length ies" and d: "iw_iter (tl_data s) \<noteq> None" and b: "tl_base s"
    and i: "iw_pos (dpos (tl_handle s)) (tl_data s) = i" and p: "iw_pos ipos (tl_index s) = j"
    using assms unfolding tl_on_def by blast+
  then have ok: "iw_ok dit (dinv (snd (ies ! j))) (tl_data s)"
    by (auto simp: tl_base_def data_ok_def)
  note it = data [OF index_handle [OF j]]
  note facts = seq_iterator.iw_pos_le [OF it ok] seq_iterator.iw_valid_iff [OF it ok] seq_iterator.iw_key_eq [OF it ok]
    seq_iterator.iw_value_eq [OF it ok] seq_iterator.iw_status_ok [OF it ok]
  from facts i h show "i \<le> length (blocks ! j)" and "iw_valid (tl_data s) \<longleftrightarrow> i < length (blocks ! j)"
    and "i < length (blocks ! j) \<Longrightarrow> iw_key (tl_data s) = fst (blocks ! j ! i)"
    and "i < length (blocks ! j) \<Longrightarrow> iw_value dit (tl_data s) = snd (blocks ! j ! i)"
    and "ok (iw_status dit (tl_data s))"
    by (simp_all add: blocks_nth(1) [OF j])
  from d j p i show "iw_iter (tl_data s) \<noteq> None" and "j < length ies" and "tl_pos s = off j + i"
    by (auto simp: tl_pos_def)
qed

lemma tl_base_data_status:
  assumes "tl_base s" and "iw_iter (tl_data s) \<noteq> None"
  shows "ok (iw_status dit (tl_data s))"
  using assms data seq_iterator.iw_status_ok unfolding tl_base_def data_ok_def by (metis (no_types, lifting))

lemma SetDataIterator_None:
  assumes "tl_base s"
  shows "tl_off (SetDataIterator dit None s) \<and> tl_index (SetDataIterator dit None s) = tl_index s"
  using assms tl_base_data_status [OF assms]
  by (auto simp: tl_off_def tl_base_def SetDataIterator_def SaveError_def data_ok_def iw_Set_def Let_def)

lemma SetDataIterator_Some:
  assumes "tl_base s" and "tl_handle s' = h" "h \<in> snd ` set ies" and "dinv h d" and "\<forall>v. winv v \<longrightarrow> winv (c v)" and "winv (tl_world s')"
    and "s' = s\<lparr>tl_world := tl_world s', tl_handle := h\<rparr>"
  shows "tl_base (SetDataIterator dit (Some (d, c)) s') \<and> tl_index (SetDataIterator dit (Some (d, c)) s') = tl_index s \<and>
    tl_handle (SetDataIterator dit (Some (d, c)) s') = h \<and> iw_iter (tl_data (SetDataIterator dit (Some (d, c)) s')) \<noteq> None"
proof -
  have eq: "tl_data s' = tl_data s" "tl_index s' = tl_index s" "tl_status s' = tl_status s" "tl_cleanup s' = tl_cleanup s"
    by (subst assms(7), simp)+
  then have st: "SetDataIterator dit (Some (d, c)) s' =
      s'\<lparr>tl_world := tl_cleanup s (tl_world s'), tl_data := iw_Set dit (Some d) (tl_data s), tl_cleanup := c\<rparr>"
    using tl_base_data_status [OF assms(1)] by (simp add: SetDataIterator_def SaveError_def Let_def)
  show ?thesis
    using assms(1-6) iw_Set_ok(1) [of "dinv h" d dit "tl_data s"] eq unfolding st by (simp add: tl_base_def data_ok_def iw_Set_ok(2))
qed

lemma tl_move_index:
  assumes "tl_base s" and "\<And>i. iinv i \<Longrightarrow> ipos i = iw_pos ipos (tl_index s) \<Longrightarrow> iinv (f i) \<and> ipos (f i) = j"
  shows "tl_base (s\<lparr>tl_index := iw_move iit f (tl_index s)\<rparr>) \<and> iw_pos ipos (iw_move iit f (tl_index s)) = j"
  using iw_move_ok [where pos = ipos and x = "tl_index s" and p = j and f = f and it = iit and I = iinv] assms
  by (auto simp: tl_base_def data_ok_def)

lemma InitDataBlock_spec:
  assumes "tl_base s"
  shows "if iw_pos ipos (tl_index s) < length ies then \<exists>i. tl_on (iw_pos ipos (tl_index s)) i (InitDataBlock iit dit bf s)
    else tl_off (InitDataBlock iit dit bf s) \<and> \<not> iw_valid (tl_index (InitDataBlock iit dit bf s))"
proof -
  have ix: "iw_ok iit iinv (tl_index s)"
    using assms by (simp add: tl_base_def)
  note v = seq_iterator.iw_valid_iff [OF index ix] seq_iterator.iw_value_eq [OF index ix]
  define j where "j = iw_pos ipos (tl_index s)"
  show ?thesis
  proof (cases "j < length ies")
    case False
    then show ?thesis
      using v SetDataIterator_None [OF assms] by (simp add: InitDataBlock_def j_def)
  next
    case True
    have h: "snd (ies ! j) \<in> snd ` set ies"
      using True by simp
    show ?thesis
    proof (cases "iw_iter (tl_data s) \<noteq> None \<and> tl_handle s = snd (ies ! j)")
      case same: True
      then have "InitDataBlock iit dit bf s = s"
        using v True by (simp add: InitDataBlock_def j_def Let_def)
      then show ?thesis
        using same True assms by (auto simp: tl_on_def j_def)
    next
      case False
      obtain d c w' where b: "bf (snd (ies ! j)) (tl_world s) = ((d, c), w')"
        by (metis surj_pair)
      note ob = open_block [OF h _ b]
      have w: "winv (tl_world s)"
        using assms by (simp add: tl_base_def)
      have "InitDataBlock iit dit bf s = SetDataIterator dit (Some (d, c)) (s\<lparr>tl_world := w', tl_handle := snd (ies ! j)\<rparr>)"
        using v True False b by (auto simp: InitDataBlock_def j_def Let_def Slice_compare_eq_0)
      then show ?thesis
        using SetDataIterator_Some [OF assms, of "s\<lparr>tl_world := w', tl_handle := snd (ies ! j)\<rparr>" "snd (ies ! j)" d c] ob [OF w] h True
        by (auto simp: tl_on_def j_def)
    qed
  qed
qed

lemma tl_move_data_on:
  assumes "tl_on j i s" and "\<And>d. dinv (snd (ies ! j)) d \<Longrightarrow> dpos (snd (ies ! j)) d = i \<Longrightarrow>
      dinv (snd (ies ! j)) (f d) \<and> dpos (snd (ies ! j)) (f d) = i'"
  shows "tl_on j i' (tl_move_data dit f s)"
  using iw_move_ok [where pos = "dpos (snd (ies ! j))" and x = "tl_data s" and p = i' and f = f and it = dit and I = "dinv (snd (ies ! j))"] assms
  by (auto simp: tl_on_def tl_base_def data_ok_def tl_move_data_def iw_move_iter)

lemma tl_move_data_off: "tl_off s \<Longrightarrow> tl_move_data dit f s = s"
  by (simp add: tl_off_def tl_move_data_def)

text \<open>The skip loops end, at the entry that the position before them denotes.\<close>

lemma skip_loop_stop:
  "tl_on j i s \<Longrightarrow> i < length (blocks ! j) \<Longrightarrow> skip_loop iit dit bf f g s = Some s"
  using tl_onD(2,6) [of j i s] by (subst skip_loop_unfold) auto

lemma skip_loop_off:
  "tl_off s \<Longrightarrow> \<not> iw_valid (tl_index s) \<Longrightarrow> \<exists>s'. skip_loop iit dit bf f g s = Some s' \<and> tl_off s'"
  using SetDataIterator_None [of s] by (subst skip_loop_unfold) (auto simp: tl_off_def)

lemma skip_loop_round:
  "tl_on j i s \<Longrightarrow> i = length (blocks ! j) \<Longrightarrow> skip_loop iit dit bf f g s = skip_loop iit dit bf f g (skip_round iit dit bf f g s)"
  using tl_onD(2) [of j i s] seq_iterator.iw_valid_iff [OF index, of "tl_index s"]
  by (subst skip_loop_unfold) (auto simp: tl_on_def tl_base_def)

lemma tl_offD: "tl_off s \<Longrightarrow> tl_inv s \<and> tl_pos s = length all_entries"
  by (simp add: tl_inv_def tl_pos_def tl_off_def)

lemma tl_onI: "tl_on j i s \<Longrightarrow> i < length (blocks ! j) \<Longrightarrow> tl_inv s \<and> tl_pos s = off j + i"
  using tl_onD(8) by (auto simp: tl_inv_def)

lemma skip_round_spec:
  assumes "tl_on j i s" and "\<And>x. iinv x \<Longrightarrow> ipos x = j \<Longrightarrow> iinv (f x) \<and> ipos (f x) = j'"
    and "\<And>x d. j' < length ies \<Longrightarrow> dinv (snd (ies ! j')) d \<Longrightarrow> dinv (snd (ies ! j')) (g d) \<and> dpos (snd (ies ! j')) (g d) = i'"
  shows "if j' < length ies then tl_on j' i' (skip_round iit dit bf f g s)
    else tl_off (skip_round iit dit bf f g s) \<and> \<not> iw_valid (tl_index (skip_round iit dit bf f g s))"
proof -
  let ?s = "s\<lparr>tl_index := iw_move iit f (tl_index s)\<rparr>"
  have b: "tl_base s" "iw_pos ipos (tl_index s) = j"
    using assms(1) by (simp_all add: tl_on_def)
  have "tl_base ?s \<and> iw_pos ipos (iw_move iit f (tl_index s)) = j'"
    using tl_move_index [OF b(1), of f j'] assms(2) b(2) by simp
  then show ?thesis
    using InitDataBlock_spec [of ?s] assms(3) tl_move_data_off tl_move_data_on [of j' _ "InitDataBlock iit dit bf ?s" g i']
    by (auto simp: skip_round_def split: if_splits)
qed

lemma skip_forward:
  "tl_on j i s \<Longrightarrow> \<exists>s'. SkipEmptyDataBlocksForward iit dit bf s = Some s' \<and> tl_inv s' \<and> tl_pos s' = off j + i"
proof (induction "length ies - j" arbitrary: j i s rule: less_induct)
  case less
  note on = less.prems
  show ?case
  proof (cases "i < length (blocks ! j)")
    case True
    then show ?thesis
      using skip_loop_stop [OF on] tl_onI [OF on] by (simp add: SkipEmptyDataBlocksForward_def)
  next
    case False
    then have i: "i = length (blocks ! j)" and j: "j < length ies"
      using tl_onD(1,7) [OF on] by simp_all
    let ?r = "skip_round iit dit bf (i_Next iit) (i_SeekToFirst dit) s"
    have r: "if Suc j < length ies then tl_on (Suc j) 0 ?r else tl_off ?r \<and> \<not> iw_valid (tl_index ?r)"
      using seq_iterator.step [OF index] seq_iterator.first [OF data] j by (intro skip_round_spec [OF on]) auto
    show ?thesis
    proof (cases "Suc j < length ies")
      case True
      then show ?thesis
        using less.hyps [of "Suc j" 0 ?r] r j off_Suc [OF j] skip_loop_round [OF on i] i
        by (simp add: SkipEmptyDataBlocksForward_def)
    next
      case False
      then have "Suc j = length ies"
        using j by simp
      then show ?thesis
        using skip_loop_off [of ?r] r skip_loop_round [OF on i] tl_offD off_Suc [OF j] off_length(1) i
        by (auto simp: SkipEmptyDataBlocksForward_def) metis
    qed
  qed
qed

lemma skip_backward:
  "tl_on j i s \<Longrightarrow> \<exists>s'. SkipEmptyDataBlocksBackward iit dit bf s = Some s' \<and> tl_inv s' \<and>
     tl_pos s' = (if i < length (blocks ! j) then off j + i else if off j = 0 then length all_entries else off j - 1)"
proof (induction j arbitrary: i s rule: less_induct)
  case (less j)
  note on = less.prems
  show ?case
  proof (cases "i < length (blocks ! j)")
    case True
    then show ?thesis
      using skip_loop_stop [OF on] tl_onI [OF on] by (simp add: SkipEmptyDataBlocksBackward_def)
  next
    case False
    then have i: "i = length (blocks ! j)" and j: "j < length ies"
      using tl_onD(1,7) [OF on] by simp_all
    let ?r = "skip_round iit dit bf (i_Prev iit) (i_SeekToLast dit) s"
    let ?j = "if j = 0 then length ies else j - 1"
    have r: "if ?j < length ies then tl_on ?j (length (blocks ! ?j) - 1) ?r else tl_off ?r \<and> \<not> iw_valid (tl_index ?r)"
      using seq_iterator.prev [OF index] seq_iterator.last [OF data] j
      by (intro skip_round_spec [OF on]) (auto simp: blocks_nth(1))
    show ?thesis
    proof (cases j)
      case 0
      then show ?thesis
        using skip_loop_off [of ?r] r skip_loop_round [OF on i] tl_offD False
        by (auto simp: SkipEmptyDataBlocksBackward_def off_length) metis
    next
      case (Suc k)
      then have "tl_on k (length (blocks ! k) - 1) ?r"
        using r j by simp
      from less.IH [OF _ this] Suc obtain s' where
        "SkipEmptyDataBlocksBackward iit dit bf ?r = Some s'" "tl_inv s'"
        "tl_pos s' = (if length (blocks ! k) - 1 < length (blocks ! k) then off k + (length (blocks ! k) - 1)
          else if off k = 0 then length all_entries else off k - 1)"
        by auto
      then show ?thesis
        using Suc j off_Suc [of k] skip_loop_round [OF on i] False
        by (cases "blocks ! k") (simp_all add: SkipEmptyDataBlocksBackward_def)
    qed
  qed
qed

text \<open>Every movement returns, and moves where the contract says.\<close>

lemma seek_parts:
  assumes "tl_inv s" and "\<And>x. iinv x \<Longrightarrow> iinv (f x) \<and> ipos (f x) = j"
    and "\<And>d. j < length ies \<Longrightarrow> dinv (snd (ies ! j)) d \<Longrightarrow> dinv (snd (ies ! j)) (g d) \<and> dpos (snd (ies ! j)) (g d) = i"
  defines "r \<equiv> tl_move_data dit g (InitDataBlock iit dit bf (s\<lparr>tl_index := iw_move iit f (tl_index s)\<rparr>))"
  shows "if j < length ies then tl_on j i r else tl_off r \<and> \<not> iw_valid (tl_index r)"
proof -
  let ?s = "s\<lparr>tl_index := iw_move iit f (tl_index s)\<rparr>"
  have "tl_base s"
    using assms(1) by (auto simp: tl_inv_def tl_off_def tl_on_def)
  from tl_move_index [OF this, of f j] assms(2) have "tl_base ?s" "iw_pos ipos (iw_move iit f (tl_index s)) = j"
    by simp_all
  then show ?thesis
    using InitDataBlock_spec [of ?s] assms(3) tl_move_data_off tl_move_data_on [of j _ "InitDataBlock iit dit bf ?s" g i]
    by (auto simp: r_def split: if_splits)
qed

lemma tl_SeekToFirst_spec:
  assumes "tl_inv s"
  shows "\<exists>s'. tl_SeekToFirst iit dit bf s = Some s' \<and> tl_inv s' \<and> tl_pos s' = 0"
proof -
  let ?r = "tl_move_data dit (i_SeekToFirst dit) (InitDataBlock iit dit bf (s\<lparr>tl_index := iw_move iit (i_SeekToFirst iit) (tl_index s)\<rparr>))"
  have r: "if 0 < length ies then tl_on 0 0 ?r else tl_off ?r \<and> \<not> iw_valid (tl_index ?r)"
    using seq_iterator.first [OF index] seq_iterator.first [OF data] by (intro seek_parts [OF assms]) auto
  show ?thesis
  proof (cases "ies = []")
    case True
    then show ?thesis
      using r skip_loop_off [of ?r] tl_offD off_length
      by (auto simp: tl_SeekToFirst_def SkipEmptyDataBlocksForward_def off_length) metis
  next
    case False
    then show ?thesis
      using r skip_forward [of 0 0 ?r] off_length(2) by (simp add: tl_SeekToFirst_def)
  qed
qed

lemma tl_SeekToLast_spec:
  assumes "tl_inv s"
  shows "\<exists>s'. tl_SeekToLast iit dit bf s = Some s' \<and> tl_inv s' \<and> tl_pos s' = length all_entries - 1"
proof -
  let ?r = "tl_move_data dit (i_SeekToLast dit) (InitDataBlock iit dit bf (s\<lparr>tl_index := iw_move iit (i_SeekToLast iit) (tl_index s)\<rparr>))"
  let ?j = "length ies - 1"
  have r: "if ?j < length ies then tl_on ?j (length (blocks ! ?j) - 1) ?r else tl_off ?r \<and> \<not> iw_valid (tl_index ?r)"
    using seq_iterator.last [OF index] seq_iterator.last [OF data] by (intro seek_parts [OF assms]) (auto simp: blocks_nth(1))
  show ?thesis
  proof (cases "ies = []")
    case True
    then show ?thesis
      using r skip_loop_off [of ?r] tl_offD off_length
      by (auto simp: tl_SeekToLast_def SkipEmptyDataBlocksBackward_def all_entries_def blocks_def) metis
  next
    case False
    then have j: "?j < length ies"
      by simp
    moreover have "Suc ?j = length ies"
      using False by (cases ies) simp_all
    ultimately have total: "length all_entries = off ?j + length (blocks ! ?j)"
      using off_Suc [of ?j] off_length(1) by metis
    have on: "tl_on ?j (length (blocks ! ?j) - 1) ?r"
      using r j by simp
    show ?thesis
      using skip_backward [OF on] total by (cases "blocks ! ?j") (auto simp: tl_SeekToLast_def)
  qed
qed

lemma tl_Next_spec:
  assumes "tl_inv s" and "tl_pos s < length all_entries"
  shows "\<exists>s'. tl_Next iit dit bf s = Some s' \<and> tl_inv s' \<and> tl_pos s' = Suc (tl_pos s)"
proof -
  obtain j i where on: "tl_on j i s" "i < length (blocks ! j)"
    using assms by (auto simp: tl_inv_def tl_off_def tl_pos_def)
  note j = tl_onD(7) [OF on(1)]
  have "tl_on j (Suc i) (tl_move_data dit (i_Next dit) s)"
    using seq_iterator.step [OF data [OF index_handle [OF j]]] on(2) by (intro tl_move_data_on [OF on(1)]) (simp add: blocks_nth(1) [OF j])
  from skip_forward [OF this] show ?thesis
    using tl_onD(8) [OF on(1)] by (simp add: tl_Next_def)
qed

lemma tl_Prev_spec:
  assumes "tl_inv s" and "tl_pos s < length all_entries"
  shows "\<exists>s'. tl_Prev iit dit bf s = Some s' \<and> tl_inv s' \<and> tl_pos s' = (if tl_pos s = 0 then length all_entries else tl_pos s - 1)"
proof -
  obtain j i where on: "tl_on j i s" "i < length (blocks ! j)"
    using assms by (auto simp: tl_inv_def tl_off_def tl_pos_def)
  note j = tl_onD(7) [OF on(1)]
  have "tl_on j (if i = 0 then length (blocks ! j) else i - 1) (tl_move_data dit (i_Prev dit) s)"
    using seq_iterator.prev [OF data [OF index_handle [OF j]]] on(2) by (intro tl_move_data_on [OF on(1)]) (simp add: blocks_nth(1) [OF j])
  from skip_backward [OF this] show ?thesis
    using tl_onD(8) [OF on(1)] on(2) by (auto simp: tl_Prev_def split: if_splits)
qed

lemma lower_bound_concat:
  assumes "j = lower_bound cmp t ies"
  shows "lower_bound cmp t all_entries = off j + (if j < length ies then lower_bound cmp t (blocks ! j) else 0)"
proof -
  have j: "j \<le> length ies"
    using assms lower_bound_le by simp
  have below: "cmp (fst (ies ! k)) t < 0" if "k < j" for k
    using that assms nth_mem [of k "takeWhile (\<lambda>(k, v). cmp k t < 0) ies"] takeWhile_nth [of k _ ies]
    by (auto simp: lower_bound_def case_prod_unfold dest!: set_takeWhileD)
  have all: "\<forall>e \<in> set (concat (take j blocks)). cmp (fst e) t < 0"
  proof
    fix e
    assume "e \<in> set (concat (take j blocks))"
    then obtain b where "b \<in> set (take j blocks)" "e \<in> set b"
      by auto
    moreover from this obtain k where "k < j" "b = blocks ! k"
      by (auto simp: in_set_conv_nth)
    ultimately have "k < j" "e \<in> set (blocks ! k)"
      by simp_all
    then show "cmp (fst e) t < 0"
      using upper [of k e] below [of k] j order.cmp_le_less_trans by (auto simp: blocks_nth(1))
  qed
  show ?thesis
  proof (cases "j < length ies")
    case False
    then have "all_entries = concat (take j blocks) @ []"
      using j by (simp add: all_entries_def blocks_nth(2))
    then show ?thesis
      using False lower_bound_append_all [where cmp = cmp, OF all, of "[]"] by (simp add: off_def lower_bound_def)
  next
    case True
    have "\<not> cmp (fst (ies ! j)) t < 0"
      using True assms nth_length_takeWhile [of "\<lambda>(k, v). cmp k t < 0" ies] by (simp add: lower_bound_def case_prod_unfold)
    then have "\<not> cmp (fst e) t < 0" if e: "e \<in> set (concat (drop (Suc j) blocks))" for e
    proof -
      obtain b where b: "b \<in> set (drop (Suc j) blocks)" "e \<in> set b"
        using e by auto
      then obtain i where "i < length blocks - Suc j" "b = blocks ! (Suc j + i)"
        by (auto simp: in_set_conv_nth)
      then obtain k where "j < k" "k < length ies" "e \<in> set (blocks ! k)"
        using b(2) by (intro that [of "Suc j + i"]) (auto simp: blocks_nth(2))
      then show ?thesis
        using lower [of j k e] order.cmp_less_trans \<open>\<not> cmp (fst (ies ! j)) t < 0\<close> by (auto simp: blocks_nth(1))
    qed
    then show ?thesis
      using True unfolding all_entries_split [OF True] off_def lower_bound_append_all [where cmp = cmp, OF all]
      by (subst lower_bound_append_none) (blast, simp)
  qed
qed

lemma tl_Seek_spec:
  assumes "tl_inv s"
  shows "\<exists>s'. tl_Seek iit dit bf t s = Some s' \<and> tl_inv s' \<and> tl_pos s' = lower_bound cmp t all_entries"
proof -
  let ?r = "tl_move_data dit (i_Seek dit t) (InitDataBlock iit dit bf (s\<lparr>tl_index := iw_move iit (i_Seek iit t) (tl_index s)\<rparr>))"
  let ?j = "lower_bound cmp t ies"
  have r: "if ?j < length ies then tl_on ?j (lower_bound cmp t (blocks ! ?j)) ?r else tl_off ?r \<and> \<not> iw_valid (tl_index ?r)"
    using seq_iterator.seek [OF index] seq_iterator.seek [OF data] by (intro seek_parts [OF assms]) (auto simp: blocks_nth(1))
  note lb = lower_bound_concat [OF refl, of t]
  show ?thesis
  proof (cases "?j < length ies")
    case True
    then show ?thesis
      using r lb skip_forward [of ?j _ ?r] by (simp add: tl_Seek_def)
  next
    case False
    then have "?j = length ies"
      using lower_bound_le [of cmp t ies] by simp
    then show ?thesis
      using r lb skip_loop_off [of ?r] tl_offD off_length by (auto simp: tl_Seek_def SkipEmptyDataBlocksForward_def) metis
  qed
qed

lemma or_stuckI: "\<exists>s'. f s = Some s' \<and> tl_inv s' \<and> tl_pos s' = p \<Longrightarrow> tl_inv (or_stuck f s) \<and> tl_pos (or_stuck f s) = p"
  by (auto simp: or_stuck_def)

lemma tl_inv_cases:
  assumes "tl_inv s"
  obtains "tl_off s" "tl_pos s = length all_entries" "\<not> iw_valid (tl_data s)"
  | j i where "tl_on j i s" "i < length (blocks ! j)" "tl_pos s = off j + i" "j < length ies" "tl_pos s < length all_entries" "all_entries ! tl_pos s = blocks ! j ! i"
proof (cases "tl_off s")
  case True
  then show ?thesis
    by (intro that(1)) (auto simp: tl_offD tl_off_def tl_base_def data_ok_def)
next
  case False
  then obtain j i where "tl_on j i s" "i < length (blocks ! j)"
    using assms by (auto simp: tl_inv_def)
  with tl_onD(7,8) [OF this(1)] all_entries_nth show ?thesis
    by (intro that(2)) simp_all
qed

lemma two_level_seq_iterator: "seq_iterator (TwoLevel iit dit bf) cmp all_entries tl_inv tl_pos"
proof (unfold_locales, goal_cases le valid key val first last seek forth backw status)
  case (status s)
  then have "iw_ok iit iinv (tl_index s)" "ok (tl_status s)" "tl_base s"
    by (auto simp: tl_inv_def tl_off_def tl_on_def tl_base_def)
  then show ?case
    using seq_iterator.iw_status_ok [OF index] tl_base_data_status [of s]
    by (cases "iw_iter (tl_data s)") (simp_all add: TwoLevel_def tl_get_status_def)
next
  case (first s)
  show ?case
    unfolding TwoLevel_def Iterator.simps by (rule or_stuckI, rule tl_SeekToFirst_spec [OF first])
next
  case (last s)
  show ?case
    unfolding TwoLevel_def Iterator.simps by (rule or_stuckI, rule tl_SeekToLast_spec [OF last])
next
  case (seek s t)
  show ?case
    unfolding TwoLevel_def Iterator.simps by (rule or_stuckI, rule tl_Seek_spec [OF seek])
next
  case (forth s)
  show ?case
    unfolding TwoLevel_def Iterator.simps by (rule or_stuckI, rule tl_Next_spec [OF forth])
next
  case (backw s)
  show ?case
    unfolding TwoLevel_def Iterator.simps by (rule or_stuckI, rule tl_Prev_spec [OF backw])
qed (auto simp: TwoLevel_def tl_onD elim!: tl_inv_cases)

lemma new_TwoLevelIterator_inv:
  "iinv i \<Longrightarrow> winv w \<Longrightarrow> tl_inv (new_TwoLevelIterator iit dit i w)"
  using iw_Set_ok(1) [of iinv i iit]
  by (simp add: tl_inv_def tl_off_def tl_base_def new_TwoLevelIterator_def new_IteratorWrapper_def data_ok_def iw_Set_ok(2)) (simp add: iw_Set_def)

end

end
