(* ===== verification/Handle_Table.thy ===== *)
theory Handle_Table
  imports Bloom
begin

text \<open>
  The hash table of \<^verbatim>\<open>util/cache.cpp\<close>: an array of chains of handles. Handles are addresses; \<open>kh\<close> reads the key
  and the hash of the handle at an address. The table holds a set of handles, at most one for a key.
\<close>

record HandleTable =
  ht_elems :: nat
  ht_list :: "nat list list"

definition ht_slot :: "u32 \<Rightarrow> nat \<Rightarrow> nat" where
  "ht_slot hash n = unat (hash AND (word_of_nat n - 1))"

definition FindPointer :: "(nat \<Rightarrow> slice \<times> u32) \<Rightarrow> slice \<Rightarrow> u32 \<Rightarrow> HandleTable \<Rightarrow> nat \<times> nat" where
  "FindPointer kh key hash t =
     (let b = ht_slot hash (length (ht_list t))
      in (b, length (takeWhile (\<lambda>a. snd (kh a) \<noteq> hash \<or> key \<noteq> fst (kh a)) (ht_list t ! b))))"

text \<open>The slot that \<open>FindPointer\<close> returns holds a handle or is the end of the chain.\<close>

definition ht_at :: "HandleTable \<Rightarrow> nat \<times> nat \<Rightarrow> nat option" where
  "ht_at t = (\<lambda>(b, i). if i < length (ht_list t ! b) then Some (ht_list t ! b ! i) else None)"

definition ht_Lookup :: "(nat \<Rightarrow> slice \<times> u32) \<Rightarrow> slice \<Rightarrow> u32 \<Rightarrow> HandleTable \<Rightarrow> nat option" where
  "ht_Lookup kh key hash t = ht_at t (FindPointer kh key hash t)"

function grow_length :: "nat \<Rightarrow> nat \<Rightarrow> nat" where
  "grow_length elems n = (if n < elems \<and> 0 < n then grow_length elems (n * 2) else n)"
  by pat_completeness auto
termination
  by (relation "measure (\<lambda>(elems, n). elems - n)") auto

declare grow_length.simps [simp del]

definition ht_rehash :: "(nat \<Rightarrow> slice \<times> u32) \<Rightarrow> nat \<Rightarrow> nat \<Rightarrow> nat list list \<Rightarrow> nat list list" where
  "ht_rehash kh n a l = (let b = ht_slot (snd (kh a)) n in l[b := a # l ! b])"

definition ht_Resize :: "(nat \<Rightarrow> slice \<times> u32) \<Rightarrow> HandleTable \<Rightarrow> HandleTable" where
  "ht_Resize kh t =
     (let n = grow_length (ht_elems t) 4
      in t\<lparr>ht_list := fold (ht_rehash kh n) (concat (ht_list t)) (replicate n [])\<rparr>)"

definition new_HandleTable :: HandleTable where
  "new_HandleTable = ht_Resize (\<lambda>_. ([], 0)) \<lparr>ht_elems = 0, ht_list = []\<rparr>"

definition ht_Insert :: "(nat \<Rightarrow> slice \<times> u32) \<Rightarrow> nat \<Rightarrow> HandleTable \<Rightarrow> nat option \<times> HandleTable" where
  "ht_Insert kh h t =
     (let (b, i) = FindPointer kh (fst (kh h)) (snd (kh h)) t; old = ht_at t (b, i);
          t = t\<lparr>ht_list := (ht_list t)[b := take i (ht_list t ! b) @ [h] @ drop (Suc i) (ht_list t ! b)]\<rparr>
      in (old,
          if old = None then
            let t = t\<lparr>ht_elems := ht_elems t + 1\<rparr>
            in if ht_elems t > length (ht_list t) then ht_Resize kh t else t
          else t))"

definition ht_Remove :: "(nat \<Rightarrow> slice \<times> u32) \<Rightarrow> slice \<Rightarrow> u32 \<Rightarrow> HandleTable \<Rightarrow> nat option \<times> HandleTable" where
  "ht_Remove kh key hash t =
     (let (b, i) = FindPointer kh key hash t; result = ht_at t (b, i)
      in (result,
          if result \<noteq> None then
            t\<lparr>ht_list := (ht_list t)[b := take i (ht_list t ! b) @ drop (Suc i) (ht_list t ! b)], ht_elems := ht_elems t - 1\<rparr>
          else t))"

section \<open>The set of handles\<close>

definition ht_set :: "HandleTable \<Rightarrow> nat set" where
  "ht_set t = set (concat (ht_list t))"

text \<open>Every handle is in the chain of its hash, no handle is there twice, and keys are unique.\<close>

definition chains_ok :: "(nat \<Rightarrow> slice \<times> u32) \<Rightarrow> nat list list \<Rightarrow> bool" where
  "chains_ok kh l \<longleftrightarrow> 0 < length l \<and> length l < 2 ^ 32 \<and>
     (\<forall>b < length l. distinct (l ! b) \<and> (\<forall>a \<in> set (l ! b). ht_slot (snd (kh a)) (length l) = b))"

definition ht_inv :: "(nat \<Rightarrow> slice \<times> u32) \<Rightarrow> HandleTable \<Rightarrow> bool" where
  "ht_inv kh t \<longleftrightarrow> chains_ok kh (ht_list t) \<and> inj_on kh (ht_set t) \<and> ht_elems t = card (ht_set t)"

lemma ht_slot_less: "0 < n \<Longrightarrow> n < 2 ^ 32 \<Longrightarrow> ht_slot hash n < n"
proof -
  assume n: "0 < n" "n < 2 ^ 32"
  have "hash AND (word_of_nat n - 1) \<le> word_of_nat n - 1"
    by (simp add: and.commute word_and_le1)
  moreover have "unat (word_of_nat n - 1 :: u32) = n - 1"
    using n by (simp add: unat_word_of_nat_small unat_sub word_le_nat_alt)
  ultimately show ?thesis
    using n by (simp add: ht_slot_def word_le_nat_alt)
qed

lemma ht_set_nth: "a \<in> ht_set t \<longleftrightarrow> (\<exists>b < length (ht_list t). a \<in> set (ht_list t ! b))"
  unfolding ht_set_def by simp (metis in_set_conv_nth)

lemma chains_okD: "chains_ok kh l \<Longrightarrow> b < length l \<Longrightarrow> a \<in> set (l ! b) \<Longrightarrow> ht_slot (snd (kh a)) (length l) = b"
  by (simp add: chains_ok_def)

lemma FindPointer_cases:
  assumes "ht_inv kh t" and "FindPointer kh key hash t = (b, i)"
  shows "b < length (ht_list t)" and "b = ht_slot hash (length (ht_list t))" and "i \<le> length (ht_list t ! b)"
    and "i < length (ht_list t ! b) \<Longrightarrow> kh (ht_list t ! b ! i) = (key, hash)"
    and "i = length (ht_list t ! b) \<Longrightarrow> a \<in> ht_set t \<Longrightarrow> kh a \<noteq> (key, hash)"
proof -
  let ?P = "\<lambda>a. snd (kh a) \<noteq> hash \<or> key \<noteq> fst (kh a)"
  show b: "b = ht_slot hash (length (ht_list t))" "b < length (ht_list t)"
    using assms ht_slot_less by (auto simp: FindPointer_def Let_def ht_inv_def chains_ok_def)
  have i: "i = length (takeWhile ?P (ht_list t ! b))"
    using assms(2) by (auto simp: FindPointer_def Let_def)
  show "i \<le> length (ht_list t ! b)"
    by (simp add: i length_takeWhile_le)
  show "kh (ht_list t ! b ! i) = (key, hash)" if "i < length (ht_list t ! b)"
    using nth_length_takeWhile [of ?P "ht_list t ! b"] that unfolding i by (simp add: prod_eq_iff)
  show "kh a \<noteq> (key, hash)" if full: "i = length (ht_list t ! b)" "a \<in> ht_set t"
  proof
    assume k: "kh a = (key, hash)"
    obtain b' where "b' < length (ht_list t)" "a \<in> set (ht_list t ! b')"
      using full(2) by (auto simp: ht_set_nth)
    then have "a \<in> set (ht_list t ! b)"
      using assms(1) chains_okD [of kh "ht_list t" b' a] k b(1) by (simp add: ht_inv_def)
    moreover have "takeWhile ?P (ht_list t ! b) = take i (ht_list t ! b)"
      unfolding i by (rule takeWhile_eq_take)
    ultimately show False
      using full(1) k by auto
  qed
qed

lemma ht_Lookup_iff:
  assumes "ht_inv kh t"
  shows "ht_Lookup kh key hash t = Some a \<longleftrightarrow> a \<in> ht_set t \<and> kh a = (key, hash)"
proof -
  obtain b i where f: "FindPointer kh key hash t = (b, i)"
    by (cases "FindPointer kh key hash t")
  note c = FindPointer_cases [OF assms f]
  have "ht_list t ! b ! i \<in> ht_set t" if "i < length (ht_list t ! b)"
    using c(1) that by (auto simp: ht_set_nth)
  moreover have "x = y" if "x \<in> ht_set t" "y \<in> ht_set t" "kh x = kh y" for x y
    using assms that by (auto simp: ht_inv_def inj_on_def)
  ultimately show ?thesis
    using c(3-5) by (cases "i = length (ht_list t ! b)") (auto simp: ht_Lookup_def f ht_at_def)
qed

lemma ht_set_update:
  assumes "b < length l"
  shows "set (concat (l[b := xs])) = set xs \<union> (\<Union>b' \<in> {..<length l} - {b}. set (l ! b'))"
proof -
  have "set (concat (l[b := xs])) = (\<Union>b' \<in> {..<length l}. set (l[b := xs] ! b'))"
    by (auto simp: set_conv_nth [of "l[b := xs]"])
  also have "\<dots> = set xs \<union> (\<Union>b' \<in> {..<length l} - {b}. set (l ! b'))"
    using assms by (auto simp: nth_list_update split: if_splits)
  finally show ?thesis .
qed

lemma chains_ok_update:
  assumes "chains_ok kh l" and "b < length l" and "distinct xs" and "\<And>a. a \<in> set xs \<Longrightarrow> ht_slot (snd (kh a)) (length l) = b"
  shows "chains_ok kh (l[b := xs])"
  using assms by (auto simp: chains_ok_def nth_list_update)

lemma chains_ok_disjoint:
  assumes "chains_ok kh l" and "b < length l" and "a \<in> set (l ! b)" and "b' < length l" "a \<in> set (l ! b')"
  shows "b' = b"
  using assms chains_okD by metis

lemma ht_set_fold_rehash:
  assumes "chains_ok kh l" and "distinct xs" and "set xs \<inter> set (concat l) = {}"
  shows "chains_ok kh (fold (ht_rehash kh (length l)) xs l) \<and>
    set (concat (fold (ht_rehash kh (length l)) xs l)) = set xs \<union> set (concat l)"
  using assms
proof (induction xs arbitrary: l)
  case (Cons x xs)
  define b where "b = ht_slot (snd (kh x)) (length l)"
  have b: "b < length l"
    using Cons.prems(1) ht_slot_less by (simp add: chains_ok_def b_def)
  have r: "ht_rehash kh (length l) x l = l[b := x # l ! b]"
    by (simp add: ht_rehash_def b_def Let_def)
  have c: "chains_ok kh (l[b := x # l ! b])"
  proof (rule chains_ok_update [OF Cons.prems(1) b])
    have "x \<notin> set (l ! b)"
      using Cons.prems(3) nth_mem [OF b] by auto
    then show "distinct (x # l ! b)"
      using Cons.prems(1) b by (simp add: chains_ok_def)
    show "ht_slot (snd (kh a)) (length l) = b" if "a \<in> set (x # l ! b)" for a
      using that chains_okD [OF Cons.prems(1) b] by (auto simp: b_def)
  qed
  have "set (concat (l[b := x # l ! b])) = insert x (set (l ! b) \<union> (\<Union>b' \<in> {..<length l} - {b}. set (l ! b')))"
    using ht_set_update [OF b] by simp
  also have "\<dots> = insert x (set (concat l))"
    using ht_set_update [OF b, of "l ! b"] by simp
  finally have e: "set (concat (l[b := x # l ! b])) = insert x (set (concat l))" .
  have "chains_ok kh (fold (ht_rehash kh (length (l[b := x # l ! b]))) xs (l[b := x # l ! b])) \<and>
      set (concat (fold (ht_rehash kh (length (l[b := x # l ! b]))) xs (l[b := x # l ! b]))) = set xs \<union> set (concat (l[b := x # l ! b]))"
    using Cons.prems(2,3) by (intro Cons.IH [OF c]) (unfold e, auto)
  then show ?case
    unfolding e by (simp add: r del: set_concat)
qed simp

lemma grow_length_bound: "0 < n \<Longrightarrow> n < 2 ^ 32 \<Longrightarrow> elems \<le> 2 ^ 31 \<Longrightarrow> 0 < grow_length elems n \<and> grow_length elems n < 2 ^ 32"
proof (induction elems n rule: grow_length.induct)
  case (1 elems n)
  then show ?case
    by (subst (1 2) grow_length.simps) auto
qed

lemma distinct_concat_chains:
  assumes "chains_ok kh l"
  shows "distinct (concat l)"
proof -
  have "distinct (concat (take n l))" if "n \<le> length l" for n
    using that
  proof (induction n)
    case (Suc n)
    then have n: "n < length l"
      by simp
    have "a \<notin> set (l ! n)" if mem: "a \<in> set (concat (take n l))" for a
    proof
      assume a: "a \<in> set (l ! n)"
      obtain xs where xs: "xs \<in> set (take n l)" "a \<in> set xs"
        using mem by auto
      then obtain m where "m < n" "xs = l ! m"
        by (auto simp: in_set_conv_nth)
      then show False
        using chains_ok_disjoint [OF assms n a, of m] xs(2) n by simp
    qed
    then have "set (concat (take n l)) \<inter> set (l ! n) = {}"
      by blast
    with Suc n show ?case
      using assms by (simp add: take_Suc_conv_app_nth chains_ok_def)
  qed simp
  from this [OF order_refl] show ?thesis
    by simp
qed

lemma ht_Resize_inv:
  assumes "chains_ok kh (ht_list t) \<or> ht_list t = []" and "inj_on kh (ht_set t)" and "ht_elems t = card (ht_set t)" and "ht_elems t \<le> 2 ^ 31"
  shows "ht_inv kh (ht_Resize kh t) \<and> ht_set (ht_Resize kh t) = ht_set t"
proof -
  define n where "n = grow_length (ht_elems t) 4"
  have n: "0 < n" "n < 2 ^ 32"
    using grow_length_bound [of 4 "ht_elems t"] assms(4) by (simp_all add: n_def)
  have e: "chains_ok kh (replicate n [])" "set (concat (replicate n [])) = {}"
    using n by (auto simp: chains_ok_def)
  have l: "ht_list (ht_Resize kh t) = fold (ht_rehash kh n) (concat (ht_list t)) (replicate n [])"
    "ht_elems (ht_Resize kh t) = ht_elems t"
    by (simp_all add: ht_Resize_def n_def Let_def)
  have "distinct (concat (ht_list t))"
    using assms(1) distinct_concat_chains by auto
  from ht_set_fold_rehash [OF e(1) this] e(2) have "chains_ok kh (ht_list (ht_Resize kh t))" "ht_set (ht_Resize kh t) = ht_set t"
    unfolding l ht_set_def by (simp_all del: set_concat)
  then show ?thesis
    using assms(2,3) by (simp add: ht_inv_def l(2))
qed

lemma new_HandleTable_inv: "ht_inv kh new_HandleTable \<and> ht_set new_HandleTable = {}"
proof -
  have "ht_Resize kh \<lparr>ht_elems = 0, ht_list = []\<rparr> = new_HandleTable"
    by (simp add: new_HandleTable_def ht_Resize_def)
  then show ?thesis
    using ht_Resize_inv [of kh "\<lparr>ht_elems = 0, ht_list = []\<rparr>"] by (simp add: ht_set_def)
qed

lemma set_without_nth: "distinct xs \<Longrightarrow> i < length xs \<Longrightarrow> set (take i xs @ drop (Suc i) xs) = set xs - {xs ! i}"
  using id_take_nth_drop [of i xs] distinct_append [of "take i xs" "xs ! i # drop (Suc i) xs"]
  by (metis Diff_insert_absorb Un_iff Un_insert_right disjoint_iff distinct.simps(2) list.set(2) list.set_intros(1) set_append)

lemma ht_set_bucket:
  assumes "chains_ok kh l" and "b < length l"
  shows "set (concat l) = set (l ! b) \<union> (\<Union>b' \<in> {..<length l} - {b}. set (l ! b'))"
    and "set (l ! b) \<inter> (\<Union>b' \<in> {..<length l} - {b}. set (l ! b')) = {}"
  using ht_set_update [OF assms(2), of "l ! b"] chains_ok_disjoint [OF assms] by auto

lemma ht_bucket_replace:
  assumes "chains_ok kh l" and "b < length l" and "i < length (l ! b)"
  shows "chains_ok kh (l[b := take i (l ! b) @ drop (Suc i) (l ! b)])"
    and "set (concat (l[b := take i (l ! b) @ drop (Suc i) (l ! b)])) = set (concat l) - {l ! b ! i}"
proof -
  have d: "distinct (l ! b)"
    using assms by (simp add: chains_ok_def)
  note e = set_without_nth [OF d assms(3)]
  show "chains_ok kh (l[b := take i (l ! b) @ drop (Suc i) (l ! b)])"
  proof (rule chains_ok_update [OF assms(1,2)])
    show "distinct (take i (l ! b) @ drop (Suc i) (l ! b))"
      using d set_take_disj_set_drop_if_distinct [OF d, of i "Suc i"] by simp
    show "ht_slot (snd (kh a)) (length l) = b" if "a \<in> set (take i (l ! b) @ drop (Suc i) (l ! b))" for a
      using that chains_okD [OF assms(1,2)] unfolding e by blast
  qed
  show "set (concat (l[b := take i (l ! b) @ drop (Suc i) (l ! b)])) = set (concat l) - {l ! b ! i}"
    unfolding ht_set_update [OF assms(2)] e ht_set_bucket(1) [OF assms(1,2)]
    using ht_set_bucket(2) [OF assms(1,2)] nth_mem [OF assms(3)] by blast
qed

lemma ht_Remove_inv:
  assumes "ht_inv kh t" and "ht_Remove kh key hash t = (result, t')"
  shows "result = ht_Lookup kh key hash t" and "ht_inv kh t'" and "ht_set t' = ht_set t - set_option result"
proof -
  obtain b i where f: "FindPointer kh key hash t = (b, i)"
    by (cases "FindPointer kh key hash t")
  note c = FindPointer_cases [OF assms(1) f]
  have ch: "chains_ok kh (ht_list t)"
    using assms(1) by (simp add: ht_inv_def)
  show r: "result = ht_Lookup kh key hash t"
    using assms(2) f by (auto simp: ht_Remove_def ht_Lookup_def Let_def)
  have "ht_inv kh t' \<and> ht_set t' = ht_set t - set_option result"
  proof (cases "i < length (ht_list t ! b)")
    case False
    then have "result = None" "t' = t"
      using assms(2) f by (auto simp: ht_Remove_def ht_at_def Let_def)
    with assms(1) show ?thesis
      by simp
  next
    case True
    note br = ht_bucket_replace [OF ch c(1) True]
    have t': "ht_list t' = (ht_list t)[b := take i (ht_list t ! b) @ drop (Suc i) (ht_list t ! b)]" "ht_elems t' = ht_elems t - 1"
      and res: "result = Some (ht_list t ! b ! i)"
      using assms(2) f True by (auto simp: ht_Remove_def ht_at_def Let_def)
    have mem: "ht_list t ! b ! i \<in> ht_set t"
      using c(1) True by (auto simp: ht_set_nth)
    have st: "ht_set t' = ht_set t - {ht_list t ! b ! i}"
      using br(2) unfolding ht_set_def t'(1) .
    moreover have "ht_elems t' = card (ht_set t')"
      using assms(1) mem unfolding st t'(2) ht_inv_def by (simp add: card_Diff_singleton)
    moreover have "inj_on kh (ht_set t')"
      unfolding st by (rule inj_on_subset [of kh "ht_set t"]) (use assms(1) in \<open>auto simp: ht_inv_def\<close>)
    ultimately show ?thesis
      using br(1) res by (simp add: ht_inv_def t'(1))
  qed
  then show "ht_inv kh t'" and "ht_set t' = ht_set t - set_option result"
    by simp_all
qed

lemma chains_ok_add:
  assumes "chains_ok kh l" and "h \<notin> set (concat l)" and "b = ht_slot (snd (kh h)) (length l)" and "i \<le> length (l ! b)"
  shows "chains_ok kh (l[b := take i (l ! b) @ [h] @ drop i (l ! b)]) \<and>
    set (concat (l[b := take i (l ! b) @ [h] @ drop i (l ! b)])) = insert h (set (concat l))"
proof -
  have b: "b < length l"
    using assms(1,3) ht_slot_less by (simp add: chains_ok_def)
  have s: "set (take i (l ! b) @ [h] @ drop i (l ! b)) = insert h (set (l ! b))"
    by (metis Un_insert_right append_take_drop_id list.simps(15) self_append_conv2 set_append append_Cons)
  have d: "distinct (l ! b)" "h \<notin> set (l ! b)"
    using assms(1,2) b nth_mem [OF b] by (auto simp: chains_ok_def)
  have "chains_ok kh (l[b := take i (l ! b) @ [h] @ drop i (l ! b)])"
  proof (rule chains_ok_update [OF assms(1) b])
    show "distinct (take i (l ! b) @ [h] @ drop i (l ! b))"
      using d set_take_disj_set_drop_if_distinct [OF d(1), of i i] by (auto dest: in_set_takeD in_set_dropD)
    show "ht_slot (snd (kh a)) (length l) = b" if "a \<in> set (take i (l ! b) @ [h] @ drop i (l ! b))" for a
      using that chains_okD [OF assms(1) b] assms(3) unfolding s by blast
  qed
  then show ?thesis
    unfolding ht_set_update [OF b] s ht_set_bucket(1) [OF assms(1) b] by blast
qed

lemma ht_put:
  assumes "ht_inv kh t" and "h \<notin> ht_set t" and "FindPointer kh (fst (kh h)) (snd (kh h)) t = (b, i)"
  defines "l \<equiv> (ht_list t)[b := take i (ht_list t ! b) @ [h] @ drop (Suc i) (ht_list t ! b)]"
  shows "chains_ok kh l" and "set (concat l) = insert h (ht_set t - set_option (ht_at t (b, i)))"
proof -
  note c = FindPointer_cases [OF assms(1,3)]
  have ch: "chains_ok kh (ht_list t)"
    using assms(1) by (simp add: ht_inv_def)
  have hs: "h \<notin> set (concat (ht_list t))"
    using assms(2) by (simp only: ht_set_def not_False_eq_True)
  have "chains_ok kh l \<and> set (concat l) = insert h (ht_set t - set_option (ht_at t (b, i)))"
  proof (cases "i < length (ht_list t ! b)")
    case True
    define l1 where "l1 = (ht_list t)[b := take i (ht_list t ! b) @ drop (Suc i) (ht_list t ! b)]"
    note br = ht_bucket_replace [OF ch c(1) True, folded l1_def]
    have l1: "l1 ! b = take i (ht_list t ! b) @ drop (Suc i) (ht_list t ! b)" "length l1 = length (ht_list t)"
      using c(1) by (simp_all add: l1_def)
    have "l = l1[b := take i (l1 ! b) @ [h] @ drop i (l1 ! b)]"
      using True c(1) by (simp add: l_def l1(1)) (simp add: l1_def)
    then show ?thesis
      using chains_ok_add [OF br(1), of h b i] br(2) hs c(2) True l1 by (simp add: ht_at_def ht_set_def del: set_concat)
  next
    case False
    then have "i = length (ht_list t ! b)"
      using c(3) by simp
    then show ?thesis
      using chains_ok_add [OF ch hs c(2) c(3)] by (simp add: l_def ht_at_def ht_set_def del: set_concat)
  qed
  then show "chains_ok kh l" and "set (concat l) = insert h (ht_set t - set_option (ht_at t (b, i)))"
    by blast+
qed

lemma ht_Insert_inv:
  assumes "ht_inv kh t" and "h \<notin> ht_set t" and "ht_elems t < 2 ^ 31" and "ht_Insert kh h t = (old, t')"
  shows "old = ht_Lookup kh (fst (kh h)) (snd (kh h)) t" and "ht_inv kh t'" and "ht_set t' = insert h (ht_set t - set_option old)"
proof -
  obtain b i where f: "FindPointer kh (fst (kh h)) (snd (kh h)) t = (b, i)"
    by (cases "FindPointer kh (fst (kh h)) (snd (kh h)) t")
  define t1 where "t1 = t\<lparr>ht_list := (ht_list t)[b := take i (ht_list t ! b) @ [h] @ drop (Suc i) (ht_list t ! b)]\<rparr>"
  show old: "old = ht_Lookup kh (fst (kh h)) (snd (kh h)) t"
    using assms(4) f by (auto simp: ht_Insert_def ht_Lookup_def Let_def)
  have at: "ht_at t (b, i) = old"
    using old f by (simp add: ht_Lookup_def)
  note p = ht_put [OF assms(1,2) f]
  have t1: "chains_ok kh (ht_list t1)" "ht_set t1 = insert h (ht_set t - set_option old)" "ht_elems t1 = card (ht_set t)"
    using p assms(1) unfolding at by (simp_all add: t1_def ht_set_def ht_inv_def del: set_concat)
  have fin: "finite (ht_set t)"
    by (simp add: ht_set_def)
  have found: "a \<in> ht_set t \<and> kh a = kh h" if "old = Some a" for a
    using ht_Lookup_iff [OF assms(1)] old that by (metis prod.collapse)
  have none: "kh a \<noteq> kh h" if "old = None" "a \<in> ht_set t" for a
    using ht_Lookup_iff [OF assms(1)] old that by (metis option.distinct(1) prod.collapse)
  have injt: "inj_on kh (ht_set t)"
    using assms(1) by (simp add: ht_inv_def)
  have other: "kh h \<noteq> kh a" if "a \<in> ht_set t - set_option old" for a
  proof (cases old)
    case None
    then show ?thesis
      using none [of a] that by auto
  next
    case (Some c)
    then show ?thesis
      using inj_onD [OF injt, of a c] found [OF Some] that by auto
  qed
  then have inj: "inj_on kh (ht_set t1)"
    unfolding t1(2) inj_on_insert by (intro conjI inj_on_diff [OF injt]) blast
  have "ht_inv kh t' \<and> ht_set t' = ht_set t1"
  proof (cases old)
    case None
    define t2 where "t2 = t1\<lparr>ht_elems := ht_elems t1 + 1\<rparr>"
    have t2: "ht_list t2 = ht_list t1" "ht_set t2 = ht_set t1" "ht_elems t2 = card (ht_set t2)"
      using None assms(2) fin t1(2,3) by (simp_all add: t2_def ht_set_def)
    have "t' = (if ht_elems t2 > length (ht_list t2) then ht_Resize kh t2 else t2)"
      using assms(4) f at None by (auto simp: ht_Insert_def Let_def t2_def t1_def)
    moreover have "ht_elems t2 \<le> 2 ^ 31"
      using assms(1,3) t1(3) by (simp add: t2_def ht_inv_def)
    ultimately show ?thesis
      using ht_Resize_inv [of kh t2] t1(1) t2 inj by (auto simp: ht_inv_def)
  next
    case (Some a)
    then have "t' = t1"
      using assms(4) f at by (simp add: ht_Insert_def Let_def t1_def)
    moreover have "card (ht_set t1) = card (ht_set t)"
      using found [OF Some] assms(2) fin unfolding t1(2) Some by (simp add: card_Diff_singleton card_gt_0_iff) (metis Suc_pred card_gt_0_iff empty_iff)
    ultimately show ?thesis
      using t1(1,3) inj by (simp add: ht_inv_def)
  qed
  then show "ht_inv kh t'" and "ht_set t' = insert h (ht_set t - set_option old)"
    using t1(2) by simp_all
qed

end
