(* ===== verification/Cache.thy ===== *)
theory Cache
  imports Handle_Table "HOL-Library.While_Combinator"
begin

text \<open>
  The sharded LRU cache of \<^verbatim>\<open>util/cache.cpp\<close>. Handles live in a heap of reference-counted entries; the circular
  lists are the lists of their members, oldest first, and \<open>lc_deleted\<close> records the calls of the deleter. The
  mutex of a shard makes each operation one step.
\<close>

record 'v LRUHandle =
  lh_value :: 'v
  lh_charge :: nat
  lh_in_cache :: bool
  lh_refs :: nat
  lh_hash :: u32
  lh_key :: slice

record 'v LRUCache =
  lc_capacity :: nat
  lc_usage :: nat
  lc_lru :: "nat list"
  lc_in_use :: "nat list"
  lc_table :: HandleTable
  lc_heap :: "nat \<Rightarrow> 'v LRUHandle option"
  lc_next :: nat
  lc_deleted :: "(slice \<times> 'v) list"

definition new_LRUCache :: "nat \<Rightarrow> 'v LRUCache" where
  "new_LRUCache capacity =
     \<lparr>lc_capacity = capacity, lc_usage = 0, lc_lru = [], lc_in_use = [], lc_table = new_HandleTable,
      lc_heap = (\<lambda>_. None), lc_next = 0, lc_deleted = []\<rparr>"

definition lc_kh :: "'v LRUCache \<Rightarrow> nat \<Rightarrow> slice \<times> u32" where
  "lc_kh c a = (case lc_heap c a of None \<Rightarrow> ([], 0) | Some e \<Rightarrow> (lh_key e, lh_hash e))"

definition LRU_Remove :: "nat \<Rightarrow> 'v LRUCache \<Rightarrow> 'v LRUCache" where
  "LRU_Remove a c = c\<lparr>lc_lru := remove1 a (lc_lru c), lc_in_use := remove1 a (lc_in_use c)\<rparr>"

definition Ref :: "nat \<Rightarrow> 'v LRUCache \<Rightarrow> 'v LRUCache" where
  "Ref a c =
     (case lc_heap c a of None \<Rightarrow> c
      | Some e \<Rightarrow>
          let c = (if lh_refs e = 1 \<and> lh_in_cache e then let c = LRU_Remove a c in c\<lparr>lc_in_use := lc_in_use c @ [a]\<rparr> else c)
          in c\<lparr>lc_heap := (lc_heap c)(a \<mapsto> e\<lparr>lh_refs := lh_refs e + 1\<rparr>)\<rparr>)"

definition Unref :: "nat \<Rightarrow> 'v LRUCache \<Rightarrow> 'v LRUCache" where
  "Unref a c =
     (case lc_heap c a of None \<Rightarrow> c
      | Some e \<Rightarrow>
          let e = e\<lparr>lh_refs := lh_refs e - 1\<rparr>; c = c\<lparr>lc_heap := (lc_heap c)(a \<mapsto> e)\<rparr>
          in if lh_refs e = 0 then c\<lparr>lc_heap := (lc_heap c)(a := None), lc_deleted := lc_deleted c @ [(lh_key e, lh_value e)]\<rparr>
             else if lh_in_cache e \<and> lh_refs e = 1 then let c = LRU_Remove a c in c\<lparr>lc_lru := lc_lru c @ [a]\<rparr>
             else c)"

definition cache_Lookup :: "slice \<Rightarrow> u32 \<Rightarrow> 'v LRUCache \<Rightarrow> nat option \<times> 'v LRUCache" where
  "cache_Lookup key hash c =
     (let e = ht_Lookup (lc_kh c) key hash (lc_table c) in (e, case e of None \<Rightarrow> c | Some a \<Rightarrow> Ref a c))"

definition cache_Release :: "nat \<Rightarrow> 'v LRUCache \<Rightarrow> 'v LRUCache" where
  "cache_Release a c = Unref a c"

definition FinishErase :: "nat option \<Rightarrow> 'v LRUCache \<Rightarrow> 'v LRUCache" where
  "FinishErase e c =
     (case e of None \<Rightarrow> c
      | Some a \<Rightarrow>
          (case lc_heap c a of None \<Rightarrow> c
           | Some h \<Rightarrow>
               let c = LRU_Remove a c
               in Unref a (c\<lparr>lc_heap := (lc_heap c)(a \<mapsto> h\<lparr>lh_in_cache := False\<rparr>), lc_usage := lc_usage c - lh_charge h\<rparr>)))"

definition cache_Erase :: "slice \<Rightarrow> u32 \<Rightarrow> 'v LRUCache \<Rightarrow> 'v LRUCache" where
  "cache_Erase key hash c =
     (let (e, t) = ht_Remove (lc_kh c) key hash (lc_table c) in FinishErase e (c\<lparr>lc_table := t\<rparr>))"

text \<open>The loops take the oldest entry of the LRU list out of the table; \<open>None\<close> is a loop that never ends.\<close>

definition evict_oldest :: "'v LRUCache \<Rightarrow> 'v LRUCache" where
  "evict_oldest c = (let (key, hash) = lc_kh c (hd (lc_lru c)) in cache_Erase key hash c)"

definition cache_Prune :: "'v LRUCache \<Rightarrow> 'v LRUCache option" where
  "cache_Prune = while_option (\<lambda>c. lc_lru c \<noteq> []) evict_oldest"

definition cache_Insert :: "slice \<Rightarrow> u32 \<Rightarrow> 'v \<Rightarrow> nat \<Rightarrow> 'v LRUCache \<Rightarrow> (nat \<times> 'v LRUCache) option" where
  "cache_Insert key hash value charge c =
     (let a = lc_next c;
          e = \<lparr>lh_value = value, lh_charge = charge, lh_in_cache = False, lh_refs = 1, lh_hash = hash, lh_key = key\<rparr>;
          c = c\<lparr>lc_next := a + 1, lc_heap := (lc_heap c)(a \<mapsto> e)\<rparr>;
          c = (if lc_capacity c > 0 then
                 let c = c\<lparr>lc_heap := (lc_heap c)(a \<mapsto> e\<lparr>lh_refs := 2, lh_in_cache := True\<rparr>),
                           lc_in_use := lc_in_use c @ [a], lc_usage := lc_usage c + charge\<rparr>;
                     (old, t) = ht_Insert (lc_kh c) a (lc_table c)
                 in FinishErase old (c\<lparr>lc_table := t\<rparr>)
               else c)
      in map_option (\<lambda>c. (a, c)) (while_option (\<lambda>c. lc_usage c > lc_capacity c \<and> lc_lru c \<noteq> []) evict_oldest c))"

section \<open>Shards\<close>

definition kNumShardBits :: nat where "kNumShardBits = 4"
definition kNumShards :: nat where "kNumShards = 2 ^ kNumShardBits"

record 'v ShardedLRUCache =
  sc_shard :: "'v LRUCache list"
  sc_last_id :: u64

definition HashSlice :: "slice \<Rightarrow> u32" where
  "HashSlice s = Hash s 0"

definition Shard :: "u32 \<Rightarrow> nat" where
  "Shard hash = unat (drop_bit (32 - kNumShardBits) hash)"

definition NewLRUCache :: "nat \<Rightarrow> 'v ShardedLRUCache" where
  "NewLRUCache capacity =
     \<lparr>sc_shard = replicate kNumShards (new_LRUCache ((capacity + (kNumShards - 1)) div kNumShards)), sc_last_id = 0\<rparr>"

text \<open>A handle of the sharded cache is the shard and the address; the code reads the shard off the hash in the entry.\<close>

definition sc_Insert :: "slice \<Rightarrow> 'v \<Rightarrow> nat \<Rightarrow> 'v ShardedLRUCache \<Rightarrow> ((nat \<times> nat) \<times> 'v ShardedLRUCache) option" where
  "sc_Insert key value charge s =
     (let hash = HashSlice key; i = Shard hash
      in map_option (\<lambda>(a, c). ((i, a), s\<lparr>sc_shard := (sc_shard s)[i := c]\<rparr>)) (cache_Insert key hash value charge (sc_shard s ! i)))"

definition sc_Lookup :: "slice \<Rightarrow> 'v ShardedLRUCache \<Rightarrow> (nat \<times> nat) option \<times> 'v ShardedLRUCache" where
  "sc_Lookup key s =
     (let hash = HashSlice key; i = Shard hash; (e, c) = cache_Lookup key hash (sc_shard s ! i)
      in (map_option (\<lambda>a. (i, a)) e, s\<lparr>sc_shard := (sc_shard s)[i := c]\<rparr>))"

definition sc_Release :: "nat \<times> nat \<Rightarrow> 'v ShardedLRUCache \<Rightarrow> 'v ShardedLRUCache" where
  "sc_Release h s = s\<lparr>sc_shard := (sc_shard s)[fst h := cache_Release (snd h) (sc_shard s ! fst h)]\<rparr>"

definition sc_Erase :: "slice \<Rightarrow> 'v ShardedLRUCache \<Rightarrow> 'v ShardedLRUCache" where
  "sc_Erase key s =
     (let hash = HashSlice key; i = Shard hash
      in s\<lparr>sc_shard := (sc_shard s)[i := cache_Erase key hash (sc_shard s ! i)]\<rparr>)"

definition sc_Value :: "nat \<times> nat \<Rightarrow> 'v ShardedLRUCache \<Rightarrow> 'v option" where
  "sc_Value h s = map_option lh_value (lc_heap (sc_shard s ! fst h) (snd h))"

definition sc_NewId :: "'v ShardedLRUCache \<Rightarrow> u64 \<times> 'v ShardedLRUCache" where
  "sc_NewId s = (sc_last_id s + 1, s\<lparr>sc_last_id := sc_last_id s + 1\<rparr>)"

fun prune_shards :: "'v LRUCache list \<Rightarrow> 'v LRUCache list option" where
  "prune_shards [] = Some []"
| "prune_shards (c # cs) =
     (case cache_Prune c of None \<Rightarrow> None | Some c \<Rightarrow> map_option ((#) c) (prune_shards cs))"

definition sc_Prune :: "'v ShardedLRUCache \<Rightarrow> 'v ShardedLRUCache option" where
  "sc_Prune s = map_option (\<lambda>cs. s\<lparr>sc_shard := cs\<rparr>) (prune_shards (sc_shard s))"

definition sc_TotalCharge :: "'v ShardedLRUCache \<Rightarrow> nat" where
  "sc_TotalCharge s = sum_list (map lc_usage (sc_shard s))"

section \<open>The invariant\<close>

text \<open>
  The table, the LRU list and the in-use list agree on what is cached; entries of the LRU list have only the
  reference of the cache, those of the in-use list more; an entry outside the cache is held by clients.
\<close>

definition lc_inv :: "'v LRUCache \<Rightarrow> bool" where
  "lc_inv c \<longleftrightarrow>
     ht_inv (lc_kh c) (lc_table c) \<and> distinct (lc_lru c @ lc_in_use c) \<and>
     set (lc_lru c) \<union> set (lc_in_use c) = ht_set (lc_table c) \<and>
     (\<forall>a e. lc_heap c a = Some e \<longrightarrow> a < lc_next c \<and> 0 < lh_refs e \<and> lh_in_cache e = (a \<in> ht_set (lc_table c)) \<and>
        (a \<in> ht_set (lc_table c) \<longrightarrow> (a \<in> set (lc_lru c) \<longleftrightarrow> lh_refs e = 1))) \<and>
     ht_set (lc_table c) \<subseteq> dom (lc_heap c) \<and>
     lc_usage c = (\<Sum>a \<in> ht_set (lc_table c). lh_charge (the (lc_heap c a)))"

text \<open>What a handle stands for.\<close>

definition lh_id :: "'v LRUHandle \<Rightarrow> slice \<times> u32 \<times> 'v" where
  "lh_id e = (lh_key e, lh_hash e, lh_value e)"

text \<open>The references that clients hold to a handle.\<close>

definition client_refs :: "'v LRUCache \<Rightarrow> nat \<Rightarrow> nat" where
  "client_refs c a = (case lc_heap c a of None \<Rightarrow> 0 | Some e \<Rightarrow> lh_refs e - (if lh_in_cache e then 1 else 0))"

text \<open>What is cached under a key.\<close>

definition cached :: "'v LRUCache \<Rightarrow> slice \<Rightarrow> u32 \<Rightarrow> 'v option" where
  "cached c key hash = map_option (\<lambda>a. lh_value (the (lc_heap c a))) (ht_Lookup (lc_kh c) key hash (lc_table c))"

lemma ht_inv_cong:
  assumes "\<forall>a \<in> ht_set t. kh a = kh' a"
  shows "ht_inv kh t \<longleftrightarrow> ht_inv kh' t"
proof -
  have "kh a = kh' a" if "b < length (ht_list t)" "a \<in> set (ht_list t ! b)" for a b
    using that assms ht_set_nth by blast
  then have "chains_ok kh (ht_list t) \<longleftrightarrow> chains_ok kh' (ht_list t)"
    by (auto simp: chains_ok_def)
  moreover have "inj_on kh (ht_set t) \<longleftrightarrow> inj_on kh' (ht_set t)"
    using assms by (intro inj_on_cong) blast
  ultimately show ?thesis
    by (simp add: ht_inv_def)
qed

lemma ht_Lookup_cong:
  assumes "ht_inv kh t" and "\<forall>a \<in> ht_set t. kh a = kh' a"
  shows "ht_Lookup kh' key hash t = ht_Lookup kh key hash t"
proof -
  have "ht_inv kh' t"
    using ht_inv_cong [OF assms(2)] assms(1) by simp
  then show ?thesis
    using ht_Lookup_iff [OF assms(1)] ht_Lookup_iff [of kh' t] assms(2) by (metis not_Some_eq)
qed

lemma lc_invD:
  assumes "lc_inv c"
  shows "ht_inv (lc_kh c) (lc_table c)" and "distinct (lc_lru c)" "distinct (lc_in_use c)" "set (lc_lru c) \<inter> set (lc_in_use c) = {}"
    and "set (lc_lru c) \<union> set (lc_in_use c) = ht_set (lc_table c)"
    and "lc_heap c a = Some e \<Longrightarrow> a < lc_next c \<and> 0 < lh_refs e \<and> lh_in_cache e = (a \<in> ht_set (lc_table c))"
    and "lc_heap c a = Some e \<Longrightarrow> a \<in> ht_set (lc_table c) \<Longrightarrow> a \<in> set (lc_lru c) \<longleftrightarrow> lh_refs e = 1"
    and "a \<in> ht_set (lc_table c) \<Longrightarrow> \<exists>e. lc_heap c a = Some e"
    and "lc_usage c = (\<Sum>a \<in> ht_set (lc_table c). lh_charge (the (lc_heap c a)))"
  using assms unfolding lc_inv_def by auto

text \<open>
  An operation that changes only reference counts and lists: \<open>same_entries\<close> relates the states before and after.
\<close>

definition same_entries :: "'v LRUCache \<Rightarrow> 'v LRUCache \<Rightarrow> bool" where
  "same_entries c c' \<longleftrightarrow> lc_table c' = lc_table c \<and> lc_usage c' = lc_usage c \<and> lc_next c' = lc_next c \<and>
     (\<forall>a \<in> ht_set (lc_table c). \<exists>e e'. lc_heap c a = Some e \<and> lc_heap c' a = Some e' \<and>
        (lh_key e', lh_hash e', lh_value e', lh_charge e') = (lh_key e, lh_hash e, lh_value e, lh_charge e))"

lemma same_entries_inv:
  assumes "lc_inv c" and "same_entries c c'"
  shows "ht_inv (lc_kh c') (lc_table c')" and "lc_usage c' = (\<Sum>a \<in> ht_set (lc_table c'). lh_charge (the (lc_heap c' a)))"
    and "ht_set (lc_table c') \<subseteq> dom (lc_heap c')" and "cached c' = cached c"
proof -
  have t: "lc_table c' = lc_table c" "lc_usage c' = lc_usage c"
    using assms(2) unfolding same_entries_def by blast+
  have e: "\<exists>e e'. lc_heap c a = Some e \<and> lc_heap c' a = Some e' \<and>
        (lh_key e', lh_hash e', lh_value e', lh_charge e') = (lh_key e, lh_hash e, lh_value e, lh_charge e)"
      if "a \<in> ht_set (lc_table c)" for a
    using assms(2) that unfolding same_entries_def by blast
  have k: "\<forall>a \<in> ht_set (lc_table c). lc_kh c a = lc_kh c' a"
    using e by (fastforce simp: lc_kh_def)
  show "ht_inv (lc_kh c') (lc_table c')"
    using ht_inv_cong [OF k] lc_invD(1) [OF assms(1)] by (simp add: t)
  show "lc_usage c' = (\<Sum>a \<in> ht_set (lc_table c'). lh_charge (the (lc_heap c' a)))"
    unfolding t lc_invD(9) [OF assms(1)] by (rule sum.cong [OF refl]) (use e in fastforce)
  show "ht_set (lc_table c') \<subseteq> dom (lc_heap c')"
    using e by (fastforce simp: t)
  have "cached c' key hash = cached c key hash" for key hash
  proof (cases "ht_Lookup (lc_kh c) key hash (lc_table c)")
    case None
    then show ?thesis
      using ht_Lookup_cong [OF lc_invD(1) [OF assms(1)] k] by (simp add: cached_def t)
  next
    case (Some a)
    then have "a \<in> ht_set (lc_table c)"
      using ht_Lookup_iff [OF lc_invD(1) [OF assms(1)]] by blast
    then show ?thesis
      using Some e [of a] ht_Lookup_cong [OF lc_invD(1) [OF assms(1)] k] by (auto simp: cached_def t)
  qed
  then show "cached c' = cached c"
    by (intro ext)
qed

lemma Ref_inv:
  assumes "lc_inv c" and "a \<in> ht_set (lc_table c)"
  shows "lc_inv (Ref a c) \<and> same_entries c (Ref a c) \<and> client_refs (Ref a c) = (client_refs c)(a := client_refs c a + 1) \<and>
    (\<forall>b. map_option lh_id (lc_heap (Ref a c) b) = map_option lh_id (lc_heap c b))"
proof -
  obtain e where e: "lc_heap c a = Some e"
    using lc_invD(8) [OF assms] by blast
  note d = lc_invD(2-5) [OF assms(1)] lc_invD(6) [OF assms(1) e] lc_invD(7) [OF assms(1) e assms(2)]
  have se: "same_entries c (Ref a c)"
    using assms lc_invD(8) [OF assms(1)] e by (fastforce simp: same_entries_def Ref_def LRU_Remove_def Let_def)
  have in_cache: "lh_in_cache e" "0 < lh_refs e"
    using d(5) assms(2) by simp_all
  have mem: "a \<in> set (lc_lru c) \<or> a \<in> set (lc_in_use c)"
    using d(4) assms(2) by blast
  have hp: "lc_heap (Ref a c) = (lc_heap c)(a \<mapsto> e\<lparr>lh_refs := lh_refs e + 1\<rparr>)"
    by (simp add: Ref_def e LRU_Remove_def Let_def)
  have lists: "lc_lru (Ref a c) = remove1 a (lc_lru c)"
    "set (lc_in_use (Ref a c)) = insert a (set (lc_in_use c))" "distinct (lc_in_use (Ref a c))"
    using d(1-4,6) mem in_cache by (auto simp: Ref_def e LRU_Remove_def Let_def remove1_idem)
  have "lc_inv (Ref a c)"
    unfolding lc_inv_def
  proof (intro conjI allI impI)
    show "distinct (lc_lru (Ref a c) @ lc_in_use (Ref a c))"
      using lists d(1-3) by auto
    show "set (lc_lru (Ref a c)) \<union> set (lc_in_use (Ref a c)) = ht_set (lc_table (Ref a c))"
      using lists d(1-4) mem se assms(2) by (auto simp: same_entries_def)
    fix b h
    assume b: "lc_heap (Ref a c) b = Some h"
    show "b < lc_next (Ref a c)" "0 < lh_refs h" "lh_in_cache h = (b \<in> ht_set (lc_table (Ref a c)))"
      using b lc_invD(6) [OF assms(1), of b] d(5) se by (auto simp: hp same_entries_def split: if_splits)
    assume "b \<in> ht_set (lc_table (Ref a c))"
    then show "b \<in> set (lc_lru (Ref a c)) \<longleftrightarrow> lh_refs h = 1"
      using b lc_invD(7) [OF assms(1), of b] se lists(1) d(1) in_cache by (auto simp: hp same_entries_def split: if_splits)
  qed (use same_entries_inv [OF assms(1) se] in blast)+
  moreover have "client_refs (Ref a c) = (client_refs c)(a := client_refs c a + 1)"
    using in_cache e by (auto simp: client_refs_def hp fun_eq_iff)
  ultimately show ?thesis
    using se e by (simp add: hp lh_id_def)
qed

text \<open>Releasing a reference a client holds; the entry is freed when it was the last one and the cache has dropped it.\<close>

lemma Unref_inv:
  assumes "lc_inv c" and "0 < client_refs c a"
  shows "lc_inv (Unref a c) \<and> same_entries c (Unref a c) \<and> client_refs (Unref a c) = (client_refs c)(a := client_refs c a - 1) \<and>
    (\<forall>b. lc_heap (Unref a c) b \<noteq> None \<longrightarrow> map_option lh_id (lc_heap (Unref a c) b) = map_option lh_id (lc_heap c b))"
proof -
  obtain e where e: "lc_heap c a = Some e" "(if lh_in_cache e then 1 else 0) < lh_refs e"
    using assms(2) by (auto simp: client_refs_def split: option.splits)
  note d = lc_invD(2-5) [OF assms(1)] lc_invD(6) [OF assms(1) e(1)] lc_invD(7) [OF assms(1) e(1)]
  let ?e = "e\<lparr>lh_refs := lh_refs e - 1\<rparr>"
  have hp: "lc_heap (Unref a c) = (lc_heap c)(a := if lh_refs e = 1 then None else Some ?e)"
    using d(5) by (auto simp: Unref_def e LRU_Remove_def Let_def)
  have se: "same_entries c (Unref a c)"
    unfolding same_entries_def
  proof (intro conjI ballI)
    fix b
    assume b: "b \<in> ht_set (lc_table c)"
    show "\<exists>h h'. lc_heap c b = Some h \<and> lc_heap (Unref a c) b = Some h' \<and>
        (lh_key h', lh_hash h', lh_value h', lh_charge h') = (lh_key h, lh_hash h, lh_value h, lh_charge h)"
      using lc_invD(8) [OF assms(1) b] b e d(5) by (auto simp: hp)
  qed (simp_all add: Unref_def e LRU_Remove_def Let_def)
  have lists: "lc_lru (Unref a c) = (if a \<in> ht_set (lc_table c) \<and> lh_refs e = 2 then lc_lru c @ [a] else lc_lru c)"
    "lc_in_use (Unref a c) = (if a \<in> ht_set (lc_table c) \<and> lh_refs e = 2 then remove1 a (lc_in_use c) else lc_in_use c)"
    using d(5,6) e by (auto simp: Unref_def e LRU_Remove_def Let_def remove1_idem)
  have "lc_inv (Unref a c)"
    unfolding lc_inv_def
  proof (intro conjI allI impI)
    show "distinct (lc_lru (Unref a c) @ lc_in_use (Unref a c))"
      using lists d(1-3,6) by auto
    show "set (lc_lru (Unref a c)) \<union> set (lc_in_use (Unref a c)) = ht_set (lc_table (Unref a c))"
      using lists d(1-4,6) se by (auto simp: same_entries_def)
    fix b h
    assume b: "lc_heap (Unref a c) b = Some h"
    show "b < lc_next (Unref a c)" "0 < lh_refs h" "lh_in_cache h = (b \<in> ht_set (lc_table (Unref a c)))"
      using b lc_invD(6) [OF assms(1), of b] d(5) se e(2) by (auto simp: hp same_entries_def split: if_splits)
    assume "b \<in> ht_set (lc_table (Unref a c))"
    then show "b \<in> set (lc_lru (Unref a c)) \<longleftrightarrow> lh_refs h = 1"
      using b lc_invD(7) [OF assms(1), of b] se lists(1) d(5,6) e(2) by (auto simp: hp same_entries_def split: if_splits)
  qed (use same_entries_inv [OF assms(1) se] in blast)+
  moreover have "client_refs (Unref a c) = (client_refs c)(a := client_refs c a - 1)"
    using e by (auto simp: client_refs_def hp fun_eq_iff)
  ultimately show ?thesis
    using se e by (simp add: hp lh_id_def)
qed

text \<open>Taking an entry out of the table and the lists, and dropping the reference of the cache.\<close>

lemma FinishErase_eq:
  assumes "lc_heap c a = Some h" and "0 < lh_refs h"
  shows "FinishErase (Some a) c =
    c\<lparr>lc_lru := remove1 a (lc_lru c), lc_in_use := remove1 a (lc_in_use c), lc_usage := lc_usage c - lh_charge h,
      lc_heap := (lc_heap c)(a := if lh_refs h = 1 then None else Some (h\<lparr>lh_in_cache := False, lh_refs := lh_refs h - 1\<rparr>)),
      lc_deleted := lc_deleted c @ (if lh_refs h = 1 then [(lh_key h, lh_value h)] else [])\<rparr>"
  using assms by (cases c, cases h) (simp add: FinishErase_def Unref_def LRU_Remove_def Let_def fun_upd_twist)

text \<open>\<open>kept\<close>: clients keep their references, and the values behind them.\<close>

definition kept :: "'v LRUCache \<Rightarrow> 'v LRUCache \<Rightarrow> bool" where
  "kept c c' \<longleftrightarrow> (\<forall>a. 0 < client_refs c a \<longrightarrow> client_refs c' a = client_refs c a \<and>
     map_option lh_id (lc_heap c' a) = map_option lh_id (lc_heap c a))"

lemma keptD:
  "kept c c' \<Longrightarrow> 0 < client_refs c a \<Longrightarrow> client_refs c' a = client_refs c a \<and> map_option lh_id (lc_heap c' a) = map_option lh_id (lc_heap c a)"
  by (simp add: kept_def)

lemma kept_trans: "kept c c' \<Longrightarrow> kept c' c'' \<Longrightarrow> kept c c''"
  by (simp add: kept_def)

lemma FinishErase_inv:
  assumes "lc_inv c" and "a \<in> ht_set (lc_table c)" and "ht_inv (lc_kh c) t" "ht_set t = ht_set (lc_table c) - {a}"
  defines "c' \<equiv> FinishErase (Some a) (c\<lparr>lc_table := t\<rparr>)"
  shows "lc_inv c' \<and> kept c c' \<and> lc_table c' = t \<and> lc_lru c' = remove1 a (lc_lru c) \<and> lc_in_use c' = remove1 a (lc_in_use c) \<and>
    lc_capacity c' = lc_capacity c \<and> lc_next c' = lc_next c \<and> (\<forall>b \<in> ht_set t. lc_heap c' b = lc_heap c b) \<and> lc_usage c' \<le> lc_usage c"
proof -
  obtain h where h: "lc_heap c a = Some h"
    using lc_invD(8) [OF assms(1,2)] by blast
  note d = lc_invD(2-5) [OF assms(1)] lc_invD(6) [OF assms(1) h] lc_invD(7) [OF assms(1) h assms(2)]
  have refs: "0 < lh_refs h" "lh_in_cache h"
    using d(5) assms(2) by simp_all
  have c': "c' = c\<lparr>lc_table := t, lc_lru := remove1 a (lc_lru c), lc_in_use := remove1 a (lc_in_use c), lc_usage := lc_usage c - lh_charge h,
      lc_heap := (lc_heap c)(a := if lh_refs h = 1 then None else Some (h\<lparr>lh_in_cache := False, lh_refs := lh_refs h - 1\<rparr>)),
      lc_deleted := lc_deleted c @ (if lh_refs h = 1 then [(lh_key h, lh_value h)] else [])\<rparr>"
    unfolding c'_def using FinishErase_eq [of "c\<lparr>lc_table := t\<rparr>" a h] h refs(1) by simp
  have k: "\<forall>b \<in> ht_set t. lc_kh c b = lc_kh c' b"
    unfolding assms(4) by (simp add: c' lc_kh_def)
  have "lc_inv c'"
    unfolding lc_inv_def
  proof (intro conjI allI impI)
    show "ht_inv (lc_kh c') (lc_table c')"
      using ht_inv_cong [OF k] assms(3) by (simp add: c')
    show "distinct (lc_lru c' @ lc_in_use c')"
      using d(1-3) by (auto simp: c' dest: notin_set_remove1)
    show "set (lc_lru c') \<union> set (lc_in_use c') = ht_set (lc_table c')"
      using d(1-4) assms(4) by (auto simp: c')
    fix b e
    assume b: "lc_heap c' b = Some e"
    show "b < lc_next c'" "0 < lh_refs e" "lh_in_cache e = (b \<in> ht_set (lc_table c'))"
      using b lc_invD(6) [OF assms(1), of b] d(5) assms(4) by (auto simp: c' split: if_splits)
    assume "b \<in> ht_set (lc_table c')"
    then show "b \<in> set (lc_lru c') \<longleftrightarrow> lh_refs e = 1"
      using b lc_invD(7) [OF assms(1), of b e] assms(4) d(1) by (auto simp: c' split: if_splits)
  next
    show "ht_set (lc_table c') \<subseteq> dom (lc_heap c')"
      using assms(4) lc_invD(8) [OF assms(1)] by (auto simp: c')
    have fin: "finite (ht_set (lc_table c))"
      by (simp add: ht_set_def)
    have "lc_usage c = lh_charge h + (\<Sum>b \<in> ht_set t. lh_charge (the (lc_heap c b)))"
      unfolding lc_invD(9) [OF assms(1)] assms(4) using sum.remove [OF fin assms(2), of "\<lambda>b. lh_charge (the (lc_heap c b))"] h by simp
    moreover have "(\<Sum>b \<in> ht_set t. lh_charge (the (lc_heap c b))) = (\<Sum>b \<in> ht_set t. lh_charge (the (lc_heap c' b)))"
      unfolding assms(4) by (rule sum.cong) (auto simp: c')
    ultimately show "lc_usage c' = (\<Sum>b \<in> ht_set (lc_table c'). lh_charge (the (lc_heap c' b)))"
      by (simp add: c')
  qed
  moreover have "kept c c'"
    using h refs by (auto simp: kept_def client_refs_def c' lh_id_def)
  ultimately show ?thesis
    using assms(4) by (simp add: c')
qed

section \<open>Erasing and evicting\<close>

lemma cached_iff:
  assumes "lc_inv c"
  shows "cached c k h = Some v \<longleftrightarrow>
    (\<exists>a e. a \<in> ht_set (lc_table c) \<and> lc_heap c a = Some e \<and> lh_key e = k \<and> lh_hash e = h \<and> lh_value e = v)"
proof -
  have "ht_Lookup (lc_kh c) k h (lc_table c) = Some a \<longleftrightarrow>
      a \<in> ht_set (lc_table c) \<and> (\<exists>e. lc_heap c a = Some e \<and> lh_key e = k \<and> lh_hash e = h)" for a
    using ht_Lookup_iff [OF lc_invD(1) [OF assms]] lc_invD(8) [OF assms] by (force simp: lc_kh_def)
  then show ?thesis
    by (fastforce simp: cached_def)
qed

text \<open>What stays in the cache is what was there.\<close>

definition shrunk :: "'v LRUCache \<Rightarrow> 'v LRUCache \<Rightarrow> bool" where
  "shrunk c c' \<longleftrightarrow> (\<forall>k h v. cached c' k h = Some v \<longrightarrow> cached c k h = Some v)"

lemma shrunk_trans: "shrunk c c' \<Longrightarrow> shrunk c' c'' \<Longrightarrow> shrunk c c''"
  by (simp add: shrunk_def)

lemma kept_refl: "kept c c" "shrunk c c"
  by (simp_all add: kept_def shrunk_def)

lemma cache_Erase_inv:
  fixes c :: "'v LRUCache" and key :: slice and hash :: u32
  assumes "lc_inv c"
  defines "c' \<equiv> cache_Erase key hash c"
  shows "lc_inv c' \<and> kept c c' \<and> shrunk c c' \<and> cached c' key hash = None \<and> lc_capacity c' = lc_capacity c \<and> lc_usage c' \<le> lc_usage c \<and>
    lc_next c' = lc_next c \<and> lc_lru c' = (case ht_Lookup (lc_kh c) key hash (lc_table c) of None \<Rightarrow> lc_lru c | Some a \<Rightarrow> remove1 a (lc_lru c)) \<and>
    lc_in_use c' = (case ht_Lookup (lc_kh c) key hash (lc_table c) of None \<Rightarrow> lc_in_use c | Some a \<Rightarrow> remove1 a (lc_in_use c))"
proof -
  obtain e t where r: "ht_Remove (lc_kh c) key hash (lc_table c) = (e, t)"
    by (cases "ht_Remove (lc_kh c) key hash (lc_table c)")
  note ri = ht_Remove_inv [OF lc_invD(1) [OF assms(1)] r]
  have c': "c' = FinishErase e (c\<lparr>lc_table := t\<rparr>)"
    by (simp add: c'_def cache_Erase_def r)
  show ?thesis
  proof (cases e)
    case None
    then have "t = lc_table c"
      using r by (auto simp: ht_Remove_def Let_def split: prod.splits if_splits)
    then have "c' = c"
      using None by (simp add: c' FinishErase_def)
    then show ?thesis
      using assms(1) None ri(1) by (simp add: kept_refl cached_def)
  next
    case (Some a)
    then have a: "a \<in> ht_set (lc_table c)" "lc_kh c a = (key, hash)"
      using ri(1) ht_Lookup_iff [OF lc_invD(1) [OF assms(1)]] by metis+
    have st: "ht_set t = ht_set (lc_table c) - {a}"
      using ri(3) Some by simp
    note fe = FinishErase_inv [OF assms(1) a(1) ri(2) st, folded Some c']
    have inv': "lc_inv c'" and hp: "b \<in> ht_set t \<Longrightarrow> lc_heap c' b = lc_heap c b" and tb: "lc_table c' = t" for b
      using fe Some c' by auto
    have "shrunk c c'"
      using cached_iff [OF inv'] cached_iff [OF assms(1)] hp st tb by (fastforce simp: shrunk_def)
    moreover have "cached c' key hash = None"
    proof (rule ccontr)
      assume "cached c' key hash \<noteq> None"
      then obtain b h where "b \<in> ht_set t" "lc_heap c b = Some h" "lh_key h = key" "lh_hash h = hash"
        using cached_iff [OF inv', of key hash] hp tb by (auto simp: not_None_eq)
      then have "lc_kh c b = lc_kh c a" "b \<in> ht_set (lc_table c)" "b \<noteq> a"
        using a(2) st by (simp_all add: lc_kh_def)
      then show False
        using lc_invD(1) [OF assms(1)] a(1) by (auto simp: ht_inv_def inj_on_def)
    qed
    ultimately show ?thesis
      using fe Some c' ri(1) by simp
  qed
qed

lemma evict_oldest_inv:
  assumes "lc_inv c" and "lc_lru c \<noteq> []"
  shows "lc_inv (evict_oldest c) \<and> kept c (evict_oldest c) \<and> shrunk c (evict_oldest c) \<and> lc_lru (evict_oldest c) = tl (lc_lru c) \<and>
    lc_in_use (evict_oldest c) = lc_in_use c \<and>
    lc_capacity (evict_oldest c) = lc_capacity c \<and> lc_next (evict_oldest c) = lc_next c"
proof -
  obtain key hash where kh: "lc_kh c (hd (lc_lru c)) = (key, hash)"
    by (cases "lc_kh c (hd (lc_lru c))")
  have "hd (lc_lru c) \<in> ht_set (lc_table c)"
    using lc_invD(5) [OF assms(1)] hd_in_set [OF assms(2)] by blast
  then have "ht_Lookup (lc_kh c) key hash (lc_table c) = Some (hd (lc_lru c))"
    by (simp add: ht_Lookup_iff [OF lc_invD(1) [OF assms(1)]] kh)
  moreover have "remove1 (hd (lc_lru c)) (lc_lru c) = tl (lc_lru c)"
    using assms(2) by (cases "lc_lru c") simp_all
  moreover have "remove1 (hd (lc_lru c)) (lc_in_use c) = lc_in_use c"
    using assms(2) lc_invD(4) [OF assms(1)] by (intro remove1_idem) (auto dest: hd_in_set)
  ultimately show ?thesis
    using cache_Erase_inv [OF assms(1), of key hash] by (simp add: evict_oldest_def kh)
qed

text \<open>The eviction loops end.\<close>

lemma evict_loop:
  assumes "lc_inv c"
  shows "\<exists>c'. while_option (\<lambda>c. P c \<and> lc_lru c \<noteq> []) evict_oldest c = Some c' \<and> lc_inv c' \<and> kept c c' \<and> shrunk c c' \<and>
    lc_in_use c' = lc_in_use c \<and> lc_capacity c' = lc_capacity c \<and> lc_next c' = lc_next c \<and> \<not> (P c' \<and> lc_lru c' \<noteq> [])"
  using assms
proof (induction "length (lc_lru c)" arbitrary: c)
  case 0
  then show ?case
    by (subst while_option_unfold) (simp add: kept_refl)
next
  case (Suc n)
  show ?case
  proof (cases "P c")
    case True
    then have ne: "P c \<and> lc_lru c \<noteq> []"
      using Suc.hyps(2) by auto
    note ev = evict_oldest_inv [OF Suc.prems conjunct2 [OF ne]]
    have "n = length (lc_lru (evict_oldest c))"
      using Suc.hyps(2) ev by simp
    from Suc.hyps(1) [OF this conjunct1 [OF ev]] obtain c' where w:
      "while_option (\<lambda>c. P c \<and> lc_lru c \<noteq> []) evict_oldest (evict_oldest c) = Some c'" and r:
      "lc_inv c' \<and> kept (evict_oldest c) c' \<and> shrunk (evict_oldest c) c' \<and> lc_in_use c' = lc_in_use (evict_oldest c) \<and> lc_capacity c' = lc_capacity (evict_oldest c) \<and>
       lc_next c' = lc_next (evict_oldest c) \<and> \<not> (P c' \<and> lc_lru c' \<noteq> [])"
      by blast
    show ?thesis
      using ne ev w r kept_trans [of c "evict_oldest c" c'] shrunk_trans [of c "evict_oldest c" c'] by (subst while_option_unfold) simp
  next
    case False
    then show ?thesis
      using Suc.prems by (subst while_option_unfold) (simp add: kept_refl)
  qed
qed

section \<open>Inserting\<close>

definition add_entry :: "nat \<Rightarrow> 'v LRUHandle \<Rightarrow> HandleTable \<Rightarrow> 'v LRUCache \<Rightarrow> 'v LRUCache" where
  "add_entry a e t c =
     c\<lparr>lc_heap := (lc_heap c)(a \<mapsto> e), lc_in_use := lc_in_use c @ [a], lc_usage := lc_usage c + lh_charge e, lc_table := t\<rparr>"

lemma add_entry_inv:
  assumes "lc_inv c" and "lc_heap c a = None" "a < lc_next c" and "lh_refs e = 2" "lh_in_cache e"
    and "ht_inv (lc_kh (add_entry a e t c)) t" and "ht_set t = insert a (ht_set (lc_table c))"
  shows "lc_inv (add_entry a e t c) \<and> kept c (add_entry a e t c)"
proof -
  have a: "a \<notin> ht_set (lc_table c)"
    using lc_invD(8) [OF assms(1), of a] assms(2) by auto
  note d = lc_invD(2-5) [OF assms(1)]
  have "lc_inv (add_entry a e t c)"
    unfolding lc_inv_def
  proof (intro conjI allI impI)
    show "distinct (lc_lru (add_entry a e t c) @ lc_in_use (add_entry a e t c))"
      using d a by (auto simp: add_entry_def)
    show "set (lc_lru (add_entry a e t c)) \<union> set (lc_in_use (add_entry a e t c)) = ht_set (lc_table (add_entry a e t c))"
      using d assms(7) by (auto simp: add_entry_def)
    show "ht_set (lc_table (add_entry a e t c)) \<subseteq> dom (lc_heap (add_entry a e t c))"
      using lc_invD(8) [OF assms(1)] assms(7) by (auto simp: add_entry_def)
    show "lc_usage (add_entry a e t c) = (\<Sum>b \<in> ht_set (lc_table (add_entry a e t c)). lh_charge (the (lc_heap (add_entry a e t c) b)))"
    proof -
      have "(\<Sum>b \<in> ht_set (lc_table c). lh_charge (the (((lc_heap c)(a \<mapsto> e)) b))) = lc_usage c"
        unfolding lc_invD(9) [OF assms(1)] by (rule sum.cong) (use a in auto)
      then show ?thesis
        using a by (simp add: add_entry_def assms(7)) (simp add: ht_set_def)
    qed
    fix b h
    assume b: "lc_heap (add_entry a e t c) b = Some h"
    show "b < lc_next (add_entry a e t c)" "0 < lh_refs h" "lh_in_cache h = (b \<in> ht_set (lc_table (add_entry a e t c)))"
      using b lc_invD(6) [OF assms(1), of b] assms(3-5,7) by (auto simp: add_entry_def split: if_splits)
    assume "b \<in> ht_set (lc_table (add_entry a e t c))"
    then show "b \<in> set (lc_lru (add_entry a e t c)) \<longleftrightarrow> lh_refs h = 1"
      using b lc_invD(7) [OF assms(1), of b h] assms(4,7) a d(4) by (auto simp: add_entry_def split: if_splits)
  qed (simp add: add_entry_def assms(6) [unfolded add_entry_def])
  then show ?thesis
    using assms(2) by (auto simp: kept_def add_entry_def client_refs_def)
qed

lemma lc_inv_alloc:
  assumes "lc_inv c"
  shows "lc_inv (c\<lparr>lc_next := Suc (lc_next c)\<rparr>)" "lc_heap c (lc_next c) = None" "lc_next c \<notin> ht_set (lc_table c)"
proof -
  have "lc_kh (c\<lparr>lc_next := Suc (lc_next c)\<rparr>) = lc_kh c"
    by (simp add: lc_kh_def fun_eq_iff)
  then show "lc_inv (c\<lparr>lc_next := Suc (lc_next c)\<rparr>)"
    using assms unfolding lc_inv_def by (auto simp: less_Suc_eq)
  show n: "lc_heap c (lc_next c) = None"
    using lc_invD(6) [OF assms, of "lc_next c"] by (cases "lc_heap c (lc_next c)") auto
  show "lc_next c \<notin> ht_set (lc_table c)"
    using lc_invD(8) [OF assms, of "lc_next c"] n by auto
qed

lemma FinishErase_add:
  assumes "lc_inv c" and "b \<in> ht_set (lc_table c)" and "lc_heap c a = None"
  shows "FinishErase (Some b) (add_entry a e t c) = add_entry a e t (FinishErase (Some b) (c\<lparr>lc_table := t'\<rparr>))"
proof -
  obtain h where h: "lc_heap c b = Some h"
    using lc_invD(8) [OF assms(1,2)] by blast
  have ab: "a \<noteq> b" "0 < lh_refs h"
    using h assms(3) lc_invD(6) [OF assms(1) h] by auto
  have "lh_charge h \<le> lc_usage c"
    unfolding lc_invD(9) [OF assms(1)] using member_le_sum [of b "ht_set (lc_table c)" "\<lambda>x. lh_charge (the (lc_heap c x))"] assms(2) h
    by (simp add: ht_set_def)
  then show ?thesis
    using FinishErase_eq [of "add_entry a e t c" b h] FinishErase_eq [of "c\<lparr>lc_table := t'\<rparr>" b h] h ab
    by (cases c) (simp add: add_entry_def remove1_append fun_upd_twist remove1_idem)
qed

definition insert_handle :: "slice \<Rightarrow> u32 \<Rightarrow> 'v \<Rightarrow> nat \<Rightarrow> 'v LRUHandle" where
  "insert_handle key hash value charge =
     \<lparr>lh_value = value, lh_charge = charge, lh_in_cache = True, lh_refs = 2, lh_hash = hash, lh_key = key\<rparr>"

text \<open>The state before eviction, when the cache is not turned off.\<close>

definition inserted :: "slice \<Rightarrow> u32 \<Rightarrow> 'v \<Rightarrow> nat \<Rightarrow> 'v LRUCache \<Rightarrow> 'v LRUCache" where
  "inserted key hash value charge c =
     (let a = lc_next c; c1 = add_entry a (insert_handle key hash value charge) (lc_table c) (c\<lparr>lc_next := Suc a\<rparr>);
          (old, t) = ht_Insert (lc_kh c1) a (lc_table c)
      in FinishErase old (c1\<lparr>lc_table := t\<rparr>))"

lemma inserted_inv:
  fixes c :: "'v LRUCache" and key :: slice and hash :: u32 and v :: 'v and charge :: nat
  assumes "lc_inv c" and "card (ht_set (lc_table c)) < 2 ^ 31"
  defines "c' \<equiv> inserted key hash v charge c" and "a \<equiv> lc_next c"
  shows "lc_inv c' \<and> kept c c' \<and> lc_heap c' a = Some (insert_handle key hash v charge) \<and> a \<in> set (lc_in_use c') \<and> a \<in> ht_set (lc_table c') \<and>
    (\<forall>b \<in> ht_set (lc_table c') - {a}. b \<in> ht_set (lc_table c) \<and> lc_heap c' b = lc_heap c b) \<and> lc_capacity c' = lc_capacity c"
proof -
  let ?e = "insert_handle key hash v charge" and ?c0 = "c\<lparr>lc_next := Suc a\<rparr>"
  note al = lc_inv_alloc [OF assms(1), folded a_def]
  define c1 where "c1 = add_entry a ?e (lc_table c) ?c0"
  obtain old t where r: "ht_Insert (lc_kh c1) a (lc_table c) = (old, t)"
    by (cases "ht_Insert (lc_kh c1) a (lc_table c)")
  have kha: "lc_kh c1 a = (key, hash)"
    by (simp add: c1_def add_entry_def lc_kh_def insert_handle_def)
  have kh: "\<forall>b \<in> ht_set (lc_table c). lc_kh c b = lc_kh c1 b"
    using al(3) by (auto simp: c1_def add_entry_def lc_kh_def)
  have htc: "ht_inv (lc_kh c1) (lc_table c)"
    using ht_inv_cong [OF kh] lc_invD(1) [OF assms(1)] by blast
  have el: "ht_elems (lc_table c) < 2 ^ 31"
    using assms(2) htc by (simp add: ht_inv_def)
  note ins = ht_Insert_inv [OF htc al(3) el r]
  have c': "c' = FinishErase old (add_entry a ?e t ?c0)"
    by (simp add: c'_def inserted_def a_def [symmetric] c1_def [symmetric] r Let_def) (simp add: c1_def add_entry_def)
  have e: "lh_refs ?e = 2" "lh_in_cache ?e"
    by (simp_all add: insert_handle_def)
  have k0: "kept c ?c0"
    by (simp add: kept_def client_refs_def)
  show ?thesis
  proof (cases old)
    case None
    have "lc_kh (add_entry a ?e t ?c0) = lc_kh c1"
      by (simp add: c1_def add_entry_def lc_kh_def fun_eq_iff)
    then show ?thesis
      using add_entry_inv [OF al(1) _ _ e, of a t] al ins(2,3) None kept_trans [OF k0] unfolding c' FinishErase_def
      by (simp add: a_def [symmetric]) (auto simp: add_entry_def)
  next
    case (Some b)
    then have b: "b \<in> ht_set (lc_table c)" "lc_kh c b = (key, hash)"
      using ht_Lookup_iff [OF htc] ins(1) kh kha by (metis fst_conv snd_conv)+
    obtain e' t' where rm: "ht_Remove (lc_kh ?c0) key hash (lc_table ?c0) = (e', t')"
      by (cases "ht_Remove (lc_kh ?c0) key hash (lc_table ?c0)")
    note ri = ht_Remove_inv [OF lc_invD(1) [OF al(1)] rm]
    have kh0: "lc_kh ?c0 = lc_kh c"
      by (simp add: lc_kh_def fun_eq_iff)
    have "e' = Some b"
      using ri(1) b ht_Lookup_iff [OF lc_invD(1) [OF assms(1)]] by (simp add: kh0)
    then have st: "ht_set t' = ht_set (lc_table ?c0) - {b}"
      using ri(3) by simp
    define c2 where "c2 = FinishErase (Some b) (?c0\<lparr>lc_table := t'\<rparr>)"
    note fe = FinishErase_inv [OF al(1) _ ri(2) st, folded c2_def]
    have c2: "lc_inv c2" "kept ?c0 c2" "lc_table c2 = t'" "lc_next c2 = Suc a" "lc_capacity c2 = lc_capacity c"
      and hp2: "\<forall>x \<in> ht_set t'. lc_heap c2 x = lc_heap c x"
      using fe b(1) by simp_all
    have ab: "a \<noteq> b"
      using al(3) b(1) by auto
    have na: "lc_heap c2 a = None"
      using ab al(2) lc_invD(8) [OF assms(1) b(1)] FinishErase_eq [of "?c0\<lparr>lc_table := t'\<rparr>" b] lc_invD(6) [OF assms(1), of b]
      by (auto simp: c2_def)
    have st': "ht_set t = insert a (ht_set (lc_table c2))"
      using ins(3) Some c2(3) st by simp
    have eq: "c' = add_entry a ?e t c2"
      unfolding c' Some c2_def using FinishErase_add [OF al(1), of b a] b(1) al(2) by simp
    have "\<forall>x \<in> ht_set t. lc_kh c1 x = lc_kh (add_entry a ?e t c2) x"
      using hp2 c2(3) unfolding st' by (auto simp: lc_kh_def c1_def add_entry_def)
    then have "ht_inv (lc_kh (add_entry a ?e t c2)) t"
      using ht_inv_cong ins(2) by blast
    then have ai: "lc_inv c'" "kept c2 c'"
      using add_entry_inv [OF c2(1) na _ e _ st'] c2(4) unfolding eq by simp_all
    have fld: "lc_table c' = t" "lc_heap c' = (lc_heap c2)(a \<mapsto> ?e)" "lc_in_use c' = lc_in_use c2 @ [a]" "lc_capacity c' = lc_capacity c2"
      by (simp_all add: eq add_entry_def)
    have "\<forall>x \<in> ht_set (lc_table c') - {a}. x \<in> ht_set (lc_table c) \<and> lc_heap c' x = lc_heap c x"
      using hp2 st unfolding fld st' c2(3) by auto
    then show ?thesis
      using ai kept_trans [OF kept_trans [OF k0 c2(2)]] c2(5) st' by (simp add: fld)
  qed
qed

lemma cache_Insert_eq:
  "0 < lc_capacity c \<Longrightarrow> cache_Insert key hash v charge c =
     map_option (Pair (lc_next c)) (while_option (\<lambda>c. lc_usage c > lc_capacity c \<and> lc_lru c \<noteq> []) evict_oldest (inserted key hash v charge c))"
  by (cases c) (simp add: cache_Insert_def inserted_def add_entry_def insert_handle_def Let_def case_prod_unfold)

lemma cache_Insert_off:
  "\<not> 0 < lc_capacity c \<Longrightarrow> cache_Insert key hash v charge c =
     map_option (Pair (lc_next c)) (while_option (\<lambda>c. lc_usage c > lc_capacity c \<and> lc_lru c \<noteq> []) evict_oldest
       (c\<lparr>lc_next := Suc (lc_next c), lc_heap := (lc_heap c)(lc_next c \<mapsto>
          (insert_handle key hash v charge)\<lparr>lh_refs := 1, lh_in_cache := False\<rparr>)\<rparr>))"
  by (cases c) (simp add: cache_Insert_def insert_handle_def Let_def)

lemma inserted_cached:
  assumes "lc_inv c" and "card (ht_set (lc_table c)) < 2 ^ 31"
  shows "cached (inserted key hash v charge c) k h = Some w \<Longrightarrow> (k, h) \<noteq> (key, hash) \<Longrightarrow> cached c k h = Some w"
proof -
  note i = inserted_inv [OF assms, of key hash v charge]
  assume "cached (inserted key hash v charge c) k h = Some w" and ne: "(k, h) \<noteq> (key, hash)"
  then obtain b e where b: "b \<in> ht_set (lc_table (inserted key hash v charge c))" "lc_heap (inserted key hash v charge c) b = Some e"
    "lh_key e = k" "lh_hash e = h" "lh_value e = w"
    using cached_iff [OF conjunct1 [OF i]] by blast
  then have "b \<noteq> lc_next c"
    using i ne by (auto simp: insert_handle_def)
  then show "cached c k h = Some w"
    using i b cached_iff [OF assms(1)] by auto
qed

lemma cache_Insert_on:
  assumes "lc_inv c" and "card (ht_set (lc_table c)) < 2 ^ 31" and "0 < lc_capacity c"
  shows "\<exists>a c'. cache_Insert key hash v charge c = Some (a, c') \<and> lc_inv c' \<and> kept c c' \<and> client_refs c' a = 1 \<and>
    cached c' key hash = Some v \<and> (\<forall>k h w. (k, h) \<noteq> (key, hash) \<longrightarrow> cached c' k h = Some w \<longrightarrow> cached c k h = Some w) \<and>
    (lc_usage c' \<le> lc_capacity c' \<or> lc_lru c' = [])"
proof -
  let ?c = "inserted key hash v charge c" and ?a = "lc_next c"
  note i = inserted_inv [OF assms(1,2), of key hash v charge]
  obtain c' where w: "while_option (\<lambda>c. lc_usage c > lc_capacity c \<and> lc_lru c \<noteq> []) evict_oldest ?c = Some c'"
    and c': "lc_inv c'" "kept ?c c'" "shrunk ?c c'" "lc_in_use c' = lc_in_use ?c" "\<not> (lc_usage c' > lc_capacity c' \<and> lc_lru c' \<noteq> [])"
    using evict_loop [OF conjunct1 [OF i], of "\<lambda>c. lc_usage c > lc_capacity c"] by blast
  have ca: "client_refs ?c ?a = 1"
    using i by (simp add: client_refs_def insert_handle_def)
  have kc: "kept c c'"
    using i c'(2) kept_trans by blast
  have "client_refs c' ?a = 1" "map_option lh_id (lc_heap c' ?a) = Some (key, hash, v)"
    using keptD [OF c'(2), of ?a] ca i by (simp_all add: insert_handle_def lh_id_def)
  moreover have "cached c' key hash = Some v"
  proof -
    have "?a \<in> ht_set (lc_table c')"
      using i c'(4) lc_invD(5) [OF c'(1)] by auto
    then show ?thesis
      using cached_iff [OF c'(1)] \<open>map_option lh_id (lc_heap c' ?a) = Some (key, hash, v)\<close> by (auto simp: lh_id_def)
  qed
  moreover have "cached c k h = Some u" if "(k, h) \<noteq> (key, hash)" "cached c' k h = Some u" for k h u
    using inserted_cached [OF assms(1,2) _ that(1)] c'(3) that(2) unfolding shrunk_def by blast
  ultimately show ?thesis
    using w c' kc unfolding cache_Insert_eq [OF assms(3)] by (auto simp: not_less)
qed

text \<open>With capacity 0 the handle is given out without entering the cache.\<close>

lemma cache_Insert_uncached:
  assumes "lc_inv c" and "\<not> 0 < lc_capacity c"
  shows "\<exists>a c'. cache_Insert key hash v charge c = Some (a, c') \<and> lc_inv c' \<and> kept c c' \<and> shrunk c c'"
proof -
  let ?a = "lc_next c"
  define c1 where "c1 = c\<lparr>lc_next := Suc ?a, lc_heap := (lc_heap c)(?a \<mapsto> (insert_handle key hash v charge)\<lparr>lh_refs := 1, lh_in_cache := False\<rparr>)\<rparr>"
  note al = lc_inv_alloc [OF assms(1)]
  have hp: "lc_heap c1 b = lc_heap c b" if "b \<in> ht_set (lc_table c)" for b
    using that al(3) by (auto simp: c1_def)
  then have kh: "\<forall>b \<in> ht_set (lc_table c). lc_kh c b = lc_kh c1 b"
    by (simp add: lc_kh_def)
  have inv1: "lc_inv c1"
    unfolding lc_inv_def
  proof (intro conjI allI impI)
    show "ht_inv (lc_kh c1) (lc_table c1)"
      using ht_inv_cong [OF kh] lc_invD(1) [OF assms(1)] by (simp add: c1_def)
    show "lc_usage c1 = (\<Sum>a \<in> ht_set (lc_table c1). lh_charge (the (lc_heap c1 a)))"
      using lc_invD(9) [OF assms(1)] hp by (simp add: c1_def)
    fix b e
    assume b: "lc_heap c1 b = Some e"
    show "b < lc_next c1" "0 < lh_refs e" "lh_in_cache e = (b \<in> ht_set (lc_table c1))"
      using b lc_invD(6) [OF assms(1), of b] al(3) by (auto simp: c1_def split: if_splits)
    assume "b \<in> ht_set (lc_table c1)"
    then show "b \<in> set (lc_lru c1) \<longleftrightarrow> lh_refs e = 1"
      using b lc_invD(7) [OF assms(1), of b] hp [of b] by (simp add: c1_def)
  qed (use lc_invD(2-5,8) [OF assms(1)] hp in \<open>auto simp: c1_def\<close>)
  have "kept c c1"
    using al(2) by (auto simp: kept_def client_refs_def c1_def)
  moreover have tb: "lc_table c1 = lc_table c"
    by (simp add: c1_def)
  moreover have "shrunk c c1"
    unfolding shrunk_def cached_iff [OF inv1] cached_iff [OF assms(1)] tb using hp by auto
  ultimately show ?thesis
    using evict_loop [OF inv1, of "\<lambda>c. lc_usage c > lc_capacity c"] kept_trans [of c c1] shrunk_trans [of c c1]
    unfolding cache_Insert_off [OF assms(2)] c1_def [symmetric] by auto
qed

section \<open>Runs of a shard\<close>

text \<open>
  Clients insert, look up, erase and prune as they like and release only handles they hold; the hash is a
  function of the key, as \<open>HashSlice\<close> makes it.
\<close>

inductive cache_run :: "nat \<Rightarrow> 'v LRUCache \<Rightarrow> bool" for capacity :: nat where
  start: "cache_run capacity (new_LRUCache capacity)"
| insert: "cache_run capacity c \<Longrightarrow> card (ht_set (lc_table c)) < 2 ^ 31 \<Longrightarrow>
    cache_Insert key hash v charge c = Some (a, c') \<Longrightarrow> cache_run capacity c'"
| lookup: "cache_run capacity c \<Longrightarrow> cache_Lookup key hash c = (r, c') \<Longrightarrow> cache_run capacity c'"
| release: "cache_run capacity c \<Longrightarrow> 0 < client_refs c a \<Longrightarrow> cache_run capacity (cache_Release a c)"
| erase: "cache_run capacity c \<Longrightarrow> cache_run capacity (cache_Erase key hash c)"
| prune: "cache_run capacity c \<Longrightarrow> cache_Prune c = Some c' \<Longrightarrow> cache_run capacity c'"

lemma new_LRUCache_inv: "lc_inv (new_LRUCache capacity)"
  using new_HandleTable_inv by (simp add: lc_inv_def new_LRUCache_def)

lemma cache_Lookup_spec:
  assumes "lc_inv c" and "cache_Lookup key hash c = (r, c')"
  shows "lc_inv c' \<and> cached c' = cached c \<and>
    (case r of None \<Rightarrow> cached c key hash = None \<and> c' = c
     | Some a \<Rightarrow> cached c key hash = map_option lh_value (lc_heap c' a) \<and> client_refs c' = (client_refs c)(a := client_refs c a + 1))"
proof (cases r)
  case None
  then show ?thesis
    using assms by (auto simp: cache_Lookup_def Let_def cached_def)
next
  case (Some a)
  then have lk: "ht_Lookup (lc_kh c) key hash (lc_table c) = Some a" and c': "c' = Ref a c"
    using assms(2) by (auto simp: cache_Lookup_def Let_def)
  then have a: "a \<in> ht_set (lc_table c)"
    using ht_Lookup_iff [OF lc_invD(1) [OF assms(1)]] by blast
  obtain e where "lc_heap c a = Some e"
    using lc_invD(8) [OF assms(1) a] by blast
  then show ?thesis
    using Ref_inv [OF assms(1) a] same_entries_inv(4) [OF assms(1)] lk Some
    by (auto simp: c' cached_def lh_id_def dest!: spec [of _ a])
qed

lemma cache_Prune_spec:
  assumes "lc_inv c"
  shows "\<exists>c'. cache_Prune c = Some c' \<and> lc_inv c' \<and> kept c c' \<and> shrunk c c' \<and> lc_lru c' = []"
  using evict_loop [OF assms, of "\<lambda>_. True"] unfolding cache_Prune_def by auto

lemma cache_run_inv: "cache_run capacity c \<Longrightarrow> lc_inv c"
proof (induction rule: cache_run.induct)
  case (insert c key hash v charge a c')
  then show ?case
    using cache_Insert_on [of c key hash v charge] cache_Insert_uncached [of c key hash v charge] by (cases "0 < lc_capacity c") auto
next
  case (lookup c key hash r c')
  then show ?case
    using cache_Lookup_spec by blast
next
  case (release c a)
  then show ?case
    using Unref_inv [OF release.IH release.hyps(2)] by (simp add: cache_Release_def)
next
  case (erase c key hash)
  then show ?case
    using cache_Erase_inv by blast
next
  case (prune c c')
  then show ?case
    using cache_Prune_spec by fastforce
qed (rule new_LRUCache_inv)

section \<open>Properties\<close>

text \<open>C23: In every state that clients can reach, an insertion into a cache that is turned on returns: the eviction loop ends.
  The key then maps to the new value, every other key to what it mapped to or to nothing, and no
  handle that a client holds is freed or changed. The charge of the cache is within its capacity
  unless everything that is left is in use.\<close>

theorem cache_insert:
  assumes "cache_run capacity c" and "card (ht_set (lc_table c)) < 2 ^ 31" and "0 < lc_capacity c"
  shows "\<exists>a c'. cache_Insert key hash v charge c = Some (a, c') \<and> kept c c' \<and> client_refs c' a = 1 \<and>
    cached c' key hash = Some v \<and> (\<forall>k h w. (k, h) \<noteq> (key, hash) \<longrightarrow> cached c' k h = Some w \<longrightarrow> cached c k h = Some w) \<and>
    (lc_usage c' \<le> lc_capacity c' \<or> lc_lru c' = [])"
  using cache_Insert_on [OF cache_run_inv [OF assms(1)] assms(2,3), of key hash v charge] by blast

theorem cache_insert_witness:
  "\<exists>a c'. cache_Insert [1] 5 True 1 (new_LRUCache 10) = Some (a, c') \<and> client_refs c' a = 1 \<and> cached c' [1] 5 = Some True"
  using cache_insert [OF cache_run.start [of 10], of "[1]" 5 True 1] new_HandleTable_inv by (auto simp: new_LRUCache_def)



end
