(* ===== verification/Cache_Interface.thy ===== *)
theory Cache_Interface
  imports Cache
begin

text \<open>
  \<^verbatim>\<open>include/leveldb/cache.h\<close>: the methods of a cache that its clients call, as a record, and what clients rely on: a
  cache holds only values that were inserted under their key. The sharded LRU cache provides the interface.
\<close>

record ('h, 'v, 'c) CacheOps =
  ca_Insert :: "slice \<Rightarrow> 'v \<Rightarrow> nat \<Rightarrow> 'c \<Rightarrow> 'h \<times> 'c"
  ca_Lookup :: "slice \<Rightarrow> 'c \<Rightarrow> 'h option \<times> 'c"
  ca_Release :: "'h \<Rightarrow> 'c \<Rightarrow> 'c"
  ca_Value :: "'h \<Rightarrow> 'c \<Rightarrow> 'v"
  ca_Erase :: "slice \<Rightarrow> 'c \<Rightarrow> 'c"
  ca_NewId :: "'c \<Rightarrow> u64 \<times> 'c"

text \<open>An insertion that never returns leaves the cache as it was; in reachable states insertions return.\<close>

definition ShardedCache :: "(nat \<times> nat, 'v, 'v ShardedLRUCache) CacheOps" where
  "ShardedCache =
     \<lparr>ca_Insert = (\<lambda>k v n c. case sc_Insert k v n c of None \<Rightarrow> ((0, 0), c) | Some r \<Rightarrow> r), ca_Lookup = sc_Lookup,
      ca_Release = sc_Release, ca_Value = (\<lambda>h c. the (sc_Value h c)), ca_Erase = sc_Erase, ca_NewId = sc_NewId\<rparr>"

locale value_cache =
  fixes ca :: "('h, 'v, 'c) CacheOps" and stored :: "(slice \<Rightarrow> 'v \<Rightarrow> bool) \<Rightarrow> 'c \<Rightarrow> bool"
  assumes lookup: "stored G c \<Longrightarrow> k \<noteq> [] \<Longrightarrow> ca_Lookup ca k c = (r, c') \<Longrightarrow>
      stored G c' \<and> (\<forall>h. r = Some h \<longrightarrow> G k (ca_Value ca h c'))"
    and insert: "stored G c \<Longrightarrow> G k v \<Longrightarrow> ca_Insert ca k v n c = (h, c') \<Longrightarrow> stored G c'"
    and release: "stored G c \<Longrightarrow> stored G (ca_Release ca h c)"
    and erase: "stored G c \<Longrightarrow> stored G (ca_Erase ca k c)"
    and new_id: "stored G c \<Longrightarrow> stored G (snd (ca_NewId ca c))"
    and weaken: "stored G c \<Longrightarrow> (\<And>k v. G k v \<Longrightarrow> G' k v) \<Longrightarrow> stored G' c"

section \<open>The values a shard holds\<close>

definition lc_holds :: "(slice \<Rightarrow> 'v \<Rightarrow> bool) \<Rightarrow> 'v LRUCache \<Rightarrow> bool" where
  "lc_holds G c \<longleftrightarrow> (\<forall>a e. lc_heap c a = Some e \<longrightarrow> G (lh_key e) (lh_value e))"

lemma lc_holds_cong: "lc_heap c' = lc_heap c \<Longrightarrow> lc_holds G c' = lc_holds G c"
  by (simp add: lc_holds_def)

lemma lc_holds_update:
  "lc_holds G c \<Longrightarrow> G (lh_key e) (lh_value e) \<Longrightarrow> lc_holds G (c\<lparr>lc_heap := (lc_heap c)(a \<mapsto> e)\<rparr>)"
  "lc_holds G c \<Longrightarrow> lc_holds G (c\<lparr>lc_heap := (lc_heap c)(a := None)\<rparr>)"
  by (auto simp: lc_holds_def)

lemma lc_holdsD: "lc_holds G c \<Longrightarrow> lc_heap c a = Some e \<Longrightarrow> G (lh_key e) (lh_value e)"
  by (simp add: lc_holds_def)

lemma Ref_holds: "lc_holds G c \<Longrightarrow> lc_holds G (Ref a c)"
  by (auto simp: Ref_def Let_def lc_holds_def LRU_Remove_def split: option.split)

lemma Unref_holds: "lc_holds G c \<Longrightarrow> lc_holds G (Unref a c)"
  by (auto simp: Unref_def Let_def lc_holds_def LRU_Remove_def split: option.split if_splits)

lemma FinishErase_holds:
  assumes "lc_holds G c"
  shows "lc_holds G (FinishErase e c)"
proof -
  have "lc_holds G (Unref a (c\<lparr>lc_lru := l, lc_in_use := u, lc_heap := (lc_heap c)(a \<mapsto> h\<lparr>lh_in_cache := False\<rparr>), lc_usage := n\<rparr>))"
    if "lc_heap c a = Some h" for a h l u n
    using assms that by (intro Unref_holds) (auto simp: lc_holds_def)
  then show ?thesis
    using assms by (auto simp: FinishErase_def LRU_Remove_def Let_def split: option.split)
qed

lemma cache_Erase_holds: "lc_holds G c \<Longrightarrow> lc_holds G (cache_Erase k h c)"
  by (auto simp: cache_Erase_def lc_holds_cong [of "c\<lparr>lc_table := _\<rparr>" c] intro!: FinishErase_holds split: prod.split)

lemma evict_holds: "while_option P evict_oldest c = Some c' \<Longrightarrow> lc_holds G c \<Longrightarrow> lc_holds G c'"
  by (rule while_option_rule [where P = "lc_holds G"]) (auto simp: evict_oldest_def cache_Erase_holds split: prod.split)

lemma cache_Insert_holds:
  assumes "cache_Insert k h v n c = Some (a, c')" "lc_holds G c" "G k v"
  shows "lc_holds G c'"
proof -
  have "lc_holds G (FinishErase old (c\<lparr>lc_next := x, lc_heap := (lc_heap c)(a \<mapsto> e), lc_in_use := y, lc_usage := z, lc_table := t\<rparr>))"
    if "lh_key e = k" "lh_value e = v" for old x y z t e a
    using assms(2,3) that by (intro FinishErase_holds) (auto simp: lc_holds_def)
  moreover have "lc_holds G (c\<lparr>lc_next := x, lc_heap := (lc_heap c)(a \<mapsto> e)\<rparr>)" if "lh_key e = k" "lh_value e = v" for x e a
    using assms(2,3) that by (auto simp: lc_holds_def)
  ultimately show ?thesis
    using assms(1) unfolding cache_Insert_def Let_def
    by (auto elim!: evict_holds split: prod.splits if_splits)
qed

lemma cache_Lookup_holds:
  assumes "cache_Lookup k h c = (r, c')" "lc_holds G c" "k \<noteq> []"
  shows "lc_holds G c' \<and> (\<forall>a. r = Some a \<longrightarrow> (\<exists>e. lc_heap c' a = Some e \<and> G k (lh_value e)))"
proof -
  have c': "c' = (case r of None \<Rightarrow> c | Some a \<Rightarrow> Ref a c)" and r: "r = ht_Lookup (lc_kh c) k h (lc_table c)"
    using assms(1) by (auto simp: cache_Lookup_def Let_def)
  have "\<exists>e. lc_heap (Ref a c) a = Some e \<and> G k (lh_value e)" if "r = Some a" for a
  proof -
    have "fst (lc_kh c a) = k"
      using that r by (auto simp: ht_Lookup_def ht_at_def FindPointer_def Let_def dest!: nth_length_takeWhile split: if_splits option.splits)
    then obtain e where "lc_heap c a = Some e" "lh_key e = k"
      using assms(3) by (auto simp: lc_kh_def split: option.splits)
    then show ?thesis
      using lc_holdsD [OF assms(2)] by (auto simp: Ref_def Let_def LRU_Remove_def)
  qed
  then show ?thesis
    using assms(2) Ref_holds by (auto simp: c' split: option.splits)
qed

section \<open>The sharded cache\<close>

definition sc_holds :: "(slice \<Rightarrow> 'v \<Rightarrow> bool) \<Rightarrow> 'v ShardedLRUCache \<Rightarrow> bool" where
  "sc_holds G s \<longleftrightarrow> length (sc_shard s) = kNumShards \<and> (\<forall>c \<in> set (sc_shard s). lc_holds G c)"

lemma Shard_bound: "Shard hash < kNumShards"
  using unat_less_exp [of hash]
  by (simp add: Shard_def kNumShards_def kNumShardBits_def drop_bit_eq_div unat_div less_mult_imp_div_less)

lemma sc_holds_shard: "sc_holds G s \<Longrightarrow> lc_holds G (sc_shard s ! Shard h)"
  using Shard_bound [of h] by (simp add: sc_holds_def)

lemma sc_holds_update: "sc_holds G s \<Longrightarrow> lc_holds G c \<Longrightarrow> sc_holds G (s\<lparr>sc_shard := (sc_shard s)[i := c]\<rparr>)"
  by (auto simp: sc_holds_def dest!: set_update_subset_insert [THEN subsetD])

interpretation sharded: value_cache ShardedCache sc_holds
proof (unfold_locales, goal_cases)
  case (1 G c k r c')
  obtain e c1 where l: "cache_Lookup k (HashSlice k) (sc_shard c ! Shard (HashSlice k)) = (e, c1)" by fastforce
  then have "r = map_option (\<lambda>a. (Shard (HashSlice k), a)) e" "c' = c\<lparr>sc_shard := (sc_shard c)[Shard (HashSlice k) := c1]\<rparr>"
    using 1(3) by (auto simp: ShardedCache_def sc_Lookup_def Let_def)
  moreover note cache_Lookup_holds [OF l sc_holds_shard [OF 1(1)] 1(2)]
  ultimately show ?case
    using sc_holds_update [OF 1(1)] 1(1) Shard_bound [of "HashSlice k"]
    by (auto simp: ShardedCache_def sc_Value_def sc_holds_def)
next
  case (2 G c k v n h c')
  show ?case
  proof (cases "sc_Insert k v n c")
    case None
    then show ?thesis using 2 by (simp add: ShardedCache_def)
  next
    case (Some r)
    then obtain a c1 where "cache_Insert k (HashSlice k) v n (sc_shard c ! Shard (HashSlice k)) = Some (a, c1)"
      "c' = c\<lparr>sc_shard := (sc_shard c)[Shard (HashSlice k) := c1]\<rparr>"
      using 2(3) by (auto simp: ShardedCache_def sc_Insert_def Let_def)
    then show ?thesis
      using cache_Insert_holds sc_holds_shard 2(1,2) sc_holds_update by metis
  qed
next
  case (3 G c h)
  show ?case
  proof (cases "fst h < length (sc_shard c)")
    case True
    then have "lc_holds G (sc_shard c ! fst h)" using 3 by (simp add: sc_holds_def)
    then show ?thesis
      using 3 by (simp add: ShardedCache_def sc_Release_def cache_Release_def sc_holds_update Unref_holds)
  qed (use 3 in \<open>simp add: ShardedCache_def sc_Release_def list_update_beyond not_less\<close>)
next
  case (4 G c k)
  then show ?case
    by (simp add: ShardedCache_def sc_Erase_def Let_def sc_holds_update cache_Erase_holds sc_holds_shard)
next
  case (5 G c)
  then show ?case
    by (simp add: ShardedCache_def sc_NewId_def sc_holds_def)
next
  case (6 G c G')
  then show ?case
    by (auto simp: sc_holds_def lc_holds_def)
qed

lemma NewLRUCache_holds: "sc_holds G (NewLRUCache capacity)"
  by (simp add: NewLRUCache_def sc_holds_def lc_holds_def new_LRUCache_def)

end
