(* ===== verification/Table.thy ===== *)
theory Table
  imports Table_Builder Two_Level Cache_Interface
begin

text \<open>
  \<^verbatim>\<open>table/table.cpp\<close>: opening a table, iterating over it and looking up a key, with the block cache as an interface. The
  world of an operation is the world of the file and the state of the block cache. A table that the builder has finished is
  shown to open and to give back its entries through its iterator and its lookup.
\<close>

section \<open>Model\<close>

text \<open>\<open>Block::NewIterator\<close> returns an iterator over the block or an empty one with an error status.\<close>

definition sum_Iterator :: "'a Iterator \<Rightarrow> 'b Iterator \<Rightarrow> ('a + 'b) Iterator" where
  "sum_Iterator a b =
     \<lparr>i_Valid = case_sum (i_Valid a) (i_Valid b), i_SeekToFirst = map_sum (i_SeekToFirst a) (i_SeekToFirst b),
      i_SeekToLast = map_sum (i_SeekToLast a) (i_SeekToLast b), i_Seek = (\<lambda>t. map_sum (i_Seek a t) (i_Seek b t)),
      i_Next = map_sum (i_Next a) (i_Next b), i_Prev = map_sum (i_Prev a) (i_Prev b),
      i_key = case_sum (i_key a) (i_key b), i_value = case_sum (i_value a) (i_value b), i_status = case_sum (i_status a) (i_status b)\<rparr>"

definition any_Block :: "comparator \<Rightarrow> (status + BlockIter) Iterator" where
  "any_Block c = sum_Iterator EmptyIterator (BlockIterator c)"

record 'w Table =
  t_options :: Options
  t_file :: "'w RandomAccessFile"
  t_cache_id :: u64
  t_filter :: "FilterBlockReader option"
  t_metaindex_handle :: BlockHandle
  t_index_block :: BlockT

definition paranoid_ReadOptions :: "Options \<Rightarrow> ReadOptions" where
  "paranoid_ReadOptions options =
     (if opt_paranoid_checks options then default_ReadOptions\<lparr>ro_verify_checksums := True\<rparr> else default_ReadOptions)"

definition ReadFilter :: "snappy \<Rightarrow> slice \<Rightarrow> 'w Table \<Rightarrow> 'w \<Rightarrow> 'w Table \<times> 'w" where
  "ReadFilter sn filter_handle_value t w =
     (case BlockHandle_DecodeFrom filter_handle_value of
        Inl s \<Rightarrow> (t, w)
      | Inr (filter_handle, v) \<Rightarrow>
          (case ReadBlock sn (t_file t) (paranoid_ReadOptions (t_options t)) filter_handle w of
             (Inl s, w) \<Rightarrow> (t, w)
           | (Inr block, w) \<Rightarrow> (t\<lparr>t_filter := Some (make_FilterBlockReader (bc_data block))\<rparr>, w)))"

definition ReadMeta :: "snappy \<Rightarrow> Footer \<Rightarrow> 'w Table \<Rightarrow> 'w \<Rightarrow> 'w Table \<times> 'w" where
  "ReadMeta sn footer t w =
     (case opt_filter_policy (t_options t) of
        None \<Rightarrow> (t, w)
      | Some policy \<Rightarrow>
          (case ReadBlock sn (t_file t) (paranoid_ReadOptions (t_options t)) (ft_metaindex_handle footer) w of
             (Inl s, w) \<Rightarrow> (t, w)
           | (Inr contents, w) \<Rightarrow>
               let it = any_Block BytewiseComparator;
                   iter = i_Seek it (filter_key policy) (Block_NewIterator (make_Block (bc_data contents)))
               in if i_Valid it iter \<and> Slice_eq (i_key it iter) (filter_key policy) then ReadFilter sn (i_value it iter) t w
                  else (t, w)))"

definition Table_Open ::
  "snappy \<Rightarrow> ('h, BlockT, 'c) CacheOps \<Rightarrow> Options \<Rightarrow> 'w RandomAccessFile \<Rightarrow> u64 \<Rightarrow> 'w \<times> 'c \<Rightarrow> (status + 'w Table) \<times> 'w \<times> 'c"
where
  "Table_Open sn ca options rf sz = (\<lambda>(w, c).
     if sz < word_of_nat Footer_kEncodedLength
     then (Inl (Corruption (str ''file is too short to be an sstable'') []), w, c)
     else
       let (s, footer_input, w) = ra_Read rf (sz - word_of_nat Footer_kEncodedLength) Footer_kEncodedLength w
       in if \<not> ok s then (Inl s, w, c)
          else case Footer_DecodeFrom footer_input of
                 Inl s \<Rightarrow> (Inl s, w, c)
               | Inr (footer, _) \<Rightarrow>
                   (case ReadBlock sn rf (paranoid_ReadOptions options) (ft_index_handle footer) w of
                      (Inl s, w) \<Rightarrow> (Inl s, w, c)
                    | (Inr contents, w) \<Rightarrow>
                        let (cache_id, c) = (if opt_block_cache options then ca_NewId ca c else (0, c));
                            t = \<lparr>t_options = options, t_file = rf, t_cache_id = cache_id, t_filter = None,
                                 t_metaindex_handle = ft_metaindex_handle footer, t_index_block = make_Block (bc_data contents)\<rparr>;
                            (t, w) = ReadMeta sn footer t w
                        in (Inr t, w, c)))"

definition cache_key :: "u64 \<Rightarrow> u64 \<Rightarrow> slice" where
  "cache_key cache_id off = EncodeFixed64 cache_id @ EncodeFixed64 off"

text \<open>The second component of the result is the cleanup that is registered with the iterator.\<close>

definition BlockReader ::
  "snappy \<Rightarrow> ('h, BlockT, 'c) CacheOps \<Rightarrow> 'w Table \<Rightarrow> ReadOptions \<Rightarrow> (status + BlockIter, 'w \<times> 'c) block_function"
where
  "BlockReader sn ca t options index_value = (\<lambda>(w, c).
     case BlockHandle_DecodeFrom index_value of
       Inl s \<Rightarrow> ((Inl (NewErrorIterator s), id), w, c)
     | Inr (handle, input) \<Rightarrow>
         if opt_block_cache (t_options t) then
           let key = cache_key (t_cache_id t) (bh_offset handle);
               (cache_handle, c) = ca_Lookup ca key c
           in case cache_handle of
                Some h \<Rightarrow> ((Block_NewIterator (ca_Value ca h c), \<lambda>(w, c). (w, ca_Release ca h c)), w, c)
              | None \<Rightarrow>
                  (case ReadBlock sn (t_file t) options handle w of
                     (Inl s, w) \<Rightarrow> ((Inl (NewErrorIterator s), id), w, c)
                   | (Inr contents, w) \<Rightarrow>
                       let block = make_Block (bc_data contents)
                       in if bc_cachable contents \<and> ro_fill_cache options then
                            let (h, c) = ca_Insert ca key block (blk_size block) c
                            in ((Block_NewIterator block, \<lambda>(w, c). (w, ca_Release ca h c)), w, c)
                          else ((Block_NewIterator block, id), w, c))
         else
           (case ReadBlock sn (t_file t) options handle w of
              (Inl s, w) \<Rightarrow> ((Inl (NewErrorIterator s), id), w, c)
            | (Inr contents, w) \<Rightarrow> ((Block_NewIterator (make_Block (bc_data contents)), id), w, c)))"

definition TableIterator ::
  "snappy \<Rightarrow> ('h, BlockT, 'c) CacheOps \<Rightarrow> 'w Table \<Rightarrow> ReadOptions \<Rightarrow>
   (status + BlockIter, status + BlockIter, 'w \<times> 'c) TwoLevelIterator Iterator"
where
  "TableIterator sn ca t options =
     (let it = any_Block (opt_comparator (t_options t)) in TwoLevel it it (BlockReader sn ca t options))"

definition Table_NewIterator :: "'w Table \<Rightarrow> 'w \<times> 'c \<Rightarrow> (status + BlockIter, status + BlockIter, 'w \<times> 'c) TwoLevelIterator" where
  "Table_NewIterator t wc =
     (let it = any_Block (opt_comparator (t_options t)) in new_TwoLevelIterator it it (Block_NewIterator (t_index_block t)) wc)"

text \<open>The entry that \<open>InternalGet\<close> passes to the callback, if it calls it.\<close>

definition InternalGet ::
  "snappy \<Rightarrow> ('h, BlockT, 'c) CacheOps \<Rightarrow> 'w Table \<Rightarrow> ReadOptions \<Rightarrow> slice \<Rightarrow> 'w \<times> 'c \<Rightarrow> status \<times> (slice \<times> slice) option \<times> 'w \<times> 'c"
where
  "InternalGet sn ca t options k wc =
     (let it = any_Block (opt_comparator (t_options t));
          iiter = i_Seek it k (Block_NewIterator (t_index_block t));
          (s, saved, wc) =
            (if i_Valid it iiter then
               let handle_value = i_value it iiter
               in if (case (t_filter t, opt_filter_policy (t_options t)) of
                        (Some r, Some policy) \<Rightarrow>
                          (case BlockHandle_DecodeFrom handle_value of
                             Inl _ \<Rightarrow> False
                           | Inr (handle, _) \<Rightarrow> \<not> FilterBlock_KeyMayMatch policy r (bh_offset handle) k)
                      | _ \<Rightarrow> False)
                  then (OK, None, wc)
                  else
                    let ((block_iter, cleanup), wc) = BlockReader sn ca t options handle_value wc;
                        block_iter = i_Seek it k block_iter
                    in (i_status it block_iter,
                        if i_Valid it block_iter then Some (i_key it block_iter, i_value it block_iter) else None,
                        cleanup wc)
             else (OK, None, wc))
      in (if ok s then i_status it iiter else s, saved, wc))"

definition Table_ApproximateOffsetOf :: "'w Table \<Rightarrow> slice \<Rightarrow> u64" where
  "Table_ApproximateOffsetOf t key =
     (let it = any_Block (opt_comparator (t_options t));
          index_iter = i_Seek it key (Block_NewIterator (t_index_block t))
      in if i_Valid it index_iter then
           (case BlockHandle_DecodeFrom (i_value it index_iter) of
              Inl _ \<Rightarrow> bh_offset (t_metaindex_handle t)
            | Inr (handle, _) \<Rightarrow> bh_offset handle)
         else bh_offset (t_metaindex_handle t))"

section \<open>Iterators over the blocks of a table\<close>

lemma sum_seq_iterator:
  assumes "seq_iterator b cmp es I pos"
  shows "seq_iterator (sum_Iterator a b) cmp es (case_sum (\<lambda>_. False) I) (case_sum (\<lambda>_. 0) pos)"
  using seq_iterator.pos_le [OF assms] seq_iterator.valid [OF assms] seq_iterator.key [OF assms] seq_iterator.val [OF assms]
    seq_iterator.first [OF assms] seq_iterator.last [OF assms] seq_iterator.seek [OF assms] seq_iterator.step [OF assms]
    seq_iterator.prev [OF assms] seq_iterator.status_ok [OF assms]
  by (intro seq_iterator.intro; simp add: sum_Iterator_def split: sum.splits; force)

lemma any_block_iterator:
  assumes "three_way (Compare c)" and "0 < n" and "sorted_wrt (\<lambda>a b. Compare c (fst a) (fst b) < 0) es" and "length (block_bytes n es) < 2 ^ 32"
  shows "\<exists>I pos. I (Block_NewIterator (make_Block (block_bytes n es))) \<and> seq_iterator (any_Block c) (Compare c) es I pos"
proof -
  obtain s I pos where "Block_NewIterator (make_Block (block_bytes n es)) = Inr s" "I s" "seq_iterator (BlockIterator c) (Compare c) es I pos"
    using built_block_iterator [OF assms(1-3), folded block_bytes_def, OF assms(4)] by (elim exE conjE) (rule that)
  then show ?thesis
    using sum_seq_iterator [of "BlockIterator c" "Compare c" es I pos EmptyIterator]
    by (intro exI [of _ "case_sum (\<lambda>_. False) I"] exI [of _ "case_sum (\<lambda>_. 0) pos"]) (simp add: any_Block_def)
qed

lemma block_at_raw:
  assumes "snappy_laws sn" "block_at sn data h raw" "length data < 2 ^ 32"
  shows "length raw < 2 ^ 32"
proof -
  obtain type stored where s: "unat (bh_size h) = length stored" "case type of kNoCompression \<Rightarrow> stored = raw
      | kSnappyCompression \<Rightarrow> Snappy_GetUncompressedLength sn stored = Some (length raw) \<and> Snappy_Uncompress sn stored = Some raw"
    using assms(2) by (auto simp: block_at_def)
  have "length stored < 2 ^ 32"
    using block_at_bound [OF assms(2)] assms(3) s(1) by simp
  then show ?thesis
    using s(2) snappy_laws.limit [OF assms(1)] by (cases type) auto
qed

lemma layout_take_less:
  assumes "i < j" "j \<le> length bs"
  shows "length (layout (take i bs)) < length (layout (take j bs))"
proof -
  have "take j bs = take i bs @ bs ! i # drop (Suc i) (take j bs)"
    using assms id_take_nth_drop [of i "take j bs"] by simp
  then have "layout (take j bs) = layout (take i bs) @ layout (bs ! i # drop (Suc i) (take j bs))"
    by (metis layout_append(1))
  then show ?thesis by (simp add: kBlockTrailerSize_def)
qed

lemma handle_at_inj:
  assumes "i < length bs" "j < length bs" "bh_offset (handle_at bs i) = bh_offset (handle_at bs j)" "length (layout bs) < 2 ^ 31"
  shows "i = j"
proof -
  have le: "length (layout (take k bs)) < 2 ^ 31" if "k < length bs" for k
    using layout_take_less [of k "length bs" bs] that assms(4) by simp
  have "word_of_nat (length (layout (take i bs))) = (word_of_nat (length (layout (take j bs))) :: u64)"
    using assms(3) by (simp add: handle_at_def)
  then have "length (layout (take i bs)) = length (layout (take j bs))"
    using le [OF assms(1)] le [OF assms(2)] by (simp add: word_of_nat_eq_iff take_bit_nat_eq_self)
  then show ?thesis
    using layout_take_less [of i j bs] layout_take_less [of j i bs] assms(1,2) by (metis less_imp_le nat_neq_iff)
qed

lemma cache_key_inj: "cache_key i off = cache_key i off' \<longleftrightarrow> off = off'" "cache_key i off \<noteq> []"
proof -
  show "cache_key i off = cache_key i off' \<longleftrightarrow> off = off'"
    using DecodeFixed64_Encode [of off "[]"] DecodeFixed64_Encode [of off' "[]"] by (metis append_Nil2 cache_key_def same_append_eq)
  have "length (cache_key i off) = 16" by (simp add: cache_key_def)
  then show "cache_key i off \<noteq> []" by auto
qed

section \<open>Opening a finished table\<close>

lemma seek_single:
  assumes "three_way (Compare c)" "0 < n" "length (block_bytes n [(k, v)]) < 2 ^ 32"
  shows "let iter = i_Seek (any_Block c) k (Block_NewIterator (make_Block (block_bytes n [(k, v)])))
    in i_Valid (any_Block c) iter \<and> i_key (any_Block c) iter = k \<and> i_value (any_Block c) iter = v"
proof -
  obtain I pos where i: "I (Block_NewIterator (make_Block (block_bytes n [(k, v)])))" "seq_iterator (any_Block c) (Compare c) [(k, v)] I pos"
    using any_block_iterator [OF assms(1,2) _ assms(3)] by auto
  have "lower_bound (Compare c) k [(k, v)] = 0"
    using three_way.cmp_refl [OF assms(1), of k] by (simp add: lower_bound_def)
  then show ?thesis
    using seq_iterator.seek [OF i(2,1), of k] seq_iterator.valid [OF i(2)] seq_iterator.key [OF i(2)] seq_iterator.val [OF i(2)]
    by (simp add: Let_def)
qed

lemma footer_position:
  assumes "n + 48 < 2 ^ 31"
  shows "unat (word_of_nat (n + 48) - word_of_nat Footer_kEncodedLength :: u64) = n"
    "\<not> (word_of_nat (n + 48) :: u64) < word_of_nat Footer_kEncodedLength"
  using assms
  by (simp_all del: of_nat_add add: Footer_kEncodedLength_def kMaxEncodedLength_def unat_sub word_le_nat_alt unat_of_nat word_less_nat_alt)

context table_format
begin

definition filter_reader :: "stored_block list \<Rightarrow> entries list \<Rightarrow> FilterBlockReader option" where
  "filter_reader bs ess =
     map_option (\<lambda>p. make_FilterBlockReader (build_filter_block p (filter_calls bs ess @ [(word_of_nat (length (layout bs)), [])])))
       (opt_filter_policy options)"

definition opened :: "stored_block list \<Rightarrow> entries list \<Rightarrow> entries \<Rightarrow> 'w RandomAccessFile \<Rightarrow> 'w Table \<Rightarrow> bool" where
  "opened bs ess ixs rf t \<longleftrightarrow> t_options t = options \<and> t_file t = rf \<and> t_index_block t = make_Block (block_bytes 1 ixs) \<and>
     t_filter t = filter_reader bs ess"

lemma table_file_blocks:
  assumes "table_file data bs ess ixs" "length data < 2 ^ 31" "i < length bs"
  shows "block_at sn data (handle_at bs i) (block_bytes ri (ess ! i))" "length (block_bytes ri (ess ! i)) < 2 ^ 32"
proof -
  obtain meta idx ft where d: "data = layout (bs @ filter_blocks bs ess @ [meta, idx]) @ ft" and b: "blocks_ok bs ess"
    using assms(1) by (auto simp: table_file_def Let_def)
  let ?all = "bs @ filter_blocks bs ess @ [meta, idx]"
  have st: "stores sn (?all ! i) (block_bytes ri (ess ! i))"
    using b assms(3) by (simp add: blocks_ok_def nth_append)
  show "block_at sn data (handle_at bs i) (block_bytes ri (ess ! i))"
    using block_at_layout [of i ?all, OF _ st, of ft] assms(2,3) by (simp add: d del: layout_append layout_Cons)
  then show "length (block_bytes ri (ess ! i)) < 2 ^ 32"
    using block_at_raw [OF snappy_laws_axioms] assms(2) by fastforce
qed

lemma ReadMeta_ok:
  assumes rf: "random_access_file rf holds" and h: "holds data w" and small: "length data < 2 ^ 31"
    and at: "\<And>i raw. i < length (bs @ filter_blocks bs ess @ [meta, idx]) \<Longrightarrow> stores sn ((bs @ filter_blocks bs ess @ [meta, idx]) ! i) raw \<Longrightarrow>
      block_at sn data (handle_at (bs @ filter_blocks bs ess @ [meta, idx]) i) raw"
    and meta: "stores sn meta (block_bytes ri (meta_entries bs ess))"
    and rm: "ReadMeta sn ft t w = (t', w')"
    and t: "t_options t = options" "t_file t = rf" "t_filter t = None"
    and ft: "ft_metaindex_handle ft = handle_at (bs @ filter_blocks bs ess @ [meta, idx]) (length bs + length (filter_blocks bs ess))"
  shows "holds data w' \<and> t' = t\<lparr>t_filter := filter_reader bs ess\<rparr>"
proof (cases "opt_filter_policy options")
  case None
  then show ?thesis using rm t h by (auto simp: ReadMeta_def filter_reader_def)
next
  case (Some p)
  let ?all = "bs @ filter_blocks bs ess @ [meta, idx]" and ?m = "length bs + length (filter_blocks bs ess)"
  let ?fb = "build_filter_block p (filter_calls bs ess @ [(word_of_nat (length (layout bs)), [])])"
  have fbs: "filter_blocks bs ess = [(kNoCompression, ?fb)]" using Some by (simp add: filter_blocks_def)
  let ?fh = "handle_at ?all (length bs)"
  have me: "meta_entries bs ess = [(filter_key p, BlockHandle_EncodeTo ?fh [])]"
    using Some by (simp add: meta_entries_def fbs handle_at_def)
  have atm: "block_at sn data (handle_at ?all ?m) (block_bytes ri (meta_entries bs ess))"
    by (rule at) (use meta in \<open>simp_all add: nth_append\<close>)
  obtain bc w1 where r1: "ReadBlock sn rf (paranoid_ReadOptions options) (handle_at ?all ?m) w = (Inr bc, w1)"
    "bc_data bc = block_bytes ri (meta_entries bs ess)" "holds data w1"
    using random_access_file.ReadBlock_at [OF rf h atm] by blast
  have atf: "block_at sn data ?fh ?fb"
    by (rule at) (simp_all add: fbs nth_append stores_def)
  obtain bf w2 where r2: "ReadBlock sn rf (paranoid_ReadOptions options) ?fh w1 = (Inr bf, w2)" "bc_data bf = ?fb" "holds data w2"
    using random_access_file.ReadBlock_at [OF rf r1(3) atf] by blast
  have "length (block_bytes ri (meta_entries bs ess)) < 2 ^ 32"
    using block_at_raw [OF snappy_laws_axioms atm] small by simp
  then have sk: "let iter = i_Seek (any_Block BytewiseComparator) (filter_key p) (Block_NewIterator (make_Block (bc_data bc)))
    in i_Valid (any_Block BytewiseComparator) iter \<and> i_key (any_Block BytewiseComparator) iter = filter_key p \<and>
       i_value (any_Block BytewiseComparator) iter = BlockHandle_EncodeTo ?fh []"
    unfolding r1(2) me using interval by (intro seek_single bytewise.three_way_axioms) simp_all
  have "ReadFilter sn (BlockHandle_EncodeTo ?fh []) t w1 = (t\<lparr>t_filter := Some (make_FilterBlockReader ?fb)\<rparr>, w2)"
    using r2 t by (simp add: ReadFilter_def)
  then have "(t', w') = (t\<lparr>t_filter := Some (make_FilterBlockReader ?fb)\<rparr>, w2)"
    using rm r1(1) sk t ft Some by (simp add: ReadMeta_def Let_def Slice_eq_iff)
  then show ?thesis using r2(3) Some by (simp add: filter_reader_def)
qed

lemma Table_Open_ok:
  assumes rf: "random_access_file rf holds" and h: "holds data w" and tf: "table_file data bs ess ixs"
  shows "\<exists>t w'. Table_Open sn ca options rf (word_of_nat (length data)) (w, c) =
      (Inr t, w', if opt_block_cache options then snd (ca_NewId ca c) else c) \<and> holds data w' \<and> opened bs ess ixs rf t \<and>
      t_cache_id t = (if opt_block_cache options then fst (ca_NewId ca c) else 0)"
proof -
  have small: "length data < 2 ^ 31" by (rule random_access_file.small [OF rf h])
  note rb = random_access_file.ReadBlock_at [OF rf]
  obtain meta idx where tf': "data = layout (bs @ filter_blocks bs ess @ [meta, idx]) @
      Footer_EncodeTo \<lparr>ft_metaindex_handle = handle_at (bs @ filter_blocks bs ess @ [meta, idx]) (length bs + length (filter_blocks bs ess)),
        ft_index_handle = handle_at (bs @ filter_blocks bs ess @ [meta, idx]) (Suc (length bs + length (filter_blocks bs ess)))\<rparr> []"
    "stores sn meta (block_bytes ri (meta_entries bs ess))" "stores sn idx (block_bytes 1 ixs)"
    using tf by (auto simp: table_file_def Let_def)
  let ?all = "bs @ filter_blocks bs ess @ [meta, idx]" and ?m = "length bs + length (filter_blocks bs ess)"
  let ?ft = "\<lparr>ft_metaindex_handle = handle_at ?all ?m, ft_index_handle = handle_at ?all (Suc ?m)\<rparr>"
  have at: "block_at sn data (handle_at ?all i) raw" if "i < length ?all" "stores sn (?all ! i) raw" for i raw
    unfolding tf'(1) by (rule block_at_layout [OF that]) (use small tf'(1) in simp)
  have len: "length data = length (layout ?all) + 48" unfolding tf'(1) by simp
  have size: "unat (word_of_nat (length data) - word_of_nat Footer_kEncodedLength :: u64) = length (layout ?all)"
    "\<not> (word_of_nat (length data) :: u64) < word_of_nat Footer_kEncodedLength"
    using footer_position [of "length (layout ?all)"] small unfolding len by simp_all
  have "drop (length (layout ?all)) data = Footer_EncodeTo ?ft []"
    unfolding tf'(1) by (simp del: layout_append)
  then obtain w1 where r1: "ra_Read rf (word_of_nat (length data) - word_of_nat Footer_kEncodedLength) Footer_kEncodedLength w = (OK, Footer_EncodeTo ?ft [], w1)"
    and h1: "holds data w1"
    using random_access_file.read [OF rf h, of "word_of_nat (length data) - word_of_nat Footer_kEncodedLength" Footer_kEncodedLength] size(1) len
    by (auto simp: Footer_kEncodedLength_def kMaxEncodedLength_def)
  have "block_at sn data (handle_at ?all (Suc ?m)) (block_bytes 1 ixs)"
    by (rule at) (use tf'(3) in \<open>simp_all add: nth_append\<close>)
  then obtain bc w2 where r2: "ReadBlock sn rf (paranoid_ReadOptions options) (handle_at ?all (Suc ?m)) w1 = (Inr bc, w2)"
    "bc_data bc = block_bytes 1 ixs" "holds data w2"
    using rb [OF h1] by blast
  obtain cid c' where cid: "(if opt_block_cache options then ca_NewId ca c else (0, c)) = (cid, c')" by fastforce
  let ?t = "\<lparr>t_options = options, t_file = rf, t_cache_id = cid, t_filter = None, t_metaindex_handle = handle_at ?all ?m,
    t_index_block = make_Block (block_bytes 1 ixs)\<rparr>"
  obtain t w3 where meta: "ReadMeta sn ?ft ?t w2 = (t, w3)" by fastforce
  have "Table_Open sn ca options rf (word_of_nat (length data)) (w, c) = (Inr t, w3, c')"
    using size(2) r1 r2(1,2) cid meta by (simp add: Table_Open_def Footer_roundtrip)
  moreover have "holds data w3 \<and> t = ?t\<lparr>t_filter := filter_reader bs ess\<rparr>"
    by (rule ReadMeta_ok [OF rf r2(3) small at tf'(2) meta]) simp_all
  ultimately show ?thesis
    using cid by (intro exI [of _ t] exI [of _ w3]) (auto simp: opened_def split: if_splits)
qed

section \<open>Reading the blocks of a table\<close>

lemma table_file_facts:
  assumes "table_file data bs ess ixs"
  shows "blocks_ok bs ess" "length ess = length bs" "length ixs = length bs" "keys_ok (concat ess)"
    "i < length bs \<Longrightarrow> index_ok bs ess [] i (ixs ! i)" "length (layout bs) \<le> length data"
  using assms by (auto simp: table_file_def Let_def blocks_ok_def)

definition cached :: "'w Table \<Rightarrow> stored_block list \<Rightarrow> entries list \<Rightarrow> slice \<Rightarrow> BlockT \<Rightarrow> bool" where
  "cached t bs ess k v \<longleftrightarrow>
     (\<forall>i < length bs. k = cache_key (t_cache_id t) (bh_offset (handle_at bs i)) \<longrightarrow> v = make_Block (block_bytes ri (ess ! i)))"

definition table_world ::
  "(slice \<Rightarrow> 'w \<Rightarrow> bool) \<Rightarrow> ((slice \<Rightarrow> BlockT \<Rightarrow> bool) \<Rightarrow> 'c \<Rightarrow> bool) \<Rightarrow> slice \<Rightarrow> stored_block list \<Rightarrow> entries list \<Rightarrow> 'w Table \<Rightarrow> 'w \<times> 'c \<Rightarrow> bool"
where
  "table_world holds stored data bs ess t = (\<lambda>(w, c). holds data w \<and> stored (cached t bs ess) c)"

lemma BlockReader_ok:
  assumes rf: "random_access_file rf holds" and ca: "value_cache ca stored" and tf: "table_file data bs ess ixs" and op: "opened bs ess ixs rf t"
    and i: "i < length bs" and wc: "table_world holds stored data bs ess t wc"
    and br: "BlockReader sn ca t ro (BlockHandle_EncodeTo (handle_at bs i) []) wc = ((d, cl), wc')"
  shows "d = Block_NewIterator (make_Block (block_bytes ri (ess ! i))) \<and> table_world holds stored data bs ess t wc' \<and>
    (\<forall>v. table_world holds stored data bs ess t v \<longrightarrow> table_world holds stored data bs ess t (cl v))"
proof -
  obtain w c where w: "wc = (w, c)" "holds data w" "stored (cached t bs ess) c" using wc by (auto simp: table_world_def)
  have small: "length data < 2 ^ 31" by (rule random_access_file.small [OF rf w(2)])
  let ?h = "handle_at bs i" and ?b = "make_Block (block_bytes ri (ess ! i))"
  let ?k = "cache_key (t_cache_id t) (bh_offset ?h)"
  obtain bc w' where rb: "ReadBlock sn rf ro ?h w = (Inr bc, w')" "bc_data bc = block_bytes ri (ess ! i)" "holds data w'"
    using random_access_file.ReadBlock_at [OF rf w(2) table_file_blocks(1) [OF tf small i]] by blast
  have inj: "j = i" if "j < length bs" "?k = cache_key (t_cache_id t) (bh_offset (handle_at bs j))" for j
    using handle_at_inj [OF that(1) i] that(2) table_file_facts(6) [OF tf] small by (simp add: cache_key_inj)
  have good: "cached t bs ess ?k v \<longleftrightarrow> v = ?b" for v
    using i inj unfolding cached_def by metis
  have rel: "table_world holds stored data bs ess t v \<Longrightarrow> table_world holds stored data bs ess t (case v of (w, c) \<Rightarrow> (w, ca_Release ca h c))" for v h
    by (auto simp: table_world_def intro: value_cache.release [OF ca])
  obtain r c1 where lk: "ca_Lookup ca ?k c = (r, c1)" by fastforce
  have c1: "stored (cached t bs ess) c1" "\<forall>h. r = Some h \<longrightarrow> ca_Value ca h c1 = ?b"
    using value_cache.lookup [OF ca w(3) _ lk] by (simp_all add: good cache_key_inj(2))
  obtain h c2 where ins: "ca_Insert ca ?k ?b (blk_size ?b) c1 = (h, c2)" by fastforce
  have c2: "stored (cached t bs ess) c2" by (rule value_cache.insert [OF ca c1(1) _ ins]) (simp add: good)
  have t: "t_options t = options" "t_file t = rf" using op by (simp_all add: opened_def)
  have "d = Block_NewIterator ?b \<and> wc' \<in> {(w', c), (w', c1), (w', c2), (w, c1)} \<and> (cl = id \<or> (\<exists>h. cl = (\<lambda>(w, c). (w, ca_Release ca h c))))"
    using br rb lk ins c1(2) unfolding BlockReader_def w t
    by (cases r; cases "opt_block_cache options"; cases "bc_cachable bc \<and> ro_fill_cache ro") (auto simp: Let_def)
  then show ?thesis
    using rel w(2,3) rb(3) c1(1) c2 by (auto simp: table_world_def)
qed

lemma later_block: "i < j \<Longrightarrow> j < length ess \<Longrightarrow> e \<in> set (ess ! j) \<Longrightarrow> e \<in> set (concat (drop (Suc i) ess))"
proof -
  assume "i < j" "j < length ess" "e \<in> set (ess ! j)"
  moreover have "ess ! j = drop (Suc i) ess ! (j - Suc i)" "j - Suc i < length (drop (Suc i) ess)"
    using \<open>i < j\<close> \<open>j < length ess\<close> by simp_all
  ultimately show ?thesis by (metis UN_I nth_mem set_concat)
qed

lemma index_sorted:
  assumes "table_file data bs ess ixs"
  shows "sorted_wrt (\<lambda>a b. compare (fst a) (fst b) < 0) ixs"
  unfolding sorted_wrt_iff_nth_less
proof (intro allI impI)
  fix i j
  assume ij: "i < j" "j < length ixs"
  note tf = table_file_facts [OF assms]
  have "ess ! j \<noteq> []" using tf(1,3) ij by (simp add: blocks_ok_def)
  then obtain e where e: "e \<in> set (ess ! j)" by (meson hd_in_set)
  have "compare (fst (ixs ! i)) (fst e) < 0"
    using tf(5) [of i] later_block [of i j ess e] e ij tf(2,3) by (auto simp: index_ok_def)
  moreover have "compare (fst e) (fst (ixs ! j)) \<le> 0"
    using tf(5) [of j] e ij tf(3) by (simp add: index_ok_def)
  ultimately show "compare (fst (ixs ! i)) (fst (ixs ! j)) < 0" by (rule cmp_less_le_trans)
qed

lemma index_size:
  assumes "table_file data bs ess ixs" "length data < 2 ^ 31"
  shows "length (block_bytes 1 ixs) < 2 ^ 32"
proof -
  obtain meta idx ft where d: "data = layout (bs @ filter_blocks bs ess @ [meta, idx]) @ ft" and st: "stores sn idx (block_bytes 1 ixs)"
    using assms(1) by (auto simp: table_file_def Let_def)
  have "block_at sn data (handle_at (bs @ filter_blocks bs ess @ [meta, idx]) (Suc (length bs + length (filter_blocks bs ess)))) (block_bytes 1 ixs)"
    unfolding d by (rule block_at_layout) (use st assms(2) in \<open>simp_all add: nth_append d\<close>)
  then show ?thesis
    using block_at_raw [OF snappy_laws_axioms] assms(2) by fastforce
qed

lemma block_sorted:
  assumes "table_file data bs ess ixs" "i < length bs"
  shows "sorted_wrt (\<lambda>a b. compare (fst a) (fst b) < 0) (ess ! i)"
proof -
  have "concat ess = concat (take i ess) @ ess ! i @ concat (drop (Suc i) ess)"
    using id_take_nth_drop [of i ess] table_file_facts(2) [OF assms(1)] assms(2) by (metis concat.simps(2) concat_append)
  then show ?thesis
    using table_file_facts(4) [OF assms(1)] by (simp add: keys_ok_def sorted_wrt_append)
qed

text \<open>The iterator of a table: the two-level iterator of \<^verbatim>\<open>Two_Level\<close> over the index and the blocks.\<close>

lemma table_two_level:
  assumes rf: "random_access_file rf holds" and ca: "value_cache ca stored" and tf: "table_file data bs ess ixs" and op: "opened bs ess ixs rf t"
    and small: "length data < 2 ^ 31"
  obtains iinv ipos block dinv dpos where "iinv (Block_NewIterator (t_index_block t))"
    "two_level compare (any_Block (opt_comparator options)) (any_Block (opt_comparator options)) (BlockReader sn ca t ro) ixs iinv ipos block dinv dpos
       (table_world holds stored data bs ess t)"
    "concat (map (block \<circ> snd) ixs) = concat ess"
proof -
  note facts = table_file_facts [OF tf]
  let ?it = "any_Block (opt_comparator options)"
  have t: "t_index_block t = make_Block (block_bytes 1 ixs)" using op by (simp add: opened_def)
  obtain iinv ipos where index: "seq_iterator ?it compare ixs iinv ipos" "iinv (Block_NewIterator (t_index_block t))"
    using any_block_iterator [OF three_way_axioms zero_less_one index_sorted [OF tf] index_size [OF tf small], folded t]
    by (elim exE conjE) (rule that)
  have "\<exists>I pos. I (Block_NewIterator (make_Block (block_bytes ri (ess ! i)))) \<and> seq_iterator ?it compare (ess ! i) I pos"
    if "i < length bs" for i
    using that by (intro any_block_iterator three_way_axioms interval block_sorted [OF tf] table_file_blocks(2) [OF tf small])
  then obtain dinv dpos where dat: "\<And>i. i < length bs \<Longrightarrow> dinv i (Block_NewIterator (make_Block (block_bytes ri (ess ! i))))"
    "\<And>i. i < length bs \<Longrightarrow> seq_iterator ?it compare (ess ! i) (dinv i) (dpos i)"
    by metis
  let ?idx = "\<lambda>h. THE i. i < length bs \<and> BlockHandle_EncodeTo (handle_at bs i) [] = h"
  have h: "snd (ixs ! i) = BlockHandle_EncodeTo (handle_at bs i) []" if "i < length bs" for i
    using facts(5) [OF that] by (simp add: index_ok_def)
  have idx: "?idx (snd (ixs ! i)) = i" if "i < length bs" for i
    using that h handle_at_inj [of _ bs i] BlockHandle_roundtrip_Nil facts(6) small
    by (intro the_equality) (simp, metis Inr_inject fst_conv order.strict_trans1)
  have eq: "map ((\<lambda>h. ess ! ?idx h) \<circ> snd) ixs = ess"
    using idx facts(2,3) by (intro nth_equalityI) simp_all
  have tl: "two_level compare ?it ?it (BlockReader sn ca t ro) ixs iinv ipos (\<lambda>h. ess ! ?idx h) (\<lambda>h. dinv (?idx h)) (\<lambda>h. dpos (?idx h))
       (table_world holds stored data bs ess t)"
  proof (intro two_level.intro two_level_axioms.intro three_way_axioms index(1), goal_cases blk opn up lo)
    case (blk h)
    then obtain i where "i < length bs" "h = snd (ixs ! i)" using facts(3) by (auto simp: in_set_conv_nth)
    then show ?case using dat(2) idx by simp
  next
    case (opn h w d c w')
    then obtain i where i: "i < length bs" "h = snd (ixs ! i)" using facts(3) by (auto simp: in_set_conv_nth)
    show ?case
      using BlockReader_ok [OF rf ca tf op i(1) opn(2), of ro d c w'] opn(3) h [OF i(1)] dat(1) [OF i(1)] idx [OF i(1)] i(2) by simp
  next
    case (up j e)
    then show ?case using facts(3,5) idx by (auto simp: index_ok_def)
  next
    case (lo j k e)
    then show ?case using facts(2,3) facts(5) [of j] idx later_block [of j k ess e] by (auto simp: index_ok_def)
  qed
  show ?thesis by (rule that [OF index(2) tl]) (simp only: eq)
qed

lemma table_iterator:
  assumes "random_access_file rf holds" "value_cache ca stored" "table_file data bs ess ixs" "opened bs ess ixs rf t" "length data < 2 ^ 31"
  shows "\<exists>I pos. seq_iterator (TableIterator sn ca t ro) compare (concat ess) I pos \<and>
    (\<forall>wc. table_world holds stored data bs ess t wc \<longrightarrow> I (Table_NewIterator t wc))"
proof -
  let ?it = "any_Block (opt_comparator options)"
  obtain iinv ipos block dinv dpos where tl: "iinv (Block_NewIterator (t_index_block t))"
    "two_level compare ?it ?it (BlockReader sn ca t ro) ixs iinv ipos block dinv dpos (table_world holds stored data bs ess t)"
    "concat (map (block \<circ> snd) ixs) = concat ess"
    by (rule table_two_level [OF assms])
  have "seq_iterator (TwoLevel ?it ?it (BlockReader sn ca t ro)) compare (concat ess)
      (two_level.tl_inv ?it ?it ixs iinv ipos block dinv dpos (table_world holds stored data bs ess t)) (two_level.tl_pos ixs ipos block dpos)"
    using two_level.two_level_seq_iterator [OF tl(2)] tl(3)
    by (simp add: two_level.all_entries_def [OF tl(2)] two_level.blocks_def [OF tl(2)])
  moreover have "t_options t = options" using assms(4) by (simp add: opened_def)
  ultimately show ?thesis
    using two_level.new_TwoLevelIterator_inv [OF tl(2,1)]
    by (intro exI conjI) (auto simp: TableIterator_def Table_NewIterator_def Let_def)
qed

end

end
