(* ===== verification/Merger.thy ===== *)
theory Merger
  imports Two_Level Block_Iter
begin

text \<open>
  \<^verbatim>\<open>table/merger.cpp\<close>: the iterator that merges the sequences of its children. The children may be of different
  classes, so each comes with its own method record. When no two children have equal keys, the merging
  iterator meets the iterator contract for the sorted union of their entries, in both directions and across changes
  of direction.
\<close>

datatype Direction = kForward | kReverse

record 's MergingIterator =
  mi_children :: "'s IteratorWrapper list"
  mi_current :: "nat option"
  mi_direction :: Direction

definition new_MergingIterator :: "'s Iterator list \<Rightarrow> 's list \<Rightarrow> 's MergingIterator" where
  "new_MergingIterator its cs =
     \<lparr>mi_children = map2 (\<lambda>it s. new_IteratorWrapper it (Some s)) its cs, mi_current = None, mi_direction = kForward\<rparr>"

definition FindSmallest :: "comparator \<Rightarrow> 's MergingIterator \<Rightarrow> 's MergingIterator" where
  "FindSmallest c s =
     s\<lparr>mi_current :=
        fold (\<lambda>i smallest.
            if iw_valid (mi_children s ! i) then
              (case smallest of None \<Rightarrow> Some i
               | Some m \<Rightarrow> if Compare c (iw_key (mi_children s ! i)) (iw_key (mi_children s ! m)) < 0 then Some i else smallest)
            else smallest) [0..<length (mi_children s)] None\<rparr>"

definition FindLargest :: "comparator \<Rightarrow> 's MergingIterator \<Rightarrow> 's MergingIterator" where
  "FindLargest c s =
     s\<lparr>mi_current :=
        fold (\<lambda>i largest.
            if iw_valid (mi_children s ! i) then
              (case largest of None \<Rightarrow> Some i
               | Some m \<Rightarrow> if Compare c (iw_key (mi_children s ! i)) (iw_key (mi_children s ! m)) > 0 then Some i else largest)
            else largest) (rev [0..<length (mi_children s)]) None\<rparr>"

text \<open>The loops over the children.\<close>

definition mi_each :: "('s Iterator \<Rightarrow> 's IteratorWrapper \<Rightarrow> 's IteratorWrapper) \<Rightarrow> 's Iterator list \<Rightarrow> 's MergingIterator \<Rightarrow> 's MergingIterator" where
  "mi_each f its s = s\<lparr>mi_children := map2 f its (mi_children s)\<rparr>"

definition mi_others ::
  "('s Iterator \<Rightarrow> 's IteratorWrapper \<Rightarrow> 's IteratorWrapper) \<Rightarrow> 's Iterator list \<Rightarrow> nat \<Rightarrow> 's MergingIterator \<Rightarrow> 's MergingIterator"
where
  "mi_others f its cur s =
     s\<lparr>mi_children := map (\<lambda>i. if i = cur then mi_children s ! i else f (its ! i) (mi_children s ! i)) [0..<length (mi_children s)]\<rparr>"

definition mi_child :: "('s Iterator \<Rightarrow> 's IteratorWrapper \<Rightarrow> 's IteratorWrapper) \<Rightarrow> 's Iterator list \<Rightarrow> nat \<Rightarrow> 's MergingIterator \<Rightarrow> 's MergingIterator" where
  "mi_child f its i s = s\<lparr>mi_children := (mi_children s)[i := f (its ! i) (mi_children s ! i)]\<rparr>"

definition mi_SeekToFirst where
  "mi_SeekToFirst c its s =
     (FindSmallest c (mi_each (\<lambda>it. iw_move it (i_SeekToFirst it)) its s))\<lparr>mi_direction := kForward\<rparr>"

definition mi_SeekToLast where
  "mi_SeekToLast c its s =
     (FindLargest c (mi_each (\<lambda>it. iw_move it (i_SeekToLast it)) its s))\<lparr>mi_direction := kReverse\<rparr>"

definition mi_Seek where
  "mi_Seek c its target s =
     (FindSmallest c (mi_each (\<lambda>it. iw_move it (i_Seek it target)) its s))\<lparr>mi_direction := kForward\<rparr>"

definition seek_after :: "comparator \<Rightarrow> slice \<Rightarrow> 's Iterator \<Rightarrow> 's IteratorWrapper \<Rightarrow> 's IteratorWrapper" where
  "seek_after c key it x =
     (let x = iw_move it (i_Seek it key) x
      in if iw_valid x \<and> Compare c key (iw_key x) = 0 then iw_move it (i_Next it) x else x)"

definition seek_before :: "slice \<Rightarrow> 's Iterator \<Rightarrow> 's IteratorWrapper \<Rightarrow> 's IteratorWrapper" where
  "seek_before key it x =
     (let x = iw_move it (i_Seek it key) x
      in if iw_valid x then iw_move it (i_Prev it) x else iw_move it (i_SeekToLast it) x)"

definition mi_Next where
  "mi_Next c its s =
     (case mi_current s of None \<Rightarrow> s
      | Some cur \<Rightarrow>
          let key = iw_key (mi_children s ! cur);
              s = (if mi_direction s \<noteq> kForward then (mi_others (seek_after c key) its cur s)\<lparr>mi_direction := kForward\<rparr> else s)
          in FindSmallest c (mi_child (\<lambda>it. iw_move it (i_Next it)) its cur s))"

definition mi_Prev where
  "mi_Prev c its s =
     (case mi_current s of None \<Rightarrow> s
      | Some cur \<Rightarrow>
          let key = iw_key (mi_children s ! cur);
              s = (if mi_direction s \<noteq> kReverse then (mi_others (seek_before key) its cur s)\<lparr>mi_direction := kReverse\<rparr> else s)
          in FindLargest c (mi_child (\<lambda>it. iw_move it (i_Prev it)) its cur s))"

definition mi_key :: "'s MergingIterator \<Rightarrow> slice" where
  "mi_key s = (case mi_current s of None \<Rightarrow> [] | Some cur \<Rightarrow> iw_key (mi_children s ! cur))"

definition mi_value :: "'s Iterator list \<Rightarrow> 's MergingIterator \<Rightarrow> slice" where
  "mi_value its s = (case mi_current s of None \<Rightarrow> [] | Some cur \<Rightarrow> iw_value (its ! cur) (mi_children s ! cur))"

fun first_error :: "'s Iterator list \<Rightarrow> 's IteratorWrapper list \<Rightarrow> status" where
  "first_error (it # its) (x # xs) =
     (if \<not> ok (iw_status it x) \<or> xs = [] then iw_status it x else first_error its xs)"
| "first_error _ _ = OK"

definition Merging :: "comparator \<Rightarrow> 's Iterator list \<Rightarrow> 's MergingIterator Iterator" where
  "Merging c its =
     \<lparr>i_Valid = (\<lambda>s. mi_current s \<noteq> None), i_SeekToFirst = mi_SeekToFirst c its, i_SeekToLast = mi_SeekToLast c its,
      i_Seek = mi_Seek c its, i_Next = mi_Next c its, i_Prev = mi_Prev c its, i_key = mi_key, i_value = mi_value its,
      i_status = (\<lambda>s. first_error its (mi_children s))\<rparr>"

text \<open>\<open>NewMergingIterator\<close> merges only two or more children; the state says which class was made.\<close>

datatype 's merged = Merged_Empty status | Merged_One 's | Merged_Many "'s MergingIterator"

definition NewMergingIterator :: "'s Iterator list \<Rightarrow> 's list \<Rightarrow> 's merged" where
  "NewMergingIterator its cs =
     (case cs of [] \<Rightarrow> Merged_Empty NewEmptyIterator | [s] \<Rightarrow> Merged_One s | _ \<Rightarrow> Merged_Many (new_MergingIterator its cs))"

section \<open>Choosing a child\<close>

lemma pick_best:
  assumes "i \<in> set xs \<or> acc = Some i" and "v i" and "\<forall>j \<in> set xs. v j \<longrightarrow> j \<noteq> i \<longrightarrow> better i j \<and> \<not> better j i"
    and "\<And>m. acc = Some m \<Longrightarrow> m \<noteq> i \<Longrightarrow> better i m"
  shows "fold (\<lambda>i m. if v i then (case m of None \<Rightarrow> Some i | Some m' \<Rightarrow> if better i m' then Some i else m) else m) xs acc = Some i"
  using assms(1,3,4)
proof (induction xs arbitrary: acc)
  case (Cons x xs)
  then show ?case
    using assms(2) by (cases "x = i"; cases acc) (auto split: option.splits)
qed simp

lemma pick_none:
  "\<forall>j \<in> set xs. \<not> v j \<Longrightarrow>
   fold (\<lambda>i m. if v i then (case m of None \<Rightarrow> Some i | Some m' \<Rightarrow> if better i m' then Some i else m) else m) xs acc = acc"
  by (induction xs) simp_all

lemma sorted_wrt_set_unique:
  assumes "\<And>x y. R x y \<Longrightarrow> \<not> R y x" and "sorted_wrt R xs" "sorted_wrt R ys" and "set xs = set ys"
  shows "xs = ys"
  using assms(2-4)
proof (induction xs arbitrary: ys)
  case (Cons x xs)
  then obtain y ys' where ys: "ys = y # ys'"
    by (cases ys) auto
  have "x = y"
    using Cons.prems assms(1) unfolding ys by (auto simp: set_eq_iff) metis
  moreover have "x \<notin> set xs" "y \<notin> set ys'"
    using Cons.prems(1,2) assms(1) unfolding ys by auto
  ultimately have "set xs = set ys'"
    using Cons.prems(3) unfolding ys by auto
  with Cons \<open>x = y\<close> show ?case
    unfolding ys by simp
qed simp

section \<open>The contract\<close>

locale merging = order: three_way "Compare c" for c :: comparator +
  fixes its :: "'s Iterator list" and ess :: "entries list" and es :: entries
    and cinv :: "nat \<Rightarrow> 's \<Rightarrow> bool" and cpos :: "nat \<Rightarrow> 's \<Rightarrow> nat"
  assumes len: "length its = length ess"
    and child: "i < length ess \<Longrightarrow> seq_iterator (its ! i) (Compare c) (ess ! i) (cinv i) (cpos i)"
    and sorted: "sorted_wrt (\<lambda>a b. Compare c (fst a) (fst b) < 0) es"
    and child_sorted: "i < length ess \<Longrightarrow> sorted_wrt (\<lambda>a b. Compare c (fst a) (fst b) < 0) (ess ! i)"
    and union: "set es = \<Union> (set ` set ess)"
    and disjoint: "i < length ess \<Longrightarrow> j < length ess \<Longrightarrow> e \<in> set (ess ! i) \<Longrightarrow> e \<in> set (ess ! j) \<Longrightarrow> i = j"
begin

definition cnt :: "nat \<Rightarrow> nat \<Rightarrow> nat" where
  "cnt j p = length (filter (\<lambda>e. e \<in> set (ess ! j)) (take p es))"

definition rpos :: "nat \<Rightarrow> nat \<Rightarrow> nat" where
  "rpos j p = (if cnt j p = 0 then length (ess ! j) else cnt j p - 1)"

definition owner :: "nat \<Rightarrow> nat" where
  "owner p = (LEAST i. i < length ess \<and> es ! p \<in> set (ess ! i))"

lemma asym: "Compare c x y < 0 \<Longrightarrow> \<not> Compare c y x < 0"
  using order.cmp_flip [of y x] by linarith

lemma child_filter: "j < length ess \<Longrightarrow> filter (\<lambda>e. e \<in> set (ess ! j)) es = ess ! j"
  using child_sorted [of j] sorted union
  by (intro sorted_wrt_set_unique [where R = "\<lambda>a b. Compare c (fst a) (fst b) < 0"]) (auto simp: asym sorted_wrt_filter)

lemma owner: "p < length es \<Longrightarrow> owner p < length ess \<and> es ! p \<in> set (ess ! owner p)"
proof -
  assume "p < length es"
  then have "es ! p \<in> \<Union> (set ` set ess)"
    using nth_mem union by blast
  then have "\<exists>i. i < length ess \<and> es ! p \<in> set (ess ! i)"
    by (auto simp: in_set_conv_nth [of _ ess])
  then show ?thesis
    unfolding owner_def by (rule LeastI_ex)
qed

lemma owner_eq: "p < length es \<Longrightarrow> j < length ess \<Longrightarrow> es ! p \<in> set (ess ! j) \<longleftrightarrow> j = owner p"
  using owner disjoint by blast

lemma cnt_Suc: "p < length es \<Longrightarrow> j < length ess \<Longrightarrow> cnt j (Suc p) = cnt j p + (if j = owner p then 1 else 0)"
  using owner_eq by (simp add: cnt_def take_Suc_conv_app_nth)

lemma child_split:
  "j < length ess \<Longrightarrow> ess ! j = filter (\<lambda>e. e \<in> set (ess ! j)) (take p es) @ filter (\<lambda>e. e \<in> set (ess ! j)) (drop p es)"
  using child_filter [of j] by (metis append_take_drop_id filter_append)

lemma cnt_le: "j < length ess \<Longrightarrow> cnt j p \<le> length (ess ! j)" "j < length ess \<Longrightarrow> cnt j (length es) = length (ess ! j)" "cnt j 0 = 0"
  using child_split [of j p] child_filter [of j] unfolding cnt_def by (metis le_add1 length_append, simp, simp)

lemma cnt_after:
  assumes "j < length ess" and "cnt j p < length (ess ! j)"
  shows "ess ! j ! cnt j p \<in> set (drop p es)"
proof -
  define A B where "A = filter (\<lambda>e. e \<in> set (ess ! j)) (take p es)" and "B = filter (\<lambda>e. e \<in> set (ess ! j)) (drop p es)"
  have e: "ess ! j = A @ B" "cnt j p = length A"
    using child_split [OF assms(1), of p] by (simp_all add: A_def B_def cnt_def)
  then have "ess ! j ! cnt j p = B ! 0" "B \<noteq> []"
    using assms(2) by (simp_all add: nth_append)
  then have "ess ! j ! cnt j p \<in> set B"
    by simp
  then show ?thesis
    by (simp add: B_def)
qed

lemma cnt_at: "p < length es \<Longrightarrow> cnt (owner p) p < length (ess ! owner p) \<and> ess ! owner p ! cnt (owner p) p = es ! p"
proof -
  assume p: "p < length es"
  note o = owner [OF p]
  have "filter (\<lambda>e. e \<in> set (ess ! owner p)) (drop p es) = es ! p # filter (\<lambda>e. e \<in> set (ess ! owner p)) (drop (Suc p) es)"
    by (subst Cons_nth_drop_Suc [OF p, symmetric]) (simp add: o)
  then have eq: "ess ! owner p = filter (\<lambda>e. e \<in> set (ess ! owner p)) (take p es) @ es ! p # filter (\<lambda>e. e \<in> set (ess ! owner p)) (drop (Suc p) es)"
    using child_split [of "owner p" p] o by simp
  define A where "A = filter (\<lambda>e. e \<in> set (ess ! owner p)) (take p es)"
  have "cnt (owner p) p = length A"
    by (simp add: cnt_def A_def)
  then show ?thesis
    using arg_cong [OF eq, of length] arg_cong [OF eq, of "\<lambda>xs. xs ! length A"] by (simp add: nth_append flip: A_def)
qed

lemma cnt_before:
  assumes "j < length ess" and "0 < cnt j p"
  shows "ess ! j ! (cnt j p - 1) \<in> set (take p es)" "cnt j p - 1 < length (ess ! j)"
proof -
  define A B where "A = filter (\<lambda>e. e \<in> set (ess ! j)) (take p es)" and "B = filter (\<lambda>e. e \<in> set (ess ! j)) (drop p es)"
  have e: "ess ! j = A @ B" "cnt j p = length A"
    using child_split [OF assms(1), of p] by (simp_all add: A_def B_def cnt_def)
  then have "ess ! j ! (cnt j p - 1) = A ! (length A - 1)" "length A - 1 < length A"
    using assms(2) by (simp_all add: nth_append)
  then have "ess ! j ! (cnt j p - 1) \<in> set A"
    using nth_mem by metis
  then show "ess ! j ! (cnt j p - 1) \<in> set (take p es)"
    by (simp add: A_def)
  show "cnt j p - 1 < length (ess ! j)"
    using e assms(2) by (cases A) simp_all
qed

lemma below: "p < length es \<Longrightarrow> e \<in> set (take p es) \<Longrightarrow> Compare c (fst e) (fst (es ! p)) < 0"
  using sorted_wrt_nth_less [OF sorted, of _ p] by (auto simp: in_set_conv_nth)

lemma above: "p < length es \<Longrightarrow> e \<in> set (drop (Suc p) es) \<Longrightarrow> Compare c (fst (es ! p)) (fst e) < 0"
  using sorted_wrt_nth_less [OF sorted, of p] by (auto simp: in_set_conv_nth)

lemma lower_bound_cnt: "j < length ess \<Longrightarrow> lower_bound (Compare c) t (ess ! j) = cnt j (lower_bound (Compare c) t es)"
proof -
  assume j: "j < length ess"
  let ?P = "\<lambda>(k, v). Compare c k t < 0" and ?Q = "\<lambda>e. e \<in> set (ess ! j)"
  have mono: "?P e" if "Compare c (fst e) (fst e') < 0" "?P e'" for e e'
    using that order.cmp_less_trans by (auto simp: case_prod_unfold)
  have gen: "takeWhile ?P (filter ?Q xs) = filter ?Q (takeWhile ?P xs)" if "sorted_wrt (\<lambda>a b. Compare c (fst a) (fst b) < 0) xs" for xs
    using that
  proof (induction xs)
    case (Cons x xs)
    have "takeWhile ?P (filter ?Q xs) = []" if "\<not> ?P x"
    proof -
      have "\<not> ?P y" if "y \<in> set xs" for y
        using \<open>\<not> ?P x\<close> mono [of x y] Cons.prems that by auto
      then have "\<forall>y \<in> set (filter ?Q xs). \<not> ?P y"
        by simp
      then show ?thesis
        by (cases "filter ?Q xs") auto
    qed
    with Cons show ?case
      by auto
  qed simp
  have "takeWhile ?P es = take (lower_bound (Compare c) t es) es"
    unfolding lower_bound_def by (rule takeWhile_eq_take)
  then show ?thesis
    using gen [OF sorted] child_filter [OF j] unfolding lower_bound_def [of _ _ "ess ! j"] cnt_def by simp
qed

lemma lower_bound_self: "p < length es \<Longrightarrow> lower_bound (Compare c) (fst (es ! p)) es = p"
  using sorted_wrt_nth_less [OF sorted, of _ p] by (intro lower_bound_eqI) auto

text \<open>The positions of the children, and the child that is chosen for them.\<close>

definition mi_cut :: "(nat \<Rightarrow> nat) \<Rightarrow> 's MergingIterator \<Rightarrow> bool" where
  "mi_cut f s \<longleftrightarrow> length (mi_children s) = length ess \<and>
     (\<forall>j < length ess. iw_ok (its ! j) (cinv j) (mi_children s ! j) \<and> iw_pos (cpos j) (mi_children s ! j) = f j)"

lemma mi_cutD:
  assumes "mi_cut f s" and "j < length ess"
  shows "iw_valid (mi_children s ! j) \<longleftrightarrow> f j < length (ess ! j)"
    and "f j < length (ess ! j) \<Longrightarrow> iw_key (mi_children s ! j) = fst (ess ! j ! f j)"
    and "f j < length (ess ! j) \<Longrightarrow> iw_value (its ! j) (mi_children s ! j) = snd (ess ! j ! f j)"
    and "ok (iw_status (its ! j) (mi_children s ! j))"
proof -
  have x: "iw_ok (its ! j) (cinv j) (mi_children s ! j)" "iw_pos (cpos j) (mi_children s ! j) = f j"
    using assms by (simp_all add: mi_cut_def)
  note it = child [OF assms(2)]
  show "iw_valid (mi_children s ! j) \<longleftrightarrow> f j < length (ess ! j)"
    and "f j < length (ess ! j) \<Longrightarrow> iw_key (mi_children s ! j) = fst (ess ! j ! f j)"
    and "f j < length (ess ! j) \<Longrightarrow> iw_value (its ! j) (mi_children s ! j) = snd (ess ! j ! f j)"
    and "ok (iw_status (its ! j) (mi_children s ! j))"
    using seq_iterator.iw_valid_iff [OF it x(1)] seq_iterator.iw_key_eq [OF it x(1)] seq_iterator.iw_value_eq [OF it x(1)]
      seq_iterator.iw_status_ok [OF it x(1)] x(2) by simp_all
qed

lemma FindSmallest_cut:
  assumes "mi_cut (\<lambda>j. cnt j p) s" and "p \<le> length es"
  shows "mi_current (FindSmallest c s) = (if p < length es then Some (owner p) else None)"
proof -
  have n: "length (mi_children s) = length ess"
    using assms(1) by (simp add: mi_cut_def)
  note d = mi_cutD [OF assms(1)]
  show ?thesis
  proof (cases "p < length es")
    case True
    note o = owner [OF True] cnt_at [OF True]
    have "Compare c (iw_key (mi_children s ! owner p)) (iw_key (mi_children s ! j)) < 0"
      if "j < length ess" "iw_valid (mi_children s ! j)" "j \<noteq> owner p" for j
    proof -
      have v: "cnt j p < length (ess ! j)"
        using d(1) that by simp
      moreover have "cnt j (Suc p) = cnt j p"
        using cnt_Suc [OF True that(1)] that(3) by simp
      ultimately have "ess ! j ! cnt j p \<in> set (drop (Suc p) es)"
        using cnt_after [OF that(1), of "Suc p"] by simp
      then show ?thesis
        using above [OF True] d(2) that(1) v o by simp
    qed
    moreover have "iw_valid (mi_children s ! owner p)"
      using d(1) o by simp
    ultimately show ?thesis
      unfolding FindSmallest_def using True o n asym by simp (intro pick_best, auto)
  next
    case False
    then have "\<not> iw_valid (mi_children s ! j)" if "j < length ess" for j
      using that d(1) cnt_le(2) assms(2) by simp
    then show ?thesis
      unfolding FindSmallest_def using False n by (simp add: pick_none)
  qed
qed

lemma FindLargest_cut:
  assumes "mi_cut (\<lambda>j. rpos j p) s" and "p \<le> length es"
  shows "mi_current (FindLargest c s) = (if p = 0 then None else Some (owner (p - 1)))"
proof -
  have n: "length (mi_children s) = length ess"
    using assms(1) by (simp add: mi_cut_def)
  note d = mi_cutD [OF assms(1)]
  have v: "iw_valid (mi_children s ! j) \<longleftrightarrow> 0 < cnt j p" if "j < length ess" for j
    using d(1) [OF that] cnt_before(2) [OF that, of p] by (auto simp: rpos_def)
  have k: "iw_key (mi_children s ! j) = fst (ess ! j ! (cnt j p - 1))" if "j < length ess" "0 < cnt j p" for j
    using d(2) [OF that(1)] cnt_before(2) [OF that] that(2) by (simp add: rpos_def)
  show ?thesis
  proof (cases p)
    case 0
    then have "\<not> iw_valid (mi_children s ! j)" if "j < length ess" for j
      using v [OF that] cnt_le(3) by simp
    then show ?thesis
      unfolding FindLargest_def using 0 n by (simp add: pick_none)
  next
    case (Suc q)
    then have q: "q < length es"
      using assms(2) by simp
    note o = owner [OF q] cnt_at [OF q]
    have co: "cnt (owner q) p = Suc (cnt (owner q) q)"
      using cnt_Suc [OF q, of "owner q"] o Suc by simp
    have "Compare c (iw_key (mi_children s ! j)) (iw_key (mi_children s ! owner q)) < 0"
      if "j < length ess" "iw_valid (mi_children s ! j)" "j \<noteq> owner q" for j
    proof -
      have "0 < cnt j q" "cnt j p = cnt j q"
        using v that cnt_Suc [OF q that(1)] Suc by simp_all
      then show ?thesis
        using below [OF q cnt_before(1) [OF that(1)]] k that(1) o co by simp
    qed
    then have "\<not> 0 < Compare c (iw_key (mi_children s ! j)) (iw_key (mi_children s ! owner q)) \<and>
        0 < Compare c (iw_key (mi_children s ! owner q)) (iw_key (mi_children s ! j))"
      if "j < length ess" "iw_valid (mi_children s ! j)" "j \<noteq> owner q" for j
      using that order.cmp_flip by fastforce
    moreover have "iw_valid (mi_children s ! owner q)"
      using v o co by simp
    ultimately show ?thesis
      unfolding FindLargest_def using Suc o n by simp (intro pick_best, auto)
  qed
qed

lemma mi_each_cut:
  assumes "mi_cut f s" and "\<And>j x. j < length ess \<Longrightarrow> cinv j x \<Longrightarrow> cinv j (m (its ! j) x) \<and> cpos j (m (its ! j) x) = g j"
  shows "mi_cut g (mi_each (\<lambda>it. iw_move it (m it)) its s)"
  using assms(1) len iw_move_ok [where f = "m (its ! j)" and I = "cinv j" and pos = "cpos j" and p = "g j" for j] assms(2)
  by (auto simp: mi_cut_def mi_each_def)

lemma mi_others_cut:
  assumes "mi_cut f s" and "\<And>j x. j < length ess \<Longrightarrow> j \<noteq> cur \<Longrightarrow> iw_ok (its ! j) (cinv j) x \<Longrightarrow>
      iw_ok (its ! j) (cinv j) (F (its ! j) x) \<and> iw_pos (cpos j) (F (its ! j) x) = g j"
    and "g cur = f cur"
  shows "mi_cut g (mi_others F its cur s)" "mi_current (mi_others F its cur s) = mi_current s"
  using assms by (auto simp: mi_cut_def mi_others_def)

lemma mi_child_cut:
  assumes "mi_cut f s" and "i < length ess" and "\<And>x. cinv i x \<Longrightarrow> cpos i x = f i \<Longrightarrow> cinv i (m (its ! i) x) \<and> cpos i (m (its ! i) x) = g i"
    and "\<And>j. j < length ess \<Longrightarrow> j \<noteq> i \<Longrightarrow> g j = f j"
  shows "mi_cut g (mi_child (\<lambda>it. iw_move it (m it)) its i s)"
  using assms iw_move_ok [where f = "m (its ! i)" and I = "cinv i" and pos = "cpos i" and p = "g i" and it = "its ! i" and x = "mi_children s ! i"]
  by (auto simp: mi_cut_def mi_child_def nth_list_update)

lemma mi_cut_Find: "mi_cut f (FindSmallest c s) = mi_cut f s" "mi_cut f (FindLargest c s) = mi_cut f s"
  "mi_cut f (s\<lparr>mi_direction := d\<rparr>) = mi_cut f s"
  by (simp_all add: mi_cut_def FindSmallest_def FindLargest_def)

text \<open>Being at an entry, in either direction.\<close>

definition mi_at :: "nat \<Rightarrow> 's MergingIterator \<Rightarrow> bool" where
  "mi_at p s \<longleftrightarrow> p < length es \<and> mi_current s = Some (owner p) \<and>
     (if mi_direction s = kForward then mi_cut (\<lambda>j. cnt j p) s else mi_cut (\<lambda>j. rpos j (Suc p)) s)"

definition mi_end :: "'s MergingIterator \<Rightarrow> bool" where
  "mi_end s \<longleftrightarrow> mi_current s = None \<and> (\<exists>f. mi_cut f s)"

definition mi_inv :: "'s MergingIterator \<Rightarrow> bool" where
  "mi_inv s \<longleftrightarrow> mi_end s \<or> (\<exists>p. mi_at p s)"

definition mi_pos :: "'s MergingIterator \<Rightarrow> nat" where
  "mi_pos s = (if mi_current s = None then length es else lower_bound (Compare c) (mi_key s) es)"

lemma rpos_owner: "p < length es \<Longrightarrow> rpos (owner p) (Suc p) = cnt (owner p) p"
  using cnt_Suc owner by (simp add: rpos_def)

lemma rpos_other: "p < length es \<Longrightarrow> j < length ess \<Longrightarrow> j \<noteq> owner p \<Longrightarrow> rpos j (Suc p) = rpos j p"
  using cnt_Suc by (simp add: rpos_def)

lemma mi_atD:
  assumes "mi_at p s"
  shows "mi_key s = fst (es ! p)" and "mi_value its s = snd (es ! p)" and "mi_pos s = p" and "p < length es"
    and "iw_key (mi_children s ! owner p) = fst (es ! p)"
proof -
  show p: "p < length es"
    using assms by (simp add: mi_at_def)
  note o = owner [OF p] cnt_at [OF p] rpos_owner [OF p]
  obtain f where f: "mi_cut f s" "f (owner p) = cnt (owner p) p"
    using assms o(3) by (auto simp: mi_at_def split: if_splits)
  have cur: "mi_current s = Some (owner p)"
    using assms by (simp add: mi_at_def)
  show k: "mi_key s = fst (es ! p)" "mi_value its s = snd (es ! p)"
    using mi_cutD(2,3) [OF f(1), of "owner p"] o f(2) cur by (simp_all add: mi_key_def mi_value_def)
  then show "mi_pos s = p" "iw_key (mi_children s ! owner p) = fst (es ! p)"
    using lower_bound_self [OF p] cur by (simp_all add: mi_pos_def mi_key_def)
qed

lemma mi_forwardI:
  assumes "mi_cut (\<lambda>j. cnt j p) s" and "p \<le> length es"
  shows "mi_inv ((FindSmallest c s)\<lparr>mi_direction := kForward\<rparr>) \<and> mi_pos ((FindSmallest c s)\<lparr>mi_direction := kForward\<rparr>) = p"
proof (cases "p < length es")
  case True
  then have "mi_at p ((FindSmallest c s)\<lparr>mi_direction := kForward\<rparr>)"
    using FindSmallest_cut [OF assms] assms(1) by (simp add: mi_at_def mi_cut_Find)
  then show ?thesis
    using mi_atD(3) by (auto simp: mi_inv_def)
next
  case False
  then show ?thesis
    using FindSmallest_cut [OF assms] assms by (auto simp: mi_inv_def mi_end_def mi_pos_def mi_cut_Find)
qed

lemma mi_reverseI:
  assumes "mi_cut (\<lambda>j. rpos j p) s" and "p \<le> length es"
  shows "mi_inv ((FindLargest c s)\<lparr>mi_direction := kReverse\<rparr>) \<and>
    mi_pos ((FindLargest c s)\<lparr>mi_direction := kReverse\<rparr>) = (if p = 0 then length es else p - 1)"
proof (cases p)
  case 0
  then show ?thesis
    using FindLargest_cut [OF assms] assms by (auto simp: mi_inv_def mi_end_def mi_pos_def mi_cut_Find)
next
  case (Suc q)
  then have "mi_at q ((FindLargest c s)\<lparr>mi_direction := kReverse\<rparr>)"
    using FindLargest_cut [OF assms] assms by (simp add: mi_at_def mi_cut_Find)
  then show ?thesis
    using mi_atD(3) Suc by (auto simp: mi_inv_def)
qed

lemma Find_direction:
  "mi_direction s = d \<Longrightarrow> (FindSmallest c s)\<lparr>mi_direction := d\<rparr> = FindSmallest c s"
  "mi_direction s = d \<Longrightarrow> (FindLargest c s)\<lparr>mi_direction := d\<rparr> = FindLargest c s"
  by (simp_all add: FindSmallest_def FindLargest_def)

lemma seek_after_cut:
  assumes "p < length es" and "j < length ess" "j \<noteq> owner p" and "iw_ok (its ! j) (cinv j) x"
  shows "iw_ok (its ! j) (cinv j) (seek_after c (fst (es ! p)) (its ! j) x) \<and>
    iw_pos (cpos j) (seek_after c (fst (es ! p)) (its ! j) x) = cnt j p"
proof -
  let ?x = "iw_move (its ! j) (i_Seek (its ! j) (fst (es ! p))) x"
  note it = child [OF assms(2)]
  have x: "iw_ok (its ! j) (cinv j) ?x" "iw_pos (cpos j) ?x = cnt j p"
    using iw_move_ok [OF assms(4), where pos = "cpos j" and p = "cnt j p"] seq_iterator.seek [OF it]
      lower_bound_cnt [OF assms(2)] lower_bound_self [OF assms(1)] by simp_all
  have "Compare c (fst (es ! p)) (iw_key ?x) \<noteq> 0" if "iw_valid ?x"
  proof -
    have v: "cnt j p < length (ess ! j)"
      using that seq_iterator.iw_valid_iff [OF it x(1)] x(2) by simp
    have "cnt j (Suc p) = cnt j p"
      using cnt_Suc [OF assms(1,2)] assms(3) by simp
    then have "ess ! j ! cnt j p \<in> set (drop (Suc p) es)"
      using cnt_after [OF assms(2), of "Suc p"] v by simp
    then show ?thesis
      using above [OF assms(1)] seq_iterator.iw_key_eq [OF it x(1)] x(2) v by fastforce
  qed
  then show ?thesis
    using x by (auto simp: seek_after_def Let_def)
qed

lemma seek_before_cut:
  assumes "p < length es" and "j < length ess" and "iw_ok (its ! j) (cinv j) x"
  shows "iw_ok (its ! j) (cinv j) (seek_before (fst (es ! p)) (its ! j) x) \<and>
    iw_pos (cpos j) (seek_before (fst (es ! p)) (its ! j) x) = rpos j p"
proof -
  let ?x = "iw_move (its ! j) (i_Seek (its ! j) (fst (es ! p))) x"
  note it = child [OF assms(2)]
  have x: "iw_ok (its ! j) (cinv j) ?x" "iw_pos (cpos j) ?x = cnt j p"
    using iw_move_ok [OF assms(3), where pos = "cpos j" and p = "cnt j p"] seq_iterator.seek [OF it]
      lower_bound_cnt [OF assms(2)] lower_bound_self [OF assms(1)] by simp_all
  show ?thesis
  proof (cases "iw_valid ?x")
    case True
    then have "cnt j p < length (ess ! j)"
      using seq_iterator.iw_valid_iff [OF it x(1)] x(2) by simp
    then show ?thesis
      using True x iw_move_ok [OF x(1), where pos = "cpos j" and p = "rpos j p"] seq_iterator.prev [OF it]
      by (simp add: seek_before_def Let_def rpos_def)
  next
    case False
    then have "cnt j p = length (ess ! j)"
      using seq_iterator.iw_valid_iff [OF it x(1)] x(2) cnt_le(1) [OF assms(2), of p] by simp
    then show ?thesis
      using False x iw_move_ok [OF x(1), where pos = "cpos j" and p = "rpos j p"] seq_iterator.last [OF it]
      by (simp add: seek_before_def Let_def rpos_def)
  qed
qed

lemma mi_Next_spec:
  assumes "mi_at p s"
  shows "mi_inv (mi_Next c its s) \<and> mi_pos (mi_Next c its s) = Suc p"
proof -
  note at = mi_atD(4,5) [OF assms] and p = mi_atD(4) [OF assms]
  note o = owner [OF p] cnt_at [OF p]
  define t where "t = (if mi_direction s \<noteq> kForward then (mi_others (seek_after c (fst (es ! p))) its (owner p) s)\<lparr>mi_direction := kForward\<rparr> else s)"
  have t: "mi_cut (\<lambda>j. cnt j p) t" "mi_direction t = kForward"
    using assms mi_others_cut [of "\<lambda>j. rpos j (Suc p)" s "owner p" "seek_after c (fst (es ! p))" "\<lambda>j. cnt j p"] seek_after_cut [OF p] rpos_owner [OF p]
    by (auto simp: t_def mi_at_def mi_cut_Find)
  have "mi_cut (\<lambda>j. cnt j (Suc p)) (mi_child (\<lambda>it. iw_move it (i_Next it)) its (owner p) t)"
    using seq_iterator.step [OF child] o cnt_Suc [OF p] by (intro mi_child_cut [OF t(1)]) auto
  moreover have "mi_direction (mi_child (\<lambda>it. iw_move it (i_Next it)) its (owner p) t) = kForward"
    using t(2) by (simp add: mi_child_def)
  moreover have "mi_Next c its s = FindSmallest c (mi_child (\<lambda>it. iw_move it (i_Next it)) its (owner p) t)"
    using assms at by (simp add: mi_Next_def mi_at_def t_def Let_def)
  ultimately show ?thesis
    using mi_forwardI [of "Suc p" "mi_child (\<lambda>it. iw_move it (i_Next it)) its (owner p) t"] Find_direction(1) [of "mi_child (\<lambda>it. iw_move it (i_Next it)) its (owner p) t" kForward] p by simp
qed

lemma mi_Prev_spec:
  assumes "mi_at p s"
  shows "mi_inv (mi_Prev c its s) \<and> mi_pos (mi_Prev c its s) = (if p = 0 then length es else p - 1)"
proof -
  note at = mi_atD(4,5) [OF assms] and p = mi_atD(4) [OF assms]
  note o = owner [OF p] cnt_at [OF p]
  define t where "t = (if mi_direction s \<noteq> kReverse then (mi_others (seek_before (fst (es ! p))) its (owner p) s)\<lparr>mi_direction := kReverse\<rparr> else s)"
  define f where "f j = (if j = owner p then cnt j p else rpos j p)" for j
  have t: "mi_cut f t" "mi_direction t = kReverse"
  proof -
    show "mi_direction t = kReverse"
      by (simp add: t_def)
    show "mi_cut f t"
    proof (cases "mi_direction s")
      case kForward
      then have "mi_cut (\<lambda>j. cnt j p) s"
        using assms by (simp add: mi_at_def)
      from mi_others_cut(1) [OF this, of "owner p" "seek_before (fst (es ! p))" f] show ?thesis
        using seek_before_cut [OF p] kForward by (simp add: t_def f_def mi_cut_Find)
    next
      case kReverse
      then have "mi_cut (\<lambda>j. rpos j (Suc p)) s"
        using assms by (simp add: mi_at_def)
      then show ?thesis
        using kReverse rpos_owner [OF p] rpos_other [OF p] by (simp add: t_def f_def mi_cut_def)
    qed
  qed
  have "mi_cut (\<lambda>j. rpos j p) (mi_child (\<lambda>it. iw_move it (i_Prev it)) its (owner p) t)"
    using seq_iterator.prev [OF child] o by (intro mi_child_cut [OF t(1)]) (auto simp: f_def rpos_def)
  moreover have "mi_direction (mi_child (\<lambda>it. iw_move it (i_Prev it)) its (owner p) t) = kReverse"
    using t(2) by (simp add: mi_child_def)
  moreover have "mi_Prev c its s = FindLargest c (mi_child (\<lambda>it. iw_move it (i_Prev it)) its (owner p) t)"
    using assms at by (simp add: mi_Prev_def mi_at_def t_def Let_def)
  ultimately show ?thesis
    using mi_reverseI [of p "mi_child (\<lambda>it. iw_move it (i_Prev it)) its (owner p) t"] Find_direction(2) [of "mi_child (\<lambda>it. iw_move it (i_Prev it)) its (owner p) t" kReverse] p by simp
qed

lemma first_error_ok: "(\<And>j. j < length xs \<Longrightarrow> ok (iw_status (ts ! j) (xs ! j))) \<Longrightarrow> ok (first_error ts xs)"
proof (induction ts xs rule: first_error.induct)
  case (1 it ts x xs)
  then show ?case
    by (cases "xs = []") fastforce+
qed simp_all

lemma mi_inv_cases:
  assumes "mi_inv s"
  obtains "mi_current s = None" "mi_pos s = length es"
  | p where "mi_at p s" "mi_pos s = p" "p < length es" "mi_current s = Some (owner p)"
proof (cases "mi_end s")
  case True
  then show ?thesis
    by (intro that(1)) (simp_all add: mi_end_def mi_pos_def)
next
  case False
  then obtain p where p: "mi_at p s"
    using assms unfolding mi_inv_def by blast
  then have "mi_current s = Some (owner p)"
    unfolding mi_at_def by blast
  with p show ?thesis
    using mi_atD(3,4) [OF p] by (intro that(2))
qed

lemma merging_seq_iterator: "seq_iterator (Merging c its) (Compare c) es mi_inv mi_pos"
proof (unfold_locales, goal_cases le valid key val first last seek forth backw status)
  case (first s)
  then obtain f where f: "mi_cut f s"
    by (auto simp: mi_inv_def mi_end_def mi_at_def split: if_splits)
  have "mi_cut (\<lambda>j. cnt j 0) (mi_each (\<lambda>it. iw_move it (i_SeekToFirst it)) its s)"
    using seq_iterator.first [OF child] cnt_le(3) by (intro mi_each_cut [OF f]) auto
  then show ?case
    using mi_forwardI [of 0] by (simp add: Merging_def mi_SeekToFirst_def)
next
  case (last s)
  then obtain f where f: "mi_cut f s"
    by (auto simp: mi_inv_def mi_end_def mi_at_def split: if_splits)
  have "mi_cut (\<lambda>j. rpos j (length es)) (mi_each (\<lambda>it. iw_move it (i_SeekToLast it)) its s)"
    using seq_iterator.last [OF child] cnt_le(2) by (intro mi_each_cut [OF f]) (auto simp: rpos_def)
  then show ?case
    using mi_reverseI [of "length es"] by (auto simp: Merging_def mi_SeekToLast_def split: if_splits)
next
  case (seek s t)
  then obtain f where f: "mi_cut f s"
    by (auto simp: mi_inv_def mi_end_def mi_at_def split: if_splits)
  have "mi_cut (\<lambda>j. cnt j (lower_bound (Compare c) t es)) (mi_each (\<lambda>it. iw_move it (i_Seek it t)) its s)"
    using seq_iterator.seek [OF child] lower_bound_cnt by (intro mi_each_cut [OF f]) auto
  then show ?case
    using mi_forwardI lower_bound_le by (simp add: Merging_def mi_Seek_def)
next
  case (forth s)
  then obtain p where "mi_at p s"
    by (auto simp: mi_inv_def mi_end_def mi_pos_def)
  then show ?case
    using mi_Next_spec mi_atD(3) by (simp add: Merging_def)
next
  case (backw s)
  then obtain p where "mi_at p s"
    by (auto simp: mi_inv_def mi_end_def mi_pos_def)
  then show ?case
    using mi_Prev_spec mi_atD(3) by (simp add: Merging_def)
next
  case (status s)
  then obtain f where f: "mi_cut f s"
    by (auto simp: mi_inv_def mi_end_def mi_at_def split: if_splits)
  then show ?case
    using mi_cutD(4) [OF f] by (auto simp: Merging_def mi_cut_def intro!: first_error_ok)
next
  case (valid s)
  then show ?case
    by (rule mi_inv_cases) (simp_all add: Merging_def)
next
  case (le s)
  then show ?case
    by (rule mi_inv_cases) simp_all
next
  case (key s)
  show ?case
    using key(2) by (cases rule: mi_inv_cases [OF key(1)]) (simp_all add: Merging_def mi_atD(1))
next
  case (val s)
  show ?case
    using val(2) by (cases rule: mi_inv_cases [OF val(1)]) (simp_all add: Merging_def mi_atD(2))
qed

lemma new_MergingIterator_inv:
  assumes "length ss = length ess" and "\<And>i. i < length ess \<Longrightarrow> cinv i (ss ! i)"
  shows "mi_inv (new_MergingIterator its ss)"
proof -
  have "mi_cut (\<lambda>j. cpos j (ss ! j)) (new_MergingIterator its ss)"
    using assms len by (auto simp: mi_cut_def new_MergingIterator_def new_IteratorWrapper_def iw_pos_def iw_Set_ok)
  then show ?thesis
    by (auto simp: mi_inv_def mi_end_def new_MergingIterator_def)
qed

end

text \<open>C8: Given children that meet the iterator contract for sorted sequences with no entry in common, the merging
  iterator over them meets it for their sorted union: every seek, and every step in either direction and after any
  change of direction, ends at the right entry.\<close>

theorem merging_iterator:
  assumes "three_way (Compare c)" and "length its = length ess" and "length ss = length ess"
    and "\<And>i. i < length ess \<Longrightarrow> seq_iterator (its ! i) (Compare c) (ess ! i) (cinv i) (cpos i) \<and> cinv i (ss ! i) \<and>
      sorted_wrt (\<lambda>a b. Compare c (fst a) (fst b) < 0) (ess ! i)"
    and "sorted_wrt (\<lambda>a b. Compare c (fst a) (fst b) < 0) es" and "set es = \<Union> (set ` set ess)"
    and "\<And>i j e. i < length ess \<Longrightarrow> j < length ess \<Longrightarrow> e \<in> set (ess ! i) \<Longrightarrow> e \<in> set (ess ! j) \<Longrightarrow> i = j"
  shows "\<exists>inv pos. seq_iterator (Merging c its) (Compare c) es inv pos \<and> inv (new_MergingIterator its ss)"
proof -
  have m: "merging c its ess es cinv cpos"
    using assms by (auto intro!: merging.intro merging_axioms.intro)
  show ?thesis
    using merging.merging_seq_iterator [OF m] merging.new_MergingIterator_inv [OF m assms(3)] assms(4) by blast
qed

theorem merging_iterator_witness:
  "\<exists>s0 s1 inv pos. Block_NewIterator (make_Block (fst (BlockBuilder_Finish (build_block 2 [(str ''a'', []), (str ''c'', [])])))) = Inr s0 \<and>
     Block_NewIterator (make_Block (fst (BlockBuilder_Finish (build_block 2 [(str ''b'', [])])))) = Inr s1 \<and>
     seq_iterator (Merging BytewiseComparator [BlockIterator BytewiseComparator, BlockIterator BytewiseComparator]) (Compare BytewiseComparator)
       [(str ''a'', []), (str ''b'', []), (str ''c'', [])] inv pos \<and>
     inv (new_MergingIterator [BlockIterator BytewiseComparator, BlockIterator BytewiseComparator] [s0, s1])"
proof -
  let ?c = BytewiseComparator
  let ?e0 = "[(str ''a'', []), (str ''c'', [])] :: entries" and ?e1 = "[(str ''b'', [])] :: entries"
  have tw: "three_way (Compare ?c)"
    by unfold_locales
  have sorted: "sorted_wrt (\<lambda>a b. Compare ?c (fst a) (fst b) < 0) ?e0" "sorted_wrt (\<lambda>a b. Compare ?c (fst a) (fst b) < 0) ?e1"
    "sorted_wrt (\<lambda>a b. Compare ?c (fst a) (fst b) < 0) [(str ''a'', []), (str ''b'', []), (str ''c'', [])]"
    by code_simp+
  have size: "length (fst (BlockBuilder_Finish (build_block 2 ?e0))) < 2 ^ 32" "length (fst (BlockBuilder_Finish (build_block 2 ?e1))) < 2 ^ 32"
    by (simp_all add: build_block_def BlockBuilder_Add_def BlockBuilder_Finish_def new_BlockBuilder_def Let_def entry_header_def
        Put_varint varint.simps foldl_PutFixed32 PutFixed32_def str_def comp_def)
  obtain s0 inv0 pos0 where b0: "Block_NewIterator (make_Block (fst (BlockBuilder_Finish (build_block 2 ?e0)))) = Inr s0" "inv0 s0"
    "seq_iterator (BlockIterator ?c) (Compare ?c) ?e0 inv0 pos0"
    using built_block_iterator [OF tw _ sorted(1) size(1)] by auto
  obtain s1 inv1 pos1 where b1: "Block_NewIterator (make_Block (fst (BlockBuilder_Finish (build_block 2 ?e1)))) = Inr s1" "inv1 s1"
    "seq_iterator (BlockIterator ?c) (Compare ?c) ?e1 inv1 pos1"
    using built_block_iterator [OF tw _ sorted(2) size(2)] by auto
  have "\<exists>inv pos. seq_iterator (Merging ?c [BlockIterator ?c, BlockIterator ?c]) (Compare ?c)
      [(str ''a'', []), (str ''b'', []), (str ''c'', [])] inv pos \<and> inv (new_MergingIterator [BlockIterator ?c, BlockIterator ?c] [s0, s1])"
    using b0 b1 sorted
    by (intro merging_iterator [where ess = "[?e0, ?e1]" and cinv = "\<lambda>i. if i = 0 then inv0 else inv1" and cpos = "\<lambda>i. if i = 0 then pos0 else pos1"] tw)
      (auto simp: nth_Cons str_def split: nat.splits)
  with b0(1) b1(1) show ?thesis
    by blast
qed

end
