(* ===== verification/Db_Iter.thy ===== *)
theory Db_Iter
  imports Memtable Merger
begin

text \<open>
  \<^verbatim>\<open>db/db_iter.cpp\<close>: the iterator of the database. It walks an iterator over internal keys and shows, for each user
  key, the newest value at a sequence number, skipping older versions and deleted keys. The loops return
  \<open>None\<close> if they never end. \<open>saved_key_\<close> is also the storage behind the \<open>skip\<close> argument of the forward
  loop, as in the code.
\<close>

record 's DBIter =
  di_iter :: 's
  di_sequence :: SequenceNumber
  di_status :: status
  di_saved_key :: slice
  di_saved_value :: slice
  di_direction :: Direction
  di_valid :: bool
  di_rnd :: u32
  di_bytes_counter :: u32

definition RandomPeriod :: "u32 \<Rightarrow> u32 \<times> u32" where
  "RandomPeriod rnd = Random_Uniform rnd (word_of_nat (2 * kReadBytesPeriod))"

definition NewDBIterator :: "'s \<Rightarrow> SequenceNumber \<Rightarrow> u32 \<Rightarrow> 's DBIter" where
  "NewDBIterator iter s seed =
     (let (period, rnd) = RandomPeriod (Random seed)
      in \<lparr>di_iter = iter, di_sequence = s, di_status = OK, di_saved_key = [], di_saved_value = [], di_direction = kForward,
          di_valid = False, di_rnd = rnd, di_bytes_counter = period\<rparr>)"

definition di_key :: "'s Iterator \<Rightarrow> 's DBIter \<Rightarrow> slice" where
  "di_key it s = (if di_direction s = kForward then ExtractUserKey (i_key it (di_iter s)) else di_saved_key s)"

definition di_value :: "'s Iterator \<Rightarrow> 's DBIter \<Rightarrow> slice" where
  "di_value it s = (if di_direction s = kForward then i_value it (di_iter s) else di_saved_value s)"

definition di_get_status :: "'s Iterator \<Rightarrow> 's DBIter \<Rightarrow> status" where
  "di_get_status it s = (if ok (di_status s) then i_status it (di_iter s) else di_status s)"

definition ClearSavedValue :: "'s DBIter \<Rightarrow> 's DBIter" where
  "ClearSavedValue s = s\<lparr>di_saved_value := []\<rparr>"

text \<open>
  \<open>bytes_counter_\<close> is unsigned: the loop that would sample reads while it is negative has no iteration.
\<close>

definition ParseKey :: "'s Iterator \<Rightarrow> 's DBIter \<Rightarrow> ParsedInternalKey option \<times> 's DBIter" where
  "ParseKey it s =
     (let k = i_key it (di_iter s);
          s = s\<lparr>di_bytes_counter := di_bytes_counter s - word_of_nat (length k + length (i_value it (di_iter s)))\<rparr>
      in case ParseInternalKey k of
           None \<Rightarrow> (None, s\<lparr>di_status := Corruption (str ''corrupted internal key in DBIter'') []\<rparr>)
         | Some ikey \<Rightarrow> (Some ikey, s))"

text \<open>One round of a loop ends it (\<open>Inl\<close>) or goes on.\<close>

definition next_round :: "'s Iterator \<Rightarrow> comparator \<Rightarrow> bool \<Rightarrow> 's DBIter \<Rightarrow> 's DBIter + bool \<times> 's DBIter" where
  "next_round it uc skipping s =
     (let (ikey, s) = ParseKey it s;
          advance = (\<lambda>skipping s.
            let s = s\<lparr>di_iter := i_Next it (di_iter s)\<rparr>
            in if i_Valid it (di_iter s) then Inr (skipping, s) else Inl (s\<lparr>di_saved_key := [], di_valid := False\<rparr>))
      in case ikey of
           None \<Rightarrow> advance skipping s
         | Some ik \<Rightarrow>
             if sequence ik \<le> di_sequence s then
               (case ktype ik of
                  kTypeDeletion \<Rightarrow> advance True (s\<lparr>di_saved_key := user_key ik\<rparr>)
                | kTypeValue \<Rightarrow>
                    if skipping \<and> Compare uc (user_key ik) (di_saved_key s) \<le> 0 then advance skipping s
                    else Inl (s\<lparr>di_valid := True, di_saved_key := []\<rparr>))
             else advance skipping s)"

partial_function (option) FindNextUserEntry :: "'s Iterator \<Rightarrow> comparator \<Rightarrow> bool \<Rightarrow> 's DBIter \<Rightarrow> 's DBIter option" where
  "FindNextUserEntry it uc skipping s =
     (let r = next_round it uc skipping s
      in if isl r then Some (projl r) else FindNextUserEntry it uc (fst (projr r)) (snd (projr r)))"

definition di_Next :: "'s Iterator \<Rightarrow> comparator \<Rightarrow> 's DBIter \<Rightarrow> 's DBIter option" where
  "di_Next it uc s =
     (if di_direction s = kReverse then
        let s = s\<lparr>di_direction := kForward\<rparr>;
            s = s\<lparr>di_iter := (if \<not> i_Valid it (di_iter s) then i_SeekToFirst it (di_iter s) else i_Next it (di_iter s))\<rparr>
        in if \<not> i_Valid it (di_iter s) then Some (s\<lparr>di_valid := False, di_saved_key := []\<rparr>)
           else FindNextUserEntry it uc True s
      else FindNextUserEntry it uc True (s\<lparr>di_saved_key := ExtractUserKey (i_key it (di_iter s))\<rparr>))"

definition prev_round :: "'s Iterator \<Rightarrow> comparator \<Rightarrow> ValueType \<Rightarrow> 's DBIter \<Rightarrow> (ValueType \<times> 's DBIter) + ValueType \<times> 's DBIter" where
  "prev_round it uc value_type s =
     (let (ikey, s) = ParseKey it s;
          retreat = (\<lambda>vt s.
            let s = s\<lparr>di_iter := i_Prev it (di_iter s)\<rparr>
            in if i_Valid it (di_iter s) then Inr (vt, s) else Inl (vt, s))
      in case ikey of
           None \<Rightarrow> retreat value_type s
         | Some ik \<Rightarrow>
             if sequence ik \<le> di_sequence s then
               if value_type \<noteq> kTypeDeletion \<and> Compare uc (user_key ik) (di_saved_key s) < 0 then Inl (value_type, s)
               else if ktype ik = kTypeDeletion then retreat (ktype ik) (ClearSavedValue (s\<lparr>di_saved_key := []\<rparr>))
               else retreat (ktype ik)
                 (s\<lparr>di_saved_key := ExtractUserKey (i_key it (di_iter s)), di_saved_value := i_value it (di_iter s)\<rparr>)
             else retreat value_type s)"

partial_function (option) prev_loop :: "'s Iterator \<Rightarrow> comparator \<Rightarrow> ValueType \<Rightarrow> 's DBIter \<Rightarrow> (ValueType \<times> 's DBIter) option" where
  "prev_loop it uc value_type s =
     (let r = prev_round it uc value_type s
      in if isl r then Some (projl r) else prev_loop it uc (fst (projr r)) (snd (projr r)))"

definition FindPrevUserEntry :: "'s Iterator \<Rightarrow> comparator \<Rightarrow> 's DBIter \<Rightarrow> 's DBIter option" where
  "FindPrevUserEntry it uc s =
     map_option (\<lambda>(value_type, s).
         if value_type = kTypeDeletion then (ClearSavedValue (s\<lparr>di_valid := False, di_saved_key := []\<rparr>))\<lparr>di_direction := kForward\<rparr>
         else s\<lparr>di_valid := True\<rparr>)
       (if i_Valid it (di_iter s) then prev_loop it uc kTypeDeletion s else Some (kTypeDeletion, s))"

text \<open>Leaving the entries of the current key backwards; the result says whether an entry with a smaller key was reached.\<close>

partial_function (option) leave_key :: "'s Iterator \<Rightarrow> comparator \<Rightarrow> 's DBIter \<Rightarrow> (bool \<times> 's DBIter) option" where
  "leave_key it uc s =
     (let s = s\<lparr>di_iter := i_Prev it (di_iter s)\<rparr>
      in if \<not> i_Valid it (di_iter s) then Some (False, s)
         else if Compare uc (ExtractUserKey (i_key it (di_iter s))) (di_saved_key s) < 0 then Some (True, s)
         else leave_key it uc s)"

definition di_Prev :: "'s Iterator \<Rightarrow> comparator \<Rightarrow> 's DBIter \<Rightarrow> 's DBIter option" where
  "di_Prev it uc s =
     (if di_direction s = kForward then
        (case leave_key it uc (s\<lparr>di_saved_key := ExtractUserKey (i_key it (di_iter s))\<rparr>) of
           None \<Rightarrow> None
         | Some (found, s) \<Rightarrow>
             if found then FindPrevUserEntry it uc (s\<lparr>di_direction := kReverse\<rparr>)
             else Some (ClearSavedValue (s\<lparr>di_valid := False, di_saved_key := []\<rparr>)))
      else FindPrevUserEntry it uc s)"

definition di_Seek :: "'s Iterator \<Rightarrow> comparator \<Rightarrow> slice \<Rightarrow> 's DBIter \<Rightarrow> 's DBIter option" where
  "di_Seek it uc target s =
     (let s = ClearSavedValue (s\<lparr>di_direction := kForward\<rparr>);
          s = s\<lparr>di_saved_key := AppendInternalKey [] \<lparr>user_key = target, sequence = di_sequence s, ktype = kValueTypeForSeek\<rparr>\<rparr>;
          s = s\<lparr>di_iter := i_Seek it (di_saved_key s) (di_iter s)\<rparr>
      in if i_Valid it (di_iter s) then FindNextUserEntry it uc False s else Some (s\<lparr>di_valid := False\<rparr>))"

definition di_SeekToFirst :: "'s Iterator \<Rightarrow> comparator \<Rightarrow> 's DBIter \<Rightarrow> 's DBIter option" where
  "di_SeekToFirst it uc s =
     (let s = ClearSavedValue (s\<lparr>di_direction := kForward\<rparr>); s = s\<lparr>di_iter := i_SeekToFirst it (di_iter s)\<rparr>
      in if i_Valid it (di_iter s) then FindNextUserEntry it uc False s else Some (s\<lparr>di_valid := False\<rparr>))"

definition di_SeekToLast :: "'s Iterator \<Rightarrow> comparator \<Rightarrow> 's DBIter \<Rightarrow> 's DBIter option" where
  "di_SeekToLast it uc s =
     (let s = ClearSavedValue (s\<lparr>di_direction := kReverse\<rparr>)
      in FindPrevUserEntry it uc (s\<lparr>di_iter := i_SeekToLast it (di_iter s)\<rparr>))"

definition DBIterator :: "'s Iterator \<Rightarrow> comparator \<Rightarrow> 's DBIter Iterator" where
  "DBIterator it uc =
     \<lparr>i_Valid = di_valid, i_SeekToFirst = or_stuck (di_SeekToFirst it uc), i_SeekToLast = or_stuck (di_SeekToLast it uc),
      i_Seek = (\<lambda>t. or_stuck (di_Seek it uc t)), i_Next = or_stuck (di_Next it uc), i_Prev = or_stuck (di_Prev it uc),
      i_key = di_key it, i_value = di_value it, i_status = di_get_status it\<rparr>"

text \<open>A client's calls; \<open>Next\<close> and \<open>Prev\<close> are only allowed on a valid iterator, so a call on an invalid one
  stands for no call.\<close>

datatype IterCall = CallSeekToFirst | CallSeekToLast | CallSeek slice | CallNext | CallPrev

fun di_call :: "'s Iterator \<Rightarrow> comparator \<Rightarrow> IterCall \<Rightarrow> 's DBIter \<Rightarrow> 's DBIter option" where
  "di_call it uc CallSeekToFirst s = di_SeekToFirst it uc s"
| "di_call it uc CallSeekToLast s = di_SeekToLast it uc s"
| "di_call it uc (CallSeek t) s = di_Seek it uc t s"
| "di_call it uc CallNext s = (if di_valid s then di_Next it uc s else Some s)"
| "di_call it uc CallPrev s = (if di_valid s then di_Prev it uc s else Some s)"

fun di_calls :: "'s Iterator \<Rightarrow> comparator \<Rightarrow> IterCall list \<Rightarrow> 's DBIter \<Rightarrow> 's DBIter option" where
  "di_calls it uc [] s = Some s"
| "di_calls it uc (c # cs) s = Option.bind (di_call it uc c s) (di_calls it uc cs)"

section \<open>The user's view of a sequence of internal entries\<close>

definition internal_entries :: "entry list \<Rightarrow> entries" where
  "internal_entries L = map (\<lambda>e. (entry_ikey e, snd (snd (snd e)))) L"

text \<open>The newest entry of each user key at the sequence number \<open>snap\<close>, unless it is a deletion.\<close>

fun in_view :: "comparator \<Rightarrow> SequenceNumber \<Rightarrow> entry list \<Rightarrow> entry \<Rightarrow> bool" where
  "in_view uc snap L (u, s, t, v) \<longleftrightarrow> s \<le> snap \<and> t = kTypeValue \<and>
     list_all (\<lambda>e'. visible uc u snap e' \<longrightarrow> newer_eq (u, s, t, v) e') L"

definition user_view :: "comparator \<Rightarrow> SequenceNumber \<Rightarrow> entry list \<Rightarrow> entries" where
  "user_view uc snap L = map (\<lambda>e. (fst e, snd (snd (snd e)))) (filter (in_view uc snap L) L)"

lemma lower_bound_below: "i < lower_bound cmp t es \<Longrightarrow> cmp (fst (es ! i)) t < 0"
  unfolding lower_bound_def using nth_mem [of i "takeWhile (\<lambda>(k, v). cmp k t < 0) es"]
  by (auto simp: takeWhile_nth case_prod_unfold dest: set_takeWhileD)

lemma lower_bound_above: "lower_bound cmp t es < length es \<Longrightarrow> \<not> cmp (fst (es ! lower_bound cmp t es)) t < 0"
  unfolding lower_bound_def using nth_length_takeWhile [of "\<lambda>(k, v). cmp k t < 0" es]
  by (auto simp: case_prod_unfold)

locale db_view = three_way "Compare uc" + src: seq_iterator it "internal_Compare uc" "internal_entries L" I pos
  for uc :: comparator and it :: "'s Iterator" and L :: "entry list" and I :: "'s \<Rightarrow> bool" and pos :: "'s \<Rightarrow> nat" +
  fixes snap :: SequenceNumber
  assumes seqs: "e \<in> set L \<Longrightarrow> fst (snd e) \<le> kMaxSequenceNumber"
    and sorted: "sorted_wrt (\<lambda>e e'. internal_Compare uc (entry_ikey e) (entry_ikey e') < 0) L"
    and snap: "snap \<le> kMaxSequenceNumber"
begin

abbreviation n where "n \<equiv> length L"
abbreviation U where "U i \<equiv> fst (L ! i)"
abbreviation V where "V i \<equiv> fst (snd (L ! i)) \<le> snap"
abbreviation T where "T i \<equiv> fst (snd (snd (L ! i)))"
abbreviation val where "val i \<equiv> snd (snd (snd (L ! i)))"

definition live :: "nat \<Rightarrow> bool" where
  "live i \<longleftrightarrow> i < n \<and> V i \<and> T i = kTypeValue \<and> (\<forall>j < i. V j \<longrightarrow> Compare uc (U j) (U i) \<noteq> 0)"

definition rank :: "nat \<Rightarrow> nat" where
  "rank k = length (filter live [0..<k])"

lemma length_ies [simp]: "length (internal_entries L) = n"
  by (simp add: internal_entries_def)

lemma ies_nth [simp]: "i < n \<Longrightarrow> internal_entries L ! i = (InternalKey (U i) (fst (snd (L ! i))) (T i), val i)"
  by (cases "L ! i") (simp add: internal_entries_def)

lemma order:
  assumes "i < j" "j < n"
  shows "Compare uc (U i) (U j) < 0 \<or> Compare uc (U i) (U j) = 0 \<and>
    (fst (snd (L ! j)) < fst (snd (L ! i)) \<or>
     fst (snd (L ! j)) = fst (snd (L ! i)) \<and> ValueType_code (T j) < ValueType_code (T i))"
proof -
  obtain u s t v u' s' t' v' where e: "L ! i = (u, s, t, v)" "L ! j = (u', s', t', v')"
    by (metis prod_cases4)
  have "internal_Compare uc (entry_ikey (L ! i)) (entry_ikey (L ! j)) < 0"
    using sorted_wrt_nth_less [OF sorted assms] .
  moreover have "s \<le> kMaxSequenceNumber" "s' \<le> kMaxSequenceNumber"
    using seqs [OF nth_mem [of i]] seqs [OF nth_mem [of j]] assms e by auto
  ultimately show ?thesis
    by (auto simp: e internal_Compare_InternalKey split: if_splits)
qed

lemma users_mono: "i \<le> j \<Longrightarrow> j < n \<Longrightarrow> Compare uc (U i) (U j) \<le> 0"
  using order [of i j] by (cases "i = j") fastforce+

lemma newer_iff:
  assumes "i < n" "j < n" "Compare uc (U j) (U i) = 0"
  shows "newer_eq (L ! i) (L ! j) \<longleftrightarrow> i \<le> j"
proof -
  obtain u s t v u' s' t' v' where e: "L ! i = (u, s, t, v)" "L ! j = (u', s', t', v')"
    by (metis prod_cases4)
  consider "i < j" | "i = j" | "j < i" by linarith
  then show ?thesis
    by cases (use order [of i j] order [of j i] assms cmp_eq_flip [of u u'] in \<open>auto simp: e\<close>)
qed

lemma in_view_iff:
  assumes "i < n"
  shows "in_view uc snap L (L ! i) \<longleftrightarrow> live i"
proof -
  obtain u s t v where e: "L ! i = (u, s, t, v)"
    by (metis prod_cases4)
  have vis: "visible uc u snap (L ! j) \<longleftrightarrow> Compare uc (U j) u = 0 \<and> V j" for j
    by (cases "L ! j") simp
  have each: "(visible uc u snap (L ! j) \<longrightarrow> newer_eq (L ! i) (L ! j)) \<longleftrightarrow> (V j \<and> Compare uc (U j) (U i) = 0 \<longrightarrow> i \<le> j)"
    if "j < n" for j
    using newer_iff [OF assms that] by (auto simp: vis e)
  have "(\<forall>j < n. visible uc u snap (L ! j) \<longrightarrow> newer_eq (L ! i) (L ! j)) \<longleftrightarrow>
      (\<forall>j < n. V j \<and> Compare uc (U j) (U i) = 0 \<longrightarrow> i \<le> j)"
    using each by blast
  also have "\<dots> \<longleftrightarrow> (\<forall>j < i. V j \<longrightarrow> Compare uc (U j) (U i) \<noteq> 0)"
    using assms by (meson less_trans not_le)
  finally have "(\<forall>j < n. visible uc u snap (L ! j) \<longrightarrow> newer_eq (u, s, t, v) (L ! j)) \<longleftrightarrow>
      (\<forall>j < i. V j \<longrightarrow> Compare uc (U j) u \<noteq> 0)"
    by (simp add: e)
  then show ?thesis
    using assms by (simp add: live_def e list_all_length)
qed

lemma user_view_eq: "user_view uc snap L = map (\<lambda>i. (U i, val i)) (filter live [0..<n])"
proof -
  have "filter (in_view uc snap L) L = map (\<lambda>i. L ! i) (filter (\<lambda>i. in_view uc snap L (L ! i)) [0..<n])"
    by (subst map_nth [of L, symmetric], subst filter_map) (simp add: comp_def)
  also have "filter (\<lambda>i. in_view uc snap L (L ! i)) [0..<n] = filter live [0..<n]"
    by (intro filter_cong) (auto simp: in_view_iff)
  finally show ?thesis
    by (simp add: user_view_def)
qed

lemma length_view: "length (user_view uc snap L) = rank n"
  by (simp add: user_view_eq rank_def)

lemma rank_Suc [simp]: "rank (Suc k) = rank k + (if live k then 1 else 0)" "rank 0 = 0"
  by (simp_all add: rank_def)

lemma rank_n_0: "\<not> 0 < n \<Longrightarrow> rank n = 0"
  using rank_Suc(2) by (metis gr0I)

lemma rank_skip: "a \<le> b \<Longrightarrow> (\<And>q. a \<le> q \<Longrightarrow> q < b \<Longrightarrow> \<not> live q) \<Longrightarrow> rank b = rank a"
proof (induction b)
  case (Suc b)
  then show ?case by (cases "a = Suc b") (auto simp: le_Suc_eq)
qed simp

lemma rank_mono: "a \<le> b \<Longrightarrow> rank a \<le> rank b"
  by (induction b) (auto simp: le_Suc_eq)

lemma view_lower_bound:
  assumes "p \<le> n" "\<And>i. i < p \<Longrightarrow> live i \<Longrightarrow> Compare uc (U i) t < 0" "\<And>i. p \<le> i \<Longrightarrow> live i \<Longrightarrow> \<not> Compare uc (U i) t < 0"
  shows "lower_bound (Compare uc) t (user_view uc snap L) = rank p"
proof -
  have "[0..<n] = [0..<p] @ [p..<n]"
    using assms(1) by (metis le_add_diff_inverse upt_add_eq_append zero_le)
  then have "user_view uc snap L = map (\<lambda>i. (U i, val i)) (filter live [0..<p]) @ map (\<lambda>i. (U i, val i)) (filter live [p..<n])"
    by (simp add: user_view_eq)
  moreover have "takeWhile (\<lambda>(k, v). Compare uc k t < 0) (map (\<lambda>i. (U i, val i)) (filter live [p..<n])) = []"
    using assms(3) hd_in_set [of "filter live [p..<n]"]
    by (cases "filter live [p..<n] = []") (auto simp: takeWhile_eq_Nil_iff hd_map)
  moreover have "takeWhile (\<lambda>(k, v). Compare uc k t < 0) (map (\<lambda>i. (U i, val i)) (filter live [0..<p]) @ ys) =
      map (\<lambda>i. (U i, val i)) (filter live [0..<p]) @ takeWhile (\<lambda>(k, v). Compare uc k t < 0) ys" for ys
    using assms(2) by (intro takeWhile_append2) auto
  ultimately show ?thesis
    by (simp add: lower_bound_def rank_def)
qed

lemma live_nth:
  assumes "live m"
  shows "rank m < rank n" "user_view uc snap L ! rank m = (U m, val m)"
proof -
  have m: "m < n" using assms by (simp add: live_def)
  then have "[0..<n] = [0..<m] @ m # [Suc m..<n]"
    by (metis le_add1 add_0 less_imp_le upt_add_eq_append upt_conv_Cons le_add_diff_inverse)
  then show "user_view uc snap L ! rank m = (U m, val m)"
    using assms by (simp add: user_view_eq rank_def nth_append)
  show "rank m < rank n"
    using rank_mono [of "Suc m" n] m assms by simp
qed

definition di_ok :: "'s DBIter \<Rightarrow> bool" where
  "di_ok s \<longleftrightarrow> I (di_iter s) \<and> di_status s = OK \<and> di_sequence s = snap"

lemma di_ok_update [simp]:
  "di_ok (s\<lparr>di_saved_key := k\<rparr>) = di_ok s" "di_ok (s\<lparr>di_saved_value := k\<rparr>) = di_ok s" "di_ok (s\<lparr>di_valid := v\<rparr>) = di_ok s"
  "di_ok (s\<lparr>di_direction := d\<rparr>) = di_ok s" "di_ok (s\<lparr>di_bytes_counter := b\<rparr>) = di_ok s"
  by (simp_all add: di_ok_def)

abbreviation at where "at s \<equiv> pos (di_iter s)"

lemma ParseKey_at:
  assumes "di_ok s" "at s < n"
  shows "\<exists>b. ParseKey it s =
    (Some \<lparr>user_key = U (at s), sequence = fst (snd (L ! at s)), ktype = T (at s)\<rparr>, s\<lparr>di_bytes_counter := b\<rparr>)"
  using assms seqs [OF nth_mem [of "at s"]] src.key [of "di_iter s"]
  by (auto simp: ParseKey_def di_ok_def Let_def)

text \<open>What the forward loop looks for from position \<open>p\<close>: a visible value that is not skipped and that no visible entry
  of the same key passed on the way hides.\<close>

definition hit :: "nat \<Rightarrow> bool \<Rightarrow> slice \<Rightarrow> nat \<Rightarrow> bool" where
  "hit p skipping skip q \<longleftrightarrow> V q \<and> T q = kTypeValue \<and> \<not> (skipping \<and> Compare uc (U q) skip \<le> 0) \<and>
     (\<forall>j. p \<le> j \<and> j < q \<longrightarrow> V j \<longrightarrow> Compare uc (U j) (U q) \<noteq> 0)"

lemma hit_self: "hit p skipping skip p \<longleftrightarrow> V p \<and> T p = kTypeValue \<and> \<not> (skipping \<and> Compare uc (U p) skip \<le> 0)"
  by (auto simp: hit_def)

lemma hit_step:
  assumes "p < q" "q < n" "\<not> hit p skipping skip p"
    and "skipping \<Longrightarrow> V p \<Longrightarrow> Compare uc skip (U p) \<le> 0"
  shows "hit (Suc p) (skipping \<or> V p \<and> T p = kTypeDeletion) (if V p \<and> T p = kTypeDeletion then U p else skip) q \<longleftrightarrow>
    hit p skipping skip q"
proof -
  have split: "(\<forall>j. p \<le> j \<and> j < q \<longrightarrow> V j \<longrightarrow> Compare uc (U j) (U q) \<noteq> 0) \<longleftrightarrow>
      (V p \<longrightarrow> Compare uc (U p) (U q) \<noteq> 0) \<and> (\<forall>j. Suc p \<le> j \<and> j < q \<longrightarrow> V j \<longrightarrow> Compare uc (U j) (U q) \<noteq> 0)"
    using \<open>p < q\<close> by (metis Suc_le_eq le_eq_less_or_eq order_refl)
  have le: "Compare uc (U p) (U q) \<le> 0"
    using users_mono assms by simp
  consider "\<not> V p" | "V p" "T p = kTypeDeletion" | "V p" "T p = kTypeValue" "skipping" "Compare uc (U p) skip \<le> 0"
    using assms(3) by (cases "T p") (auto simp: hit_self)
  then show ?thesis
  proof cases
    case 2
    have "Compare uc (U q) (U p) \<le> 0 \<longleftrightarrow> Compare uc (U p) (U q) = 0"
      using le cmp_le_flip [of "U p" "U q"] by linarith
    moreover have "Compare uc (U q) (U p) \<le> 0" if "skipping" "Compare uc (U q) skip \<le> 0"
      using cmp_le_trans [OF that(2) assms(4) [OF that(1) 2(1)]] .
    ultimately show ?thesis
      using 2 unfolding hit_def split by auto
  next
    case 3
    have "Compare uc (U q) skip \<le> 0" if "Compare uc (U p) (U q) = 0"
      using cmp_le_trans [of "U q" "U p" skip] 3 that cmp_eq_flip [of "U p" "U q"] by simp
    then show ?thesis
      using 3 unfolding hit_def split by auto
  qed (simp add: hit_def split)
qed

lemma next_round_stop:
  assumes "di_ok s" "at s < n" "hit (at s) skipping (di_saved_key s) (at s)"
  shows "\<exists>b. next_round it uc skipping s = Inl (s\<lparr>di_bytes_counter := b, di_valid := True, di_saved_key := []\<rparr>)"
  using ParseKey_at [OF assms(1,2)] assms by (auto simp: next_round_def hit_self di_ok_def)

lemma next_round_go:
  assumes ok: "di_ok s" and p: "at s < n" and miss: "\<not> hit (at s) skipping (di_saved_key s) (at s)"
  shows "\<exists>s'. next_round it uc skipping s =
      (if Suc (at s) < n then Inr (skipping \<or> V (at s) \<and> T (at s) = kTypeDeletion, s')
       else Inl (s'\<lparr>di_saved_key := [], di_valid := False\<rparr>)) \<and>
    di_ok s' \<and> at s' = Suc (at s) \<and> di_direction s' = di_direction s \<and>
    di_saved_key s' = (if V (at s) \<and> T (at s) = kTypeDeletion then U (at s) else di_saved_key s)"
proof -
  have I: "I (di_iter s)" "di_sequence s = snap" "di_status s = OK"
    using ok by (simp_all add: di_ok_def)
  have st: "I (i_Next it (di_iter s))" "pos (i_Next it (di_iter s)) = Suc (at s)"
    using src.step [OF I(1)] p by auto
  have valid: "i_Valid it (i_Next it (di_iter s)) \<longleftrightarrow> Suc (at s) < n"
    using src.valid [OF st(1)] st(2) by simp
  obtain b where b: "ParseKey it s =
    (Some \<lparr>user_key = U (at s), sequence = fst (snd (L ! at s)), ktype = T (at s)\<rparr>, s\<lparr>di_bytes_counter := b\<rparr>)"
    using ParseKey_at [OF ok p] by blast
  consider "\<not> V (at s)" | "V (at s)" "T (at s) = kTypeDeletion"
    | "V (at s)" "T (at s) = kTypeValue" "skipping" "Compare uc (U (at s)) (di_saved_key s) \<le> 0"
    using miss by (cases "T (at s)") (auto simp: hit_self)
  then show ?thesis
    by (intro exI [of _ "s\<lparr>di_bytes_counter := b, di_iter := i_Next it (di_iter s),
        di_saved_key := if V (at s) \<and> T (at s) = kTypeDeletion then U (at s) else di_saved_key s\<rparr>"], cases)
      (simp_all add: next_round_def b I st valid di_ok_def Let_def)
qed

lemma first_from_Suc:
  fixes A B :: "nat \<Rightarrow> bool"
  assumes "\<not> A p" and AB: "\<And>q. p < q \<Longrightarrow> q < k \<Longrightarrow> B q \<longleftrightarrow> A q"
    and "if v then Suc p \<le> m \<and> m < k \<and> B m \<and> (\<forall>r. Suc p \<le> r \<and> r < m \<longrightarrow> \<not> B r) else \<forall>r. Suc p \<le> r \<and> r < k \<longrightarrow> \<not> B r"
  shows "if v then p \<le> m \<and> m < k \<and> A m \<and> (\<forall>r. p \<le> r \<and> r < m \<longrightarrow> \<not> A r) else \<forall>r. p \<le> r \<and> r < k \<longrightarrow> \<not> A r"
proof -
  have ext: "\<forall>r. p \<le> r \<and> r < m' \<longrightarrow> \<not> A r" if "\<forall>r. Suc p \<le> r \<and> r < m' \<longrightarrow> \<not> B r" "m' \<le> k" for m'
  proof (intro allI impI)
    fix r assume "p \<le> r \<and> r < m'"
    then show "\<not> A r" using that assms(1) AB [of r] by (cases "r = p") auto
  qed
  show ?thesis
    using assms(3) ext [of m] ext [of k] AB [of m] by (cases v) auto
qed

lemma FindNextUserEntry_spec:
  assumes "di_ok s" "at s < n" "di_direction s = kForward"
    and "skipping \<Longrightarrow> \<forall>q. at s \<le> q \<and> q < n \<longrightarrow> V q \<longrightarrow> Compare uc (di_saved_key s) (U q) \<le> 0"
  shows "\<exists>s'. FindNextUserEntry it uc skipping s = Some s' \<and> di_ok s' \<and> di_direction s' = kForward \<and>
    (if di_valid s' then at s \<le> at s' \<and> at s' < n \<and> hit (at s) skipping (di_saved_key s) (at s') \<and>
        (\<forall>r. at s \<le> r \<and> r < at s' \<longrightarrow> \<not> hit (at s) skipping (di_saved_key s) r)
     else \<forall>r. at s \<le> r \<and> r < n \<longrightarrow> \<not> hit (at s) skipping (di_saved_key s) r)"
  using assms
proof (induction "n - at s" arbitrary: s skipping rule: less_induct)
  case less
  let ?p = "at s" and ?k = "di_saved_key s"
  show ?case
  proof (cases "hit ?p skipping ?k ?p")
    case True
    then obtain b where "next_round it uc skipping s = Inl (s\<lparr>di_bytes_counter := b, di_valid := True, di_saved_key := []\<rparr>)"
      using next_round_stop less.prems by blast
    then show ?thesis
      using less.prems True by (subst FindNextUserEntry.simps) (auto simp: di_ok_def)
  next
    case False
    let ?sk = "skipping \<or> V ?p \<and> T ?p = kTypeDeletion"
    obtain s' where s': "next_round it uc skipping s =
        (if Suc ?p < n then Inr (?sk, s') else Inl (s'\<lparr>di_saved_key := [], di_valid := False\<rparr>))"
      "di_ok s'" "at s' = Suc ?p" "di_direction s' = kForward"
      "di_saved_key s' = (if V ?p \<and> T ?p = kTypeDeletion then U ?p else ?k)"
      using next_round_go [OF less.prems(1,2) False] less.prems(3) by auto
    show ?thesis
    proof (cases "Suc ?p < n")
      case True
      have hits: "hit (Suc ?p) ?sk (di_saved_key s') q \<longleftrightarrow> hit ?p skipping ?k q" if "?p < q" "q < n" for q
        using hit_step [OF that False] less.prems(2,4) unfolding s'(3,5) by simp
      have "\<forall>q. at s' \<le> q \<and> q < n \<longrightarrow> V q \<longrightarrow> Compare uc (di_saved_key s') (U q) \<le> 0" if "?sk"
        using that less.prems(4) users_mono [of ?p] unfolding s'(3,5) by (auto split: if_splits)
      note IH = less.hyps [of s' ?sk, OF _ s'(2) _ s'(4) this]
      obtain s'' where s'': "FindNextUserEntry it uc ?sk s' = Some s''" "di_ok s''" "di_direction s'' = kForward"
        "if di_valid s'' then at s' \<le> at s'' \<and> at s'' < n \<and> hit (at s') ?sk (di_saved_key s') (at s'') \<and>
            (\<forall>r. at s' \<le> r \<and> r < at s'' \<longrightarrow> \<not> hit (at s') ?sk (di_saved_key s') r)
         else \<forall>r. at s' \<le> r \<and> r < n \<longrightarrow> \<not> hit (at s') ?sk (di_saved_key s') r"
        using IH True less.prems(2) unfolding s'(3) by (elim exE conjE meta_impE) (auto intro: diff_less_mono2)
      have "FindNextUserEntry it uc skipping s = Some s''"
        using s''(1) by (subst FindNextUserEntry.simps) (simp add: s'(1) True)
      moreover have "if di_valid s'' then ?p \<le> at s'' \<and> at s'' < n \<and> hit ?p skipping ?k (at s'') \<and>
            (\<forall>r. ?p \<le> r \<and> r < at s'' \<longrightarrow> \<not> hit ?p skipping ?k r)
         else \<forall>r. ?p \<le> r \<and> r < n \<longrightarrow> \<not> hit ?p skipping ?k r"
        by (rule first_from_Suc [OF False hits s''(4) [unfolded s'(3)]])
      ultimately show ?thesis
        using s''(2,3) by blast
    next
      case last_entry: False
      then have "\<forall>r. ?p \<le> r \<and> r < n \<longrightarrow> \<not> hit ?p skipping ?k r"
        using False by (metis Suc_leI le_antisym not_less order_le_less_trans Suc_lessI le_neq_implies_less)
      then show ?thesis
        using last_entry by (subst FindNextUserEntry.simps) (simp add: s')
    qed
  qed
qed

lemma prev_round_stop:
  assumes "di_ok s" "at s < n" "V (at s)" "value_type = kTypeValue" "Compare uc (U (at s)) (di_saved_key s) < 0"
  shows "\<exists>b. prev_round it uc value_type s = Inl (value_type, s\<lparr>di_bytes_counter := b\<rparr>)"
  using ParseKey_at [OF assms(1,2)] assms by (auto simp: prev_round_def di_ok_def)

lemma prev_round_go:
  assumes ok: "di_ok s" and x: "at s < n"
    and go: "\<not> (V (at s) \<and> value_type = kTypeValue \<and> Compare uc (U (at s)) (di_saved_key s) < 0)"
  shows "\<exists>s'. prev_round it uc value_type s =
      (if at s = 0 then Inl (if V (at s) then T (at s) else value_type, s')
       else Inr (if V (at s) then T (at s) else value_type, s')) \<and>
    di_ok s' \<and> at s' = (if at s = 0 then n else at s - 1) \<and> di_direction s' = di_direction s \<and>
    (\<not> V (at s) \<longrightarrow> di_saved_key s' = di_saved_key s \<and> di_saved_value s' = di_saved_value s) \<and>
    (V (at s) \<and> T (at s) = kTypeValue \<longrightarrow> di_saved_key s' = U (at s) \<and> di_saved_value s' = val (at s))"
proof -
  have I: "I (di_iter s)" "di_sequence s = snap" "di_status s = OK"
    using ok by (simp_all add: di_ok_def)
  have st: "I (i_Prev it (di_iter s))" "pos (i_Prev it (di_iter s)) = (if at s = 0 then n else at s - 1)"
    using src.prev [OF I(1)] x by auto
  have valid: "i_Valid it (i_Prev it (di_iter s)) \<longleftrightarrow> at s \<noteq> 0"
    using src.valid [OF st(1)] st(2) x by auto
  have kv: "i_key it (di_iter s) = InternalKey (U (at s)) (fst (snd (L ! at s))) (T (at s))" "i_value it (di_iter s) = val (at s)"
    using src.key [OF I(1)] src.val [OF I(1)] x by auto
  obtain b where b: "ParseKey it s =
    (Some \<lparr>user_key = U (at s), sequence = fst (snd (L ! at s)), ktype = T (at s)\<rparr>, s\<lparr>di_bytes_counter := b\<rparr>)"
    using ParseKey_at [OF ok x] by blast
  have vt: "value_type \<noteq> kTypeDeletion \<longleftrightarrow> value_type = kTypeValue"
    by (cases value_type) auto
  show ?thesis
    using go by (intro exI [of _ "s\<lparr>di_bytes_counter := b, di_iter := i_Prev it (di_iter s),
        di_saved_key := if \<not> V (at s) then di_saved_key s else if T (at s) = kTypeDeletion then [] else U (at s),
        di_saved_value := if \<not> V (at s) then di_saved_value s else if T (at s) = kTypeDeletion then [] else val (at s)\<rparr>"],
        cases "at s = 0"; cases "V (at s)"; cases "T (at s)")
      (auto simp: prev_round_def b I st valid kv vt di_ok_def ClearSavedValue_def Let_def)
qed

text \<open>What the backward loop knows once it has looked at the positions from \<open>c\<close> to \<open>p\<close>.\<close>

definition candidate :: "nat \<Rightarrow> nat \<Rightarrow> 's DBIter \<Rightarrow> nat \<Rightarrow> bool" where
  "candidate c p s m \<longleftrightarrow> c \<le> m \<and> m \<le> p \<and> V m \<and> T m = kTypeValue \<and> di_saved_key s = U m \<and> di_saved_value s = val m \<and>
     (\<forall>i. c \<le> i \<and> i < m \<longrightarrow> \<not> V i) \<and> (\<forall>q. c \<le> q \<and> q \<le> p \<and> live q \<longrightarrow> q = m)"

definition scanned :: "nat \<Rightarrow> nat \<Rightarrow> ValueType \<Rightarrow> 's DBIter \<Rightarrow> bool" where
  "scanned c p value_type s \<longleftrightarrow>
     (if value_type = kTypeValue then \<exists>m. candidate c p s m else \<forall>q. c \<le> q \<and> q \<le> p \<longrightarrow> \<not> live q)"

lemma scanned_hidden:
  assumes "scanned (Suc x) p vt s" "\<not> V x"
    and "di_saved_key s' = di_saved_key s" "di_saved_value s' = di_saved_value s"
  shows "scanned x p vt s'"
proof -
  have hidden: "\<not> live x" using assms by (simp add: live_def)
  have "candidate x p s' m" if "candidate (Suc x) p s m" for m
    using that hidden assms(2-) unfolding candidate_def by (metis Suc_leD Suc_leI le_neq_implies_less)
  then show ?thesis
    using assms(1) hidden unfolding scanned_def by (metis Suc_leI le_neq_implies_less)
qed

lemma scanned_seen:
  assumes "scanned (Suc x) p vt s" "V x" "x \<le> p" "p < n" "vt = kTypeValue \<Longrightarrow> \<not> Compare uc (U x) (di_saved_key s) < 0"
    and "T x = kTypeValue \<Longrightarrow> di_saved_key s' = U x \<and> di_saved_value s' = val x"
  shows "scanned x p (T x) s'"
proof -
  have none: "\<not> live q" if "x < q" "q \<le> p" for q
  proof
    assume live: "live q"
    show False
    proof (cases "vt = kTypeValue")
      case True
      then obtain m where m: "candidate (Suc x) p s m"
        using assms(1) by (auto simp: scanned_def)
      then have "q = m" "m < n" "x \<le> m"
        using live that assms(4) by (auto simp: candidate_def)
      moreover have "Compare uc (U x) (U m) = 0"
        using assms(5) [OF True] m users_mono [of x m] \<open>m < n\<close> \<open>x \<le> m\<close> by (simp add: candidate_def)
      ultimately show False
        using live that assms(2) by (auto simp: live_def)
    next
      case False
      then show False using assms(1) live that by (auto simp: scanned_def)
    qed
  qed
  show ?thesis
  proof (cases "T x")
    case kTypeDeletion
    then have "\<not> live x" by (simp add: live_def)
    then show ?thesis
      using none kTypeDeletion unfolding scanned_def by (metis ValueType.distinct(1) le_neq_implies_less)
  next
    case kTypeValue
    then have "candidate x p s' x"
      using none assms unfolding candidate_def by (metis le_neq_implies_less not_le order_refl)
    then show ?thesis
      using kTypeValue by (auto simp: scanned_def)
  qed
qed

lemma prev_loop_spec:
  assumes "di_ok s" "at s < n" "at s \<le> p" "p < n" "scanned (Suc (at s)) p vt s"
  shows "\<exists>vt' s' c. prev_loop it uc vt s = Some (vt', s') \<and> di_ok s' \<and> di_direction s' = di_direction s \<and>
    at s' = (if c = 0 then n else c - 1) \<and> c \<le> p + 1 \<and> scanned c p vt' s' \<and>
    (if vt' = kTypeValue then \<forall>i < c. Compare uc (U i) (di_saved_key s') < 0 else c = 0)"
  using assms
proof (induction "at s" arbitrary: s vt rule: less_induct)
  case less
  let ?x = "at s"
  show ?case
  proof (cases "V ?x \<and> vt = kTypeValue \<and> Compare uc (U ?x) (di_saved_key s) < 0")
    case True
    then obtain b where "prev_round it uc vt s = Inl (vt, s\<lparr>di_bytes_counter := b\<rparr>)"
      using prev_round_stop less.prems by blast
    moreover have "Compare uc (U i) (di_saved_key s) < 0" if "i < Suc ?x" for i
      using cmp_le_less_trans [OF users_mono [of i ?x]] True that less.prems(2) by simp
    ultimately show ?thesis
      using less.prems True
      by (subst prev_loop.simps, intro exI [of _ vt] exI [of _ "s\<lparr>di_bytes_counter := b\<rparr>"] exI [of _ "Suc ?x"])
        (simp add: scanned_def candidate_def [abs_def])
  next
    case False
    let ?vt = "if V ?x then T ?x else vt"
    obtain s' where s': "prev_round it uc vt s = (if ?x = 0 then Inl (?vt, s') else Inr (?vt, s'))"
      "di_ok s'" "at s' = (if ?x = 0 then n else ?x - 1)" "di_direction s' = di_direction s"
      "\<not> V ?x \<Longrightarrow> di_saved_key s' = di_saved_key s \<and> di_saved_value s' = di_saved_value s"
      "V ?x \<and> T ?x = kTypeValue \<Longrightarrow> di_saved_key s' = U ?x \<and> di_saved_value s' = val ?x"
      using prev_round_go [OF less.prems(1,2) False] by blast
    have sc: "scanned ?x p ?vt s'"
      using scanned_hidden [OF less.prems(5)] scanned_seen [OF less.prems(5) _ less.prems(3,4)] s'(5,6) False by auto
    show ?thesis
    proof (cases "?x = 0")
      case True
      then show ?thesis
        using s' sc by (subst prev_loop.simps, intro exI [of _ ?vt] exI [of _ s'] exI [of _ 0]) simp
    next
      case x: False
      have step: "prev_loop it uc vt s = prev_loop it uc ?vt s'"
        using x by (subst prev_loop.simps) (simp add: s'(1))
      have "\<exists>vt' s'' c. prev_loop it uc ?vt s' = Some (vt', s'') \<and> di_ok s'' \<and> di_direction s'' = di_direction s' \<and>
          at s'' = (if c = 0 then n else c - 1) \<and> c \<le> p + 1 \<and> scanned c p vt' s'' \<and>
          (if vt' = kTypeValue then \<forall>i < c. Compare uc (U i) (di_saved_key s'') < 0 else c = 0)"
        by (rule less.hyps) (use x less.prems s'(2,3) sc in auto)
      then show ?thesis
        unfolding step s'(4) .
    qed
  qed
qed

text \<open>The invariant between operations and the position in the view. Moving backward, the inner iterator stands just
  before the entries of the current key.\<close>

abbreviation low where "low s \<equiv> if at s < n then Suc (at s) else 0"

definition reverse_at :: "'s DBIter \<Rightarrow> nat \<Rightarrow> bool" where
  "reverse_at s m \<longleftrightarrow> live m \<and> low s \<le> m \<and> di_saved_key s = U m \<and> di_saved_value s = val m \<and>
     (\<forall>i < low s. Compare uc (U i) (U m) < 0) \<and> (\<forall>i. low s \<le> i \<and> i < m \<longrightarrow> \<not> V i)"

definition settled :: "'s DBIter \<Rightarrow> bool" where
  "settled s \<longleftrightarrow> di_ok s \<and> (di_valid s \<longrightarrow> (if di_direction s = kForward then at s < n \<and> live (at s) else \<exists>m. reverse_at s m))"

definition dpos :: "'s DBIter \<Rightarrow> nat" where
  "dpos s = (if \<not> di_valid s then rank n else if di_direction s = kForward then rank (at s) else rank (low s))"

lemma reverse_rank: "reverse_at s m \<Longrightarrow> rank (low s) = rank m"
  unfolding reverse_at_def by (rule rank_skip [symmetric]) (auto simp: live_def)

lemma at_le: "di_ok s \<Longrightarrow> at s \<le> n"
  using src.pos_le [of "di_iter s"] by (simp add: di_ok_def)

lemma FindNext_found:
  assumes "di_ok s" "at s < n" "di_direction s = kForward" "p \<le> n"
    and "skipping \<Longrightarrow> \<forall>q. at s \<le> q \<and> q < n \<longrightarrow> V q \<longrightarrow> Compare uc (di_saved_key s) (U q) \<le> 0"
    and hits: "\<And>q. at s \<le> q \<Longrightarrow> q < n \<Longrightarrow> hit (at s) skipping (di_saved_key s) q \<longleftrightarrow> live q \<and> p \<le> q"
    and "at s \<le> p"
  shows "\<exists>s'. FindNextUserEntry it uc skipping s = Some s' \<and> settled s' \<and> dpos s' = rank p"
proof -
  obtain s' where s': "FindNextUserEntry it uc skipping s = Some s'" "di_ok s'" "di_direction s' = kForward"
    "if di_valid s' then at s \<le> at s' \<and> at s' < n \<and> hit (at s) skipping (di_saved_key s) (at s') \<and>
        (\<forall>r. at s \<le> r \<and> r < at s' \<longrightarrow> \<not> hit (at s) skipping (di_saved_key s) r)
     else \<forall>r. at s \<le> r \<and> r < n \<longrightarrow> \<not> hit (at s) skipping (di_saved_key s) r"
    using FindNextUserEntry_spec [OF assms(1-3,5)] by blast
  show ?thesis
  proof (cases "di_valid s'")
    case True
    have q: "at s \<le> at s'" "at s' < n" "live (at s')" "p \<le> at s'"
      using s'(4) True hits by auto
    have "\<not> live r" if "p \<le> r" "r < at s'" for r
      using s'(4) True hits [of r] that q assms(7) by auto
    then have "rank (at s') = rank p"
      using q by (intro rank_skip) auto
    then show ?thesis
      using s' q True by (simp add: settled_def dpos_def)
  next
    case False
    have "\<not> live r" if "p \<le> r" "r < n" for r
      using s'(4) False hits [of r] that assms(7) by auto
    then have "rank n = rank p"
      using assms(4) by (intro rank_skip) auto
    then show ?thesis
      using s' False by (simp add: settled_def dpos_def)
  qed
qed

lemma SeekToFirst_found:
  assumes "settled s"
  shows "\<exists>s'. di_SeekToFirst it uc s = Some s' \<and> settled s' \<and> dpos s' = 0"
proof -
  let ?s = "ClearSavedValue (s\<lparr>di_direction := kForward\<rparr>)\<lparr>di_iter := i_SeekToFirst it (di_iter s)\<rparr>"
  have I: "I (di_iter s)" "di_sequence s = snap" "di_status s = OK"
    using assms by (simp_all add: di_ok_def settled_def)
  have s: "di_ok ?s" "at ?s = 0" "di_direction ?s = kForward"
    using src.first [OF I(1)] I by (simp_all add: di_ok_def ClearSavedValue_def)
  have v: "i_Valid it (i_SeekToFirst it (di_iter s)) \<longleftrightarrow> 0 < n"
    using src.valid [of "di_iter ?s"] s by (simp add: di_ok_def)
  show ?thesis
  proof (cases "0 < n")
    case True
    have "\<exists>s'. FindNextUserEntry it uc False ?s = Some s' \<and> settled s' \<and> dpos s' = rank 0"
      by (rule FindNext_found [OF s(1)]) (use s True in \<open>auto simp: hit_def live_def\<close>)
    then show ?thesis
      using True by (simp add: di_SeekToFirst_def Let_def v ClearSavedValue_def)
  next
    case False
    then have "\<not> i_Valid it (i_SeekToFirst it (di_iter s))"
      using v by blast
    with rank_n_0 [OF False] show ?thesis
      using s by (simp add: di_SeekToFirst_def Let_def settled_def dpos_def di_ok_def ClearSavedValue_def)
  qed
qed

lemma Next_found:
  assumes "di_ok s" "at s < n" "di_direction s = kForward" "di_saved_key s = U m" "live m" "at s \<le> m"
    and below: "\<And>i. at s \<le> i \<Longrightarrow> i < m \<Longrightarrow> \<not> V i"
  shows "\<exists>s'. FindNextUserEntry it uc True s = Some s' \<and> settled s' \<and> dpos s' = Suc (rank m)"
proof -
  have m: "m < n" "V m" using assms(5) by (auto simp: live_def)
  have "\<exists>s'. FindNextUserEntry it uc True s = Some s' \<and> settled s' \<and> dpos s' = rank (Suc m)"
  proof (rule FindNext_found [OF assms(1-3)])
    show "\<forall>q. at s \<le> q \<and> q < n \<longrightarrow> V q \<longrightarrow> Compare uc (di_saved_key s) (U q) \<le> 0"
      using below users_mono [of m] assms(4) by (metis not_le)
    show "hit (at s) True (di_saved_key s) q \<longleftrightarrow> live q \<and> Suc m \<le> q" if q: "at s \<le> q" "q < n" for q
    proof
      assume hit: "hit (at s) True (di_saved_key s) q"
      then have gt: "0 < Compare uc (U q) (U m)" by (simp add: hit_def assms(4))
      have mq: "m < q" using gt users_mono [of q m] m by (metis not_le)
      have "Compare uc (U j) (U q) \<noteq> 0" if j: "j < q" "V j" for j
      proof (cases "at s \<le> j")
        case True
        then show ?thesis using hit j by (simp add: hit_def)
      next
        case False
        then have "Compare uc (U j) (U m) \<le> 0" using users_mono [of j m] assms(6) m by simp
        then show ?thesis
          using gt cmp_flip [of "U q" "U m"] cmp_le_less_trans [of "U j" "U m" "U q"] by simp
      qed
      then show "live q \<and> Suc m \<le> q" using hit mq q by (auto simp: hit_def live_def)
    next
      assume live: "live q \<and> Suc m \<le> q"
      then have "Compare uc (U m) (U q) < 0"
        using users_mono [of m q] m q by (auto simp: live_def Suc_le_eq)
      then have "0 < Compare uc (U q) (U m)" using cmp_flip [of "U q" "U m"] by simp
      then show "hit (at s) True (di_saved_key s) q" using live by (auto simp: hit_def live_def assms(4))
    qed
  qed (use assms m in auto)
  then show ?thesis using assms(5) by simp
qed

lemma di_Next_found:
  assumes "settled s" "di_valid s"
  shows "\<exists>s'. di_Next it uc s = Some s' \<and> settled s' \<and> dpos s' = Suc (dpos s)"
proof (cases "di_direction s")
  case kForward
  have s: "di_ok s" "at s < n" "live (at s)"
    using assms kForward by (auto simp: settled_def)
  then have key: "ExtractUserKey (i_key it (di_iter s)) = U (at s)"
    using src.key [of "di_iter s"] by (simp add: di_ok_def)
  have "\<exists>s'. FindNextUserEntry it uc True (s\<lparr>di_saved_key := U (at s)\<rparr>) = Some s' \<and> settled s' \<and> dpos s' = Suc (rank (at s))"
    by (rule Next_found) (use s kForward in auto)
  then show ?thesis
    using assms(2) kForward by (simp add: di_Next_def key dpos_def)
next
  case kReverse
  obtain m where m: "reverse_at s m" and ok: "di_ok s"
    using assms kReverse by (auto simp: settled_def)
  have I: "I (di_iter s)" "di_sequence s = snap" "di_status s = OK"
    using ok by (simp_all add: di_ok_def)
  let ?i = "if \<not> i_Valid it (di_iter s) then i_SeekToFirst it (di_iter s) else i_Next it (di_iter s)"
  have i: "I ?i" "pos ?i = low s"
    using src.valid [OF I(1)] src.first [OF I(1)] src.step [OF I(1)] by auto
  have mn: "m < n" "low s \<le> m"
    using m by (auto simp: reverse_at_def live_def)
  have v: "i_Valid it ?i"
    using src.valid [OF i(1)] i(2) mn by simp
  let ?s = "s\<lparr>di_direction := kForward, di_iter := ?i\<rparr>"
  have "\<exists>s'. FindNextUserEntry it uc True ?s = Some s' \<and> settled s' \<and> dpos s' = Suc (rank m)"
    by (rule Next_found) (use I i m mn in \<open>auto simp: di_ok_def reverse_at_def\<close>)
  moreover have "di_Next it uc s = FindNextUserEntry it uc True ?s"
    using kReverse v by (auto simp: di_Next_def Let_def split: if_splits)
  moreover have "dpos s = rank m"
    using assms(2) kReverse reverse_rank [OF m] by (simp add: dpos_def)
  ultimately show ?thesis
    by simp
qed

lemma di_Seek_found:
  assumes "settled s"
  shows "\<exists>s'. di_Seek it uc t s = Some s' \<and> settled s' \<and> dpos s' = lower_bound (Compare uc) t (user_view uc snap L)"
proof -
  let ?k = "InternalKey t snap kTypeValue"
  let ?s = "s\<lparr>di_direction := kForward, di_saved_value := [], di_saved_key := ?k, di_iter := i_Seek it ?k (di_iter s)\<rparr>"
  let ?p = "lower_bound (internal_Compare uc) ?k (internal_entries L)"
  have I: "I (di_iter s)" "di_sequence s = snap" "di_status s = OK"
    using assms by (simp_all add: di_ok_def settled_def)
  have s: "di_ok ?s" "at ?s = ?p" "di_direction ?s = kForward"
    using src.seek [OF I(1)] I by (simp_all add: di_ok_def)
  have v: "i_Valid it (i_Seek it ?k (di_iter s)) \<longleftrightarrow> ?p < n"
    using src.valid [of "di_iter ?s"] s by (simp add: di_ok_def)
  have pn: "?p \<le> n" using lower_bound_le [of _ _ "internal_entries L"] by simp
  have below: "Compare uc (U i) t < 0" if "i < ?p" "V i" for i
    using lower_bound_below [OF that(1)] that pn seqs [OF nth_mem [of i]] snap
    by (cases "T i") (auto simp: internal_Compare_InternalKey split: if_splits)
  have above: "0 \<le> Compare uc (U i) t" if "?p \<le> i" "i < n" for i
  proof -
    have "\<not> internal_Compare uc (fst (internal_entries L ! ?p)) ?k < 0"
      using lower_bound_above [of "internal_Compare uc" ?k "internal_entries L"] that by simp
    then have "0 \<le> Compare uc (U ?p) t"
      using that seqs [OF nth_mem [of ?p]] snap by (auto simp: internal_Compare_InternalKey split: if_splits)
    then show ?thesis
      using cmp_le_trans [of t "U ?p" "U i"] users_mono [OF that] cmp_le_flip by simp
  qed
  have rank: "lower_bound (Compare uc) t (user_view uc snap L) = rank ?p"
    by (rule view_lower_bound [OF pn]) (use below above in \<open>auto simp: live_def not_less\<close>)
  show ?thesis
  proof (cases "?p < n")
    case True
    have hits: "hit ?p False ?k q \<longleftrightarrow> live q \<and> ?p \<le> q" if q: "?p \<le> q" "q < n" for q
    proof -
      have "Compare uc (U j) (U q) \<noteq> 0" if "j < ?p" "V j" for j
        using cmp_less_le_trans [of "U j" t "U q"] below [OF that] above [OF q] cmp_le_flip by simp
      then show ?thesis
        using q unfolding hit_def live_def by (metis not_le)
    qed
    have "\<exists>s'. FindNextUserEntry it uc False ?s = Some s' \<and> settled s' \<and> dpos s' = rank ?p"
      by (rule FindNext_found [OF s(1)]) (use s True hits in auto)
    then show ?thesis
      using True I by (simp add: di_Seek_def Let_def v rank ClearSavedValue_def kValueTypeForSeek_def InternalKey_def [symmetric])
  next
    case False
    then have "\<not> i_Valid it (i_Seek it ?k (di_iter s))" "rank n = rank ?p"
      using v pn by (auto simp: not_less)
    then show ?thesis
      using s I by (simp add: di_Seek_def Let_def rank settled_def dpos_def di_ok_def ClearSavedValue_def kValueTypeForSeek_def
          InternalKey_def [symmetric])
  qed
qed

lemma FindPrev_found:
  assumes ok: "di_ok s" and dir: "di_direction s = kReverse"
  shows "\<exists>s'. FindPrevUserEntry it uc s = Some s' \<and> settled s' \<and>
    dpos s' = (if rank (low s) = 0 then rank n else rank (low s) - 1)"
proof (cases "at s < n")
  case False
  then have "\<not> i_Valid it (di_iter s)"
    using ok src.valid [of "di_iter s"] by (simp add: di_ok_def)
  then show ?thesis
    using ok False by (simp add: FindPrevUserEntry_def ClearSavedValue_def settled_def dpos_def)
next
  case True
  let ?p = "at s"
  have v: "i_Valid it (di_iter s)"
    using ok True src.valid [of "di_iter s"] by (simp add: di_ok_def)
  have "scanned (Suc ?p) ?p kTypeDeletion s" by (auto simp: scanned_def)
  then obtain vt s' c where s': "prev_loop it uc kTypeDeletion s = Some (vt, s')" "di_ok s'" "di_direction s' = kReverse"
    "at s' = (if c = 0 then n else c - 1)" "c \<le> ?p + 1" "scanned c ?p vt s'"
    "if vt = kTypeValue then \<forall>i < c. Compare uc (U i) (di_saved_key s') < 0 else c = 0"
    using prev_loop_spec [OF ok True order_refl True] dir by metis
  have low: "low s' = c"
    using s'(4,5) True by auto
  show ?thesis
  proof (cases "vt = kTypeValue")
    case False
    then have vt: "vt = kTypeDeletion" by (cases vt) auto
    have "\<not> live q" if "q < Suc ?p" for q
      using s'(6,7) that False by (simp add: scanned_def less_Suc_eq_le)
    then have "rank (Suc ?p) = 0"
      using rank_skip [of 0 "Suc ?p"] by simp
    then show ?thesis
      using s' v True vt by (simp add: FindPrevUserEntry_def ClearSavedValue_def settled_def dpos_def)
  next
    case vt: True
    then obtain m where m: "candidate c ?p s' m"
      using s'(6) by (auto simp: scanned_def)
    have "Compare uc (U j) (U m) \<noteq> 0" if "j < m" "V j" for j
      using m s'(7) that vt by (cases "j < c") (auto simp: candidate_def)
    moreover have "m \<le> ?p" "V m" "T m = kTypeValue"
      using m by (simp_all add: candidate_def)
    ultimately have live: "live m"
      using True by (simp add: live_def)
    have low': "low (s'\<lparr>di_valid := True\<rparr>) = c"
      using low by (auto split: if_splits)
    have rev: "reverse_at (s'\<lparr>di_valid := True\<rparr>) m"
      using m s'(7) live vt unfolding reverse_at_def low' by (simp add: candidate_def)
    have "rank (Suc ?p) = rank (Suc m)"
    proof (rule rank_skip)
      show "\<not> live q" if "Suc m \<le> q" "q < Suc ?p" for q
      proof
        assume "live q"
        moreover have "c \<le> q" "q \<le> ?p" using m that by (auto simp: candidate_def)
        ultimately have "q = m" using m by (simp add: candidate_def)
        then show False using that by simp
      qed
    qed (use m in \<open>simp add: candidate_def\<close>)
    then have "rank (low s) = Suc (rank m)"
      using True live by simp
    moreover have "dpos (s'\<lparr>di_valid := True\<rparr>) = rank m"
      using reverse_rank [OF rev] s'(3) by (simp add: dpos_def)
    ultimately show ?thesis
      using s' v vt rev by (intro exI [of _ "s'\<lparr>di_valid := True\<rparr>"])
        (simp add: FindPrevUserEntry_def settled_def, blast)
  qed
qed

lemma SeekToLast_found:
  assumes "settled s"
  shows "\<exists>s'. di_SeekToLast it uc s = Some s' \<and> settled s' \<and> dpos s' = rank n - 1"
proof -
  let ?s = "ClearSavedValue (s\<lparr>di_direction := kReverse\<rparr>)\<lparr>di_iter := i_SeekToLast it (di_iter s)\<rparr>"
  have I: "I (di_iter s)" "di_sequence s = snap" "di_status s = OK"
    using assms by (simp_all add: di_ok_def settled_def)
  have s: "di_ok ?s" "at ?s = n - 1" "di_direction ?s = kReverse"
    using src.last [OF I(1)] I by (simp_all add: di_ok_def ClearSavedValue_def)
  have low: "low ?s = n" unfolding s(2) by (cases L) auto
  obtain s' where "FindPrevUserEntry it uc ?s = Some s'" "settled s'"
    "dpos s' = (if rank n = 0 then rank n else rank n - 1)"
    using FindPrev_found [OF s(1,3), unfolded low] by blast
  then show ?thesis
    by (simp add: di_SeekToLast_def ClearSavedValue_def)
qed

lemma leave_key_spec:
  assumes "di_ok s" "at s < n"
  shows "\<exists>b s'. leave_key it uc s = Some (b, s') \<and> di_ok s' \<and>
    (if b then at s' < at s \<and> Compare uc (U (at s')) (di_saved_key s) < 0 \<and>
        (\<forall>i. at s' < i \<and> i < at s \<longrightarrow> \<not> Compare uc (U i) (di_saved_key s) < 0)
     else \<forall>i < at s. \<not> Compare uc (U i) (di_saved_key s) < 0)"
  using assms
proof (induction "at s" arbitrary: s rule: less_induct)
  case less
  let ?s = "s\<lparr>di_iter := i_Prev it (di_iter s)\<rparr>"
  have I: "I (di_iter s)" using less.prems by (simp add: di_ok_def)
  have st: "di_ok ?s" "at ?s = (if at s = 0 then n else at s - 1)"
    using src.prev [OF I] less.prems by (simp_all add: di_ok_def)
  have v: "i_Valid it (di_iter ?s) \<longleftrightarrow> at s \<noteq> 0"
    using src.valid [of "di_iter ?s"] st less.prems(2) by (auto simp: di_ok_def)
  show ?case
  proof (cases "at s = 0")
    case True
    then show ?thesis using st v by (subst leave_key.simps) (simp, blast)
  next
    case False
    have key: "ExtractUserKey (i_key it (i_Prev it (di_iter s))) = U (at s - 1)"
      using src.key [of "di_iter ?s"] st False less.prems(2) by (simp add: di_ok_def)
    show ?thesis
    proof (cases "Compare uc (U (at s - 1)) (di_saved_key s) < 0")
      case True
      have "leave_key it uc s = Some (True, ?s)"
        using v key False True by (subst leave_key.simps) simp
      then show ?thesis
        using st False True by (intro exI [of _ True] exI [of _ ?s]) auto
    next
      case ge: False
      have step: "leave_key it uc s = leave_key it uc ?s"
        using v key False ge by (subst leave_key.simps) simp
      have st': "at ?s = at s - 1" "di_saved_key ?s = di_saved_key s"
        using st False by simp_all
      have IH: "\<exists>b s'. leave_key it uc ?s = Some (b, s') \<and> di_ok s' \<and>
        (if b then at s' < at ?s \<and> Compare uc (U (at s')) (di_saved_key ?s) < 0 \<and>
            (\<forall>i. at s' < i \<and> i < at ?s \<longrightarrow> \<not> Compare uc (U i) (di_saved_key ?s) < 0)
         else \<forall>i < at ?s. \<not> Compare uc (U i) (di_saved_key ?s) < 0)"
        by (rule less.hyps) (use st False less.prems in auto)
      obtain b s' where s': "leave_key it uc ?s = Some (b, s')" "di_ok s'"
        "if b then at s' < at s - 1 \<and> Compare uc (U (at s')) (di_saved_key s) < 0 \<and>
            (\<forall>i. at s' < i \<and> i < at s - 1 \<longrightarrow> \<not> Compare uc (U i) (di_saved_key s) < 0)
         else \<forall>i < at s - 1. \<not> Compare uc (U i) (di_saved_key s) < 0"
        using IH [unfolded st'] by blast
      have "i < at s - 1 \<or> i = at s - 1" if "i < at s" for i
        using that by linarith
      then show ?thesis
        using s' ge unfolding step by (intro exI [of _ b] exI [of _ s']) (auto split: if_splits)
    qed
  qed
qed

lemma di_Prev_found:
  assumes "settled s" "di_valid s"
  shows "\<exists>s'. di_Prev it uc s = Some s' \<and> settled s' \<and> dpos s' = (if dpos s = 0 then rank n else dpos s - 1)"
proof (cases "di_direction s")
  case kReverse
  have eq: "di_Prev it uc s = FindPrevUserEntry it uc s" "dpos s = rank (low s)" "di_ok s"
    using kReverse assms by (simp_all add: di_Prev_def dpos_def settled_def)
  show ?thesis
    unfolding eq(1,2) by (rule FindPrev_found [OF eq(3) kReverse])
next
  case kForward
  have s: "di_ok s" "at s < n" "live (at s)"
    using assms kForward by (auto simp: settled_def)
  let ?s = "s\<lparr>di_saved_key := U (at s)\<rparr>"
  have key: "ExtractUserKey (i_key it (di_iter s)) = U (at s)"
    using src.key [of "di_iter s"] s by (simp add: di_ok_def)
  have dead: "\<not> live i" if "i < at s" "\<not> Compare uc (U i) (U (at s)) < 0" for i
    using that users_mono [of i "at s"] s(2,3) by (auto simp: live_def)
  have eqs: "di_iter ?s = di_iter s" "di_saved_key ?s = U (at s)" "di_ok ?s"
    using s(1) by simp_all
  obtain b s' where s': "leave_key it uc ?s = Some (b, s')" "di_ok s'"
    "if b then at s' < at s \<and> Compare uc (U (at s')) (U (at s)) < 0 \<and>
        (\<forall>i. at s' < i \<and> i < at s \<longrightarrow> \<not> Compare uc (U i) (U (at s)) < 0)
     else \<forall>i < at s. \<not> Compare uc (U i) (U (at s)) < 0"
    using leave_key_spec [OF eqs(3), unfolded eqs(1,2), OF s(2)] by blast
  show ?thesis
  proof (cases b)
    case True
    have r: "rank (at s) = rank (low (s'\<lparr>di_direction := kReverse\<rparr>))"
      using s'(3) True dead s(2) rank_skip [of "Suc (at s')" "at s"] by simp
    have eq: "di_Prev it uc s = FindPrevUserEntry it uc (s'\<lparr>di_direction := kReverse\<rparr>)" "dpos s = rank (at s)"
      using s'(1) True kForward assms(2) by (simp_all add: di_Prev_def key dpos_def)
    show ?thesis
      unfolding eq r by (rule FindPrev_found) (use s'(2) in simp_all)
  next
    case False
    have "rank (at s) = 0"
      using s'(3) False dead rank_skip [of 0 "at s"] by simp
    then show ?thesis
      using s'(1,2) False kForward assms(2) by (simp add: di_Prev_def key dpos_def settled_def ClearSavedValue_def)
  qed
qed

lemma settled_valid:
  assumes "settled s"
  shows "dpos s \<le> rank n" "di_valid s \<longleftrightarrow> dpos s < rank n"
    and "di_valid s \<Longrightarrow> user_view uc snap L ! dpos s = (di_key it s, di_value it s)"
proof -
  have "dpos s < rank n \<and> user_view uc snap L ! dpos s = (di_key it s, di_value it s)" if v: "di_valid s"
  proof (cases "di_direction s")
    case kForward
    then have "di_ok s" "at s < n" "live (at s)"
      using assms v by (auto simp: settled_def)
    then show ?thesis
      using live_nth [of "at s"] src.key [of "di_iter s"] src.val [of "di_iter s"] v kForward
      by (simp add: dpos_def di_key_def di_value_def di_ok_def)
  next
    case kReverse
    then obtain m where m: "reverse_at s m"
      using assms v by (auto simp: settled_def)
    then have "dpos s = rank m" "di_saved_key s = U m" "di_saved_value s = val m" "live m"
      using reverse_rank [OF m] v kReverse by (simp_all add: dpos_def reverse_at_def)
    then show ?thesis
      using live_nth [of m] kReverse by (simp add: di_key_def di_value_def)
  qed
  then show "dpos s \<le> rank n" "di_valid s \<longleftrightarrow> dpos s < rank n"
    and "di_valid s \<Longrightarrow> user_view uc snap L ! dpos s = (di_key it s, di_value it s)"
    by (auto simp: dpos_def less_imp_le)
qed

lemma or_stuck_found:
  "\<exists>s'. f s = Some s' \<and> settled s' \<and> dpos s' = p \<Longrightarrow> settled (or_stuck f s) \<and> dpos (or_stuck f s) = p"
  by (auto simp: or_stuck_def)

lemma db_seq_iterator: "seq_iterator (DBIterator it uc) (Compare uc) (user_view uc snap L) settled dpos"
proof (unfold_locales, goal_cases)
  case (4 s)
  then show ?case using settled_valid [OF 4(1)] by (simp add: DBIterator_def length_view)
next
  case (5 s)
  show ?case unfolding DBIterator_def Iterator.simps by (rule or_stuck_found, rule SeekToFirst_found [OF 5])
next
  case (6 s)
  show ?case unfolding DBIterator_def Iterator.simps length_view by (rule or_stuck_found, rule SeekToLast_found [OF 6])
next
  case (7 s t)
  show ?case unfolding DBIterator_def Iterator.simps by (rule or_stuck_found, rule di_Seek_found [OF 7])
next
  case (8 s)
  then have v: "di_valid s" using settled_valid(2) by (simp add: length_view)
  show ?case unfolding DBIterator_def Iterator.simps by (rule or_stuck_found, rule di_Next_found [OF 8(1) v])
next
  case (9 s)
  then have v: "di_valid s" using settled_valid(2) by (simp add: length_view)
  show ?case unfolding DBIterator_def Iterator.simps length_view by (rule or_stuck_found, rule di_Prev_found [OF 9(1) v])
next
  case (10 s)
  then show ?case
    using src.status_ok [of "di_iter s"] by (simp add: DBIterator_def di_get_status_def settled_def di_ok_def)
qed (use settled_valid in \<open>auto simp: DBIterator_def length_view\<close>)

lemma NewDBIterator_settled: "I s0 \<Longrightarrow> settled (NewDBIterator s0 snap seed)"
  by (simp add: NewDBIterator_def settled_def di_ok_def split: prod.split)

lemma di_call_returns: "settled s \<Longrightarrow> \<exists>s'. di_call it uc c s = Some s' \<and> settled s'"
  using SeekToFirst_found [of s] SeekToLast_found [of s] di_Seek_found [of s] di_Next_found [of s] di_Prev_found [of s]
  by (cases c; cases "di_valid s"; simp only: di_call.simps if_True if_False; blast)

lemma di_calls_return: "settled s \<Longrightarrow> \<exists>s'. di_calls it uc cs s = Some s' \<and> settled s'"
proof (induction cs arbitrary: s)
  case (Cons c cs)
  then obtain s1 where "di_call it uc c s = Some s1" "settled s1"
    using di_call_returns by blast
  then show ?case using Cons.IH [of s1] by simp
qed simp

end

section \<open>Properties\<close>

definition sample_entries :: "entry list" where
  "sample_entries = [(str ''a'', 9, kTypeValue, str ''y''), (str ''a'', 2, kTypeValue, str ''x''), (str ''b'', 3, kTypeDeletion, []),
     (str ''b'', 1, kTypeValue, str ''w''), (str ''c'', 4, kTypeValue, str ''z'')]"

lemma sample_seqs: "e \<in> set sample_entries \<Longrightarrow> fst (snd e) \<le> kMaxSequenceNumber"
  by (auto simp: sample_entries_def kMaxSequenceNumber_def)

lemma bytewise_three_way: "three_way (Compare BytewiseComparator)"
  by unfold_locales

lemma sample_sorted:
  "sorted_wrt (\<lambda>e e'. internal_Compare BytewiseComparator (entry_ikey e) (entry_ikey e') < 0) sample_entries"
  by (simp add: sample_entries_def internal_Compare_InternalKey kMaxSequenceNumber_def str_def BytewiseComparator_def Slice_compare_def)

lemma sample_block:
  "\<exists>s0 I pos. Block_NewIterator (make_Block (fst (BlockBuilder_Finish (build_block 2 (internal_entries sample_entries))))) = Inr s0 \<and>
    I s0 \<and> seq_iterator (BlockIterator (InternalKeyComparator BytewiseComparator)) (internal_Compare BytewiseComparator)
      (internal_entries sample_entries) I pos"
proof -
  have "length (fst (BlockBuilder_Finish (build_block 2 (internal_entries sample_entries)))) < 2 ^ 32"
    unfolding length_Finish by (rule le_less_trans [OF CurrentSizeEstimate_build]) (simp add: sample_entries_def internal_entries_def str_def)
  moreover have "sorted_wrt (\<lambda>a b. internal_Compare BytewiseComparator (fst a) (fst b) < 0) (internal_entries sample_entries)"
    using sample_sorted by (simp add: internal_entries_def sorted_wrt_map)
  moreover have "three_way (Compare (InternalKeyComparator BytewiseComparator))"
    by unfold_locales
  ultimately show ?thesis
    using built_block_iterator [of "InternalKeyComparator BytewiseComparator" 2 "internal_entries sample_entries"]
    by simp
qed

text \<open>The contract holds for the iterator over a built block of internal keys.\<close>

definition sample_source :: "(BlockIter \<Rightarrow> bool) \<times> (BlockIter \<Rightarrow> nat)" where
  "sample_source = (SOME (I, pos). seq_iterator (BlockIterator (InternalKeyComparator BytewiseComparator))
     (internal_Compare BytewiseComparator) (internal_entries sample_entries) I pos)"

interpretation block_source: db_view BytewiseComparator "BlockIterator (InternalKeyComparator BytewiseComparator)" sample_entries
  "fst sample_source" "snd sample_source" 5
proof -
  have "\<exists>r. case r of (I, pos) \<Rightarrow> seq_iterator (BlockIterator (InternalKeyComparator BytewiseComparator))
     (internal_Compare BytewiseComparator) (internal_entries sample_entries) I pos"
    using sample_block by auto
  then have "seq_iterator (BlockIterator (InternalKeyComparator BytewiseComparator)) (internal_Compare BytewiseComparator)
      (internal_entries sample_entries) (fst sample_source) (snd sample_source)"
    unfolding sample_source_def by (rule someI2_ex) (auto simp: case_prod_unfold)
  then show "db_view BytewiseComparator (BlockIterator (InternalKeyComparator BytewiseComparator)) sample_entries
      (fst sample_source) (snd sample_source) 5"
    using sample_seqs sample_sorted bytewise_three_way
    by (intro db_view.intro db_view_axioms.intro) (auto simp: kMaxSequenceNumber_def)
qed

text \<open>C7: Over an iterator of internal entries in internal-key order, the database iterator at a snapshot meets the
  iterator contract for the user's view: one entry for each user key whose newest visible version is a value, with
  that value, in key order, whatever the mix of seeks and steps forward and backward.\<close>

theorem db_iterator:
  assumes "three_way (Compare uc)" and "seq_iterator it (internal_Compare uc) (internal_entries L) I pos" and "I s0"
    and "\<And>e. e \<in> set L \<Longrightarrow> fst (snd e) \<le> kMaxSequenceNumber" and "snap \<le> kMaxSequenceNumber"
    and "sorted_wrt (\<lambda>e e'. internal_Compare uc (entry_ikey e) (entry_ikey e') < 0) L"
  shows "\<exists>inv' pos'. seq_iterator (DBIterator it uc) (Compare uc) (user_view uc snap L) inv' pos' \<and>
    inv' (NewDBIterator s0 snap seed)"
proof -
  have v: "db_view uc it L I pos snap"
    using assms by (intro db_view.intro db_view_axioms.intro) auto
  show ?thesis
    using db_view.db_seq_iterator [OF v] db_view.NewDBIterator_settled [OF v assms(3)] by blast
qed

theorem db_iterator_witness:
  "\<exists>s0 inv' pos'. Block_NewIterator (make_Block (fst (BlockBuilder_Finish (build_block 2 (internal_entries sample_entries))))) = Inr s0 \<and>
    seq_iterator (DBIterator (BlockIterator (InternalKeyComparator BytewiseComparator)) BytewiseComparator) (Compare BytewiseComparator)
      [(str ''a'', str ''x''), (str ''c'', str ''z'')] inv' pos' \<and> inv' (NewDBIterator s0 5 1)"
proof -
  obtain s0 I pos where b: "Block_NewIterator (make_Block (fst (BlockBuilder_Finish (build_block 2 (internal_entries sample_entries))))) = Inr s0"
    "I s0" "seq_iterator (BlockIterator (InternalKeyComparator BytewiseComparator)) (internal_Compare BytewiseComparator)
      (internal_entries sample_entries) I pos"
    using sample_block by (elim exE conjE) (rule that)
  have view: "user_view BytewiseComparator 5 sample_entries = [(str ''a'', str ''x''), (str ''c'', str ''z'')]"
    by (simp add: user_view_def sample_entries_def str_def BytewiseComparator_def Slice_compare_def)
  have "(5 :: SequenceNumber) \<le> kMaxSequenceNumber" by (simp add: kMaxSequenceNumber_def)
  from db_iterator [OF bytewise_three_way b(3,2) sample_seqs this sample_sorted, of 1, unfolded view] show ?thesis
    using b(1) by blast
qed

text \<open>C18: No sequence of calls makes a loop of the database iterator run forever: each call returns, and the iterator
  stays without an error.\<close>

theorem db_iterator_returns:
  assumes "three_way (Compare uc)" and "seq_iterator it (internal_Compare uc) (internal_entries L) I pos" and "I s0"
    and "\<And>e. e \<in> set L \<Longrightarrow> fst (snd e) \<le> kMaxSequenceNumber" and "snap \<le> kMaxSequenceNumber"
    and "sorted_wrt (\<lambda>e e'. internal_Compare uc (entry_ikey e) (entry_ikey e') < 0) L"
  shows "\<exists>s'. di_calls it uc cs (NewDBIterator s0 snap seed) = Some s' \<and> ok (di_get_status it s')"
proof -
  have v: "db_view uc it L I pos snap"
    using assms by (intro db_view.intro db_view_axioms.intro) auto
  obtain s' where "di_calls it uc cs (NewDBIterator s0 snap seed) = Some s'" "db_view.settled uc L I pos snap s'"
    using db_view.di_calls_return [OF v db_view.NewDBIterator_settled [OF v assms(3)]] by blast
  then show ?thesis
    using seq_iterator.status_ok [OF db_view.db_seq_iterator [OF v]] by (simp add: DBIterator_def)
qed

theorem db_iterator_returns_witness:
  "\<exists>s0 s'. Block_NewIterator (make_Block (fst (BlockBuilder_Finish (build_block 2 (internal_entries sample_entries))))) = Inr s0 \<and>
    di_calls (BlockIterator (InternalKeyComparator BytewiseComparator)) BytewiseComparator
      [CallSeek (str ''b''), CallPrev, CallNext, CallSeekToLast, CallPrev, CallPrev] (NewDBIterator s0 5 1) = Some s'"
proof -
  obtain s0 I pos where b: "Block_NewIterator (make_Block (fst (BlockBuilder_Finish (build_block 2 (internal_entries sample_entries))))) = Inr s0"
    "I s0" "seq_iterator (BlockIterator (InternalKeyComparator BytewiseComparator)) (internal_Compare BytewiseComparator)
      (internal_entries sample_entries) I pos"
    using sample_block by (elim exE conjE) (rule that)
  have "(5 :: SequenceNumber) \<le> kMaxSequenceNumber" by (simp add: kMaxSequenceNumber_def)
  from db_iterator_returns [OF bytewise_three_way b(3,2) sample_seqs this sample_sorted] b(1) show ?thesis
    by blast
qed

end
