(* ===== verification/Table_Get.thy ===== *)
theory Table_Get
  imports Table Db_Iter
begin

text \<open>
  Looking up a key in a table that the builder has finished, \<open>Table::InternalGet\<close> of \<^verbatim>\<open>table/table.cpp\<close>: the entry it
  passes to its callback is the first one at or after the key, a filter never hides a key of the table, and for internal keys
  the lookup finds the newest version of a user key.
\<close>

context table_format
begin

definition filtered :: "stored_block list \<Rightarrow> entries list \<Rightarrow> nat \<Rightarrow> slice \<Rightarrow> bool" where
  "filtered bs ess j k =
     (case (filter_reader bs ess, opt_filter_policy options) of
        (Some r, Some p) \<Rightarrow> \<not> FilterBlock_KeyMayMatch p r (bh_offset (handle_at bs j)) k
      | _ \<Rightarrow> False)"

lemma concat_split: "j < length ess \<Longrightarrow> concat ess = concat (take j ess) @ ess ! j @ concat (drop (Suc j) ess)"
  by (subst id_take_nth_drop [of j ess]) simp_all

lemma below_index:
  assumes "table_file data bs ess ixs" "e \<in> set (concat (take (lower_bound compare k ixs) ess))"
  shows "compare (fst e) k < 0"
proof -
  note tf = table_file_facts [OF assms(1)]
  obtain i where i: "i < lower_bound compare k ixs" "i < length ess" "e \<in> set (ess ! i)"
    using assms(2) by (force simp: set_conv_nth [of "take _ _"])
  have "compare (fst (ixs ! i)) k < 0" by (rule lower_bound_below [OF i(1)])
  moreover have "compare (fst e) (fst (ixs ! i)) \<le> 0"
    using tf(5) [of i] tf(2) i by (simp add: index_ok_def)
  ultimately show ?thesis by (rule cmp_le_less_trans [rotated])
qed

lemma lower_bound_none:
  assumes "table_file data bs ess ixs" "lower_bound compare k ixs = length ixs"
  shows "lower_bound compare k (concat ess) = length (concat ess)"
proof -
  have "\<forall>e \<in> set (concat ess). compare (fst e) k < 0"
    using below_index [OF assms(1), of _ k] table_file_facts(2,3) [OF assms(1)] unfolding assms(2) by simp
  then show ?thesis
    using lower_bound_append_all [of "concat ess" compare k "[]"] by (simp add: lower_bound_def del: length_concat set_concat)
qed

lemma lower_bound_block:
  assumes tf: "table_file data bs ess ixs" and j: "j = lower_bound compare k ixs" "j < length ixs"
    and m: "m = lower_bound compare k (ess ! j)" "m < length (ess ! j)"
  shows "lower_bound compare k (concat ess) < length (concat ess) \<and> concat ess ! lower_bound compare k (concat ess) = ess ! j ! m"
proof -
  have len: "j < length ess" using table_file_facts(2,3) [OF tf] j(2) by simp
  have "lower_bound compare k (concat ess) = length (concat (take j ess)) + lower_bound compare k (ess ! j @ concat (drop (Suc j) ess))"
    unfolding concat_split [OF len] using below_index [OF tf, of _ k] j(1) by (intro lower_bound_append_all) (auto simp del: set_concat)
  moreover have "lower_bound compare k (ess ! j @ concat (drop (Suc j) ess)) = m"
    using m lower_bound_above [of compare k "ess ! j"] lower_bound_below [of _ compare k "ess ! j"]
    by (intro lower_bound_eqI) (auto simp: nth_append)
  ultimately show ?thesis
    using m concat_split [OF len] by (simp add: nth_append del: length_concat)
qed

lemma InternalGet_spec:
  assumes rf: "random_access_file rf holds" and ca: "value_cache ca stored" and tf: "table_file data bs ess ixs" and op: "opened bs ess ixs rf t"
    and small: "length data < 2 ^ 31" and wc: "table_world holds stored data bs ess t wc"
    and get: "InternalGet sn ca t ro k wc = (s, saved, wc')" and j: "j = lower_bound compare k ixs"
  shows "ok s \<and> table_world holds stored data bs ess t wc' \<and>
    saved = (if j < length ixs \<and> \<not> filtered bs ess j k \<and> lower_bound compare k (ess ! j) < length (ess ! j)
             then Some (ess ! j ! lower_bound compare k (ess ! j)) else None)"
proof -
  note facts = table_file_facts [OF tf]
  let ?it = "any_Block (opt_comparator options)"
  have t: "t_index_block t = make_Block (block_bytes 1 ixs)" "t_options t = options" "t_filter t = filter_reader bs ess"
    using op by (simp_all add: opened_def)
  obtain iinv ipos where index: "seq_iterator ?it compare ixs iinv ipos" "iinv (Block_NewIterator (t_index_block t))"
    using any_block_iterator [OF three_way_axioms zero_less_one index_sorted [OF tf] index_size [OF tf small], folded t(1)]
    by (elim exE conjE) (rule that)
  let ?ii = "i_Seek ?it k (Block_NewIterator (t_index_block t))"
  note sk = seq_iterator.seek [OF index, of k]
  have ii: "i_Valid ?it ?ii = (j < length ixs)" "ok (i_status ?it ?ii)" "j < length ixs \<Longrightarrow> i_value ?it ?ii = snd (ixs ! j)"
    using sk seq_iterator.valid [OF index(1)] seq_iterator.status_ok [OF index(1)] seq_iterator.val [OF index(1)] j by simp_all
  show ?thesis
  proof (cases "j < length ixs")
    case False
    then show ?thesis using get wc ii by (simp add: InternalGet_def t(2) Let_def)
  next
    case True
    then have jb: "j < length bs" using facts(3) by simp
    have h: "i_value ?it ?ii = BlockHandle_EncodeTo (handle_at bs j) []"
      using ii(3) [OF True] facts(5) [OF jb] by (simp add: index_ok_def)
    obtain d cl wc1 where br: "BlockReader sn ca t ro (BlockHandle_EncodeTo (handle_at bs j) []) wc = ((d, cl), wc1)"
      by (metis surj_pair)
    note b = BlockReader_ok [OF rf ca tf op jb wc br]
    obtain I pos where di: "seq_iterator ?it compare (ess ! j) I pos" "I (Block_NewIterator (make_Block (block_bytes ri (ess ! j))))"
      using any_block_iterator [OF three_way_axioms interval block_sorted [OF tf jb] table_file_blocks(2) [OF tf small jb]]
      by (elim exE conjE) (rule that)
    have d: "ok (i_status ?it (i_Seek ?it k d))" "i_Valid ?it (i_Seek ?it k d) \<longleftrightarrow> lower_bound compare k (ess ! j) < length (ess ! j)"
      "lower_bound compare k (ess ! j) < length (ess ! j) \<Longrightarrow>
        (i_key ?it (i_Seek ?it k d), i_value ?it (i_Seek ?it k d)) = ess ! j ! lower_bound compare k (ess ! j)"
      using seq_iterator.seek [OF di, of k] seq_iterator.valid [OF di(1)] seq_iterator.status_ok [OF di(1)]
        seq_iterator.key [OF di(1)] seq_iterator.val [OF di(1)] b by simp_all
    have "s = OK \<and> saved = (if filtered bs ess j k \<or> \<not> i_Valid ?it (i_Seek ?it k d) then None
        else Some (i_key ?it (i_Seek ?it k d), i_value ?it (i_Seek ?it k d))) \<and> wc' = (if filtered bs ess j k then wc else cl wc1)"
      using get h br True ii d(1) unfolding InternalGet_def t(2,3) filtered_def Let_def
      by (cases "filter_reader bs ess"; cases "opt_filter_policy options") (auto simp: ok_def OK_def split: if_splits)
    moreover have "table_world holds stored data bs ess t (cl wc1)" using b by blast
    ultimately show ?thesis
      using True wc d(2,3) by auto
  qed
qed

text \<open>A filter that misses no key of a block lets every key of the table through.\<close>

lemma filter_index_of_nat: "n < 2 ^ 31 \<Longrightarrow> filter_index (word_of_nat n) = n div 2048"
  by (simp add: filter_index_def kFilterBase_def kFilterBaseLg_def unat_div unat_of_nat)

lemma sorted_calls:
  assumes "length (layout bs) < 2 ^ 31"
  shows "sorted (map (filter_index \<circ> fst) (filter_calls bs ess @ [(word_of_nat (length (layout bs)), [])]))"
proof -
  have lt: "length (layout (take i bs)) < 2 ^ 31" if "i < Suc (length bs)" for i
    using that assms layout_take_less [of i "length bs" bs] by (cases "i = length bs") simp_all
  have "map (filter_index \<circ> fst) (filter_calls bs ess @ [(word_of_nat (length (layout bs)), [])]) =
      map (\<lambda>i. filter_index (word_of_nat (length (layout (take i bs))))) [0..<Suc (length bs)]"
    by (simp add: filter_calls_def handle_at_def)
  also have "\<dots> = map (\<lambda>i. length (layout (take i bs)) div 2048) [0..<Suc (length bs)]"
    using lt by (intro map_cong filter_index_of_nat) auto
  also have "sorted \<dots>"
    using layout_take_less [of _ _ bs]
    by (simp del: upt_Suc add: sorted_iff_nth_mono_less div_le_mono less_imp_le_nat less_Suc_eq_le)
  finally show ?thesis .
qed

lemma FilterBlock_KeyMayMatch_cong: "KeyMayMatch p k = KeyMayMatch p k' \<Longrightarrow> FilterBlock_KeyMayMatch p r off k = FilterBlock_KeyMayMatch p r off k'"
  by (simp only: FilterBlock_KeyMayMatch_def)

lemma not_filtered:
  assumes tf: "table_file data bs ess ixs" and small: "length data < 2 ^ 31"
    and p: "\<And>p. opt_filter_policy options = Some p \<Longrightarrow> filter_policy_laws p \<and> KeyMayMatch p k = KeyMayMatch p (fst e)"
    and i: "i < length bs" "e \<in> set (ess ! i)"
  shows "\<not> filtered bs ess i k"
proof (cases "opt_filter_policy options")
  case (Some pol)
  let ?calls = "filter_calls bs ess @ [(word_of_nat (length (layout bs)), [])]"
  obtain meta idx ft where d: "data = layout (bs @ filter_blocks bs ess @ [meta, idx]) @ ft"
    using tf by (auto simp: table_file_def Let_def)
  have "length (build_filter_block pol ?calls) < 2 ^ 32" "length (layout bs) < 2 ^ 31"
    using small unfolding d by (simp_all add: filter_blocks_def Some)
  moreover have "(bh_offset (handle_at bs i), map fst (ess ! i)) \<in> set ?calls"
    using i(1) by (auto simp: filter_calls_def)
  ultimately have "FilterBlock_KeyMayMatch pol (make_FilterBlockReader (build_filter_block pol ?calls)) (bh_offset (handle_at bs i)) (fst e)"
    using i(2) p [OF Some] by (intro filter_block_sound [where keys = "map fst (ess ! i)"] sorted_calls) auto
  then show ?thesis
    using p [OF Some] FilterBlock_KeyMayMatch_cong [of pol k "fst e"] by (simp add: filtered_def filter_reader_def Some)
qed (simp add: filtered_def filter_reader_def)

text \<open>What a lookup returns: the first entry at or after the key, or nothing. It returns it whenever the entry has exactly the
  key, and it can miss it only when the index key separates the target from it.\<close>

lemma InternalGet_first:
  assumes rf: "random_access_file rf holds" and ca: "value_cache ca stored" and tf: "table_file data bs ess ixs" and op: "opened bs ess ixs rf t"
    and small: "length data < 2 ^ 31" and wc: "table_world holds stored data bs ess t wc"
    and get: "InternalGet sn ca t ro k wc = (s, saved, wc')"
  shows "saved \<noteq> None \<Longrightarrow> lower_bound compare k (concat ess) < length (concat ess) \<and> saved = Some (concat ess ! lower_bound compare k (concat ess))"
  using InternalGet_spec [OF assms refl] lower_bound_block [OF tf refl _ refl] by (auto split: if_splits)

lemma get_in_block:
  assumes tf: "table_file data bs ess ixs" and lb: "lower_bound compare k (concat ess) < length (concat ess)"
    and j: "j = lower_bound compare k ixs" and none: "\<not> lower_bound compare k (ess ! j) < length (ess ! j)"
  shows "j < length bs" "compare (fst (last (ess ! j))) k < 0" "compare k (fst (ixs ! j)) \<le> 0"
    "fst (ixs ! j) = FindShortestSeparator (opt_comparator options) (fst (last (ess ! j))) (fst (concat ess ! lower_bound compare k (concat ess)))"
proof -
  note facts = table_file_facts [OF tf]
  show jb: "j < length bs"
    using lb lower_bound_none [OF tf, of k] j facts(3) lower_bound_le [of compare k ixs] by (metis le_neq_implies_less less_irrefl)
  then have ne: "ess ! j \<noteq> []" using facts(1) by (simp add: blocks_ok_def)
  have all: "compare (fst e) k < 0" if "e \<in> set (ess ! j)" for e
    using that none lower_bound_below [of _ compare k "ess ! j"] by (metis in_set_conv_nth linorder_less_linear lower_bound_le nless_le)
  then show "compare (fst (last (ess ! j))) k < 0" using ne by simp
  show "compare k (fst (ixs ! j)) \<le> 0"
    using lower_bound_above [of compare k ixs] jb j facts(3) cmp_le_flip by (metis linorder_not_less)
  have split: "concat ess = (concat (take j ess) @ ess ! j) @ concat (drop (Suc j) ess)"
    using concat_split [of j ess] jb facts(2) by simp
  have "lower_bound compare k (concat ess) = length (concat (take j ess) @ ess ! j) + lower_bound compare k (concat (drop (Suc j) ess))"
    unfolding split using all below_index [OF tf, of _ k] j by (intro lower_bound_append_all) (auto simp del: set_concat)
  moreover obtain e es where e: "concat (drop (Suc j) ess) = e # es"
    using lb calculation arg_cong [OF split, of length] by (cases "concat (drop (Suc j) ess)") (auto simp del: length_concat)
  moreover have "compare k (fst e) < 0"
    using facts(5) [OF jb] e \<open>compare k (fst (ixs ! j)) \<le> 0\<close> cmp_le_less_trans by (fastforce simp: index_ok_def)
  ultimately have "concat ess ! lower_bound compare k (concat ess) = e"
    using cmp_flip [of k "fst e"] unfolding split by (simp add: lower_bound_def nth_append case_prod_unfold del: length_concat)
  then show "fst (ixs ! j) = FindShortestSeparator (opt_comparator options) (fst (last (ess ! j))) (fst (concat ess ! lower_bound compare k (concat ess)))"
    using facts(5) [OF jb] e by (simp add: index_ok_def)
qed

end

section \<open>Tables of internal keys\<close>

context user_comparator
begin

lemma internal_laws: "comparator_laws (InternalKeyComparator uc) (\<lambda>k. 8 \<le> length k)"
  by (rule internal.comparator_laws_axioms)

text \<open>The separator of two internal keys never falls between the versions of the user key of the second.\<close>

lemma separator_gap:
  assumes "internal_Compare uc a b < 0" "internal_Compare uc a k < 0" "internal_Compare uc k (internal_FindShortestSeparator uc a b) \<le> 0"
  shows "ExtractUserKey k \<noteq> ExtractUserKey b"
proof
  assume eq: "ExtractUserKey k = ExtractUserKey b"
  let ?ua = "ExtractUserKey a" and ?ub = "ExtractUserKey b"
  let ?t = "FindShortestSeparator uc ?ua ?ub"
  show False
  proof (cases "length ?t < length ?ua \<and> Compare uc ?ua ?t < 0")
    case True
    let ?s = "InternalKey ?t kMaxSequenceNumber kValueTypeForSeek"
    have sep: "internal_FindShortestSeparator uc a b = ?s"
      using True by (simp add: internal_FindShortestSeparator_def Let_def InternalKey_eq PutFixed64_def)
    have "Compare uc ?ua ?ub < 0"
      using assms(1) separator_equal [of ?ua ?ub] True by (auto simp: internal_Compare_tag Let_def split: if_splits)
    then have "Compare uc ?t ?ub < 0" using separator by blast
    moreover have "Compare uc (ExtractUserKey k) ?t \<le> 0" using assms(3) unfolding sep by (auto simp: internal_le_iff)
    ultimately show False using eq cmp_le_less_trans by fastforce
  next
    case False
    then have "internal_FindShortestSeparator uc a b = a" by (auto simp: internal_FindShortestSeparator_def Let_def)
    then show False using assms(2,3) internal_flip [of k a] by simp
  qed
qed

end

lemma internal_match_cong: "ExtractUserKey k = ExtractUserKey k' \<Longrightarrow> KeyMayMatch (InternalFilterPolicy p) k = KeyMayMatch (InternalFilterPolicy p) k'"
  by (simp add: InternalFilterPolicy_def)

context table_format
begin

lemma InternalGet_version:
  assumes uc: "user_comparator uc" "opt_comparator options = InternalKeyComparator uc"
    and pol: "opt_filter_policy options = map_option InternalFilterPolicy pol" "\<And>p. pol = Some p \<Longrightarrow> filter_policy_laws p"
    and rf: "random_access_file rf holds" and ca: "value_cache ca stored" and tf: "table_file data bs ess ixs" and op: "opened bs ess ixs rf t"
    and small: "length data < 2 ^ 31" and wc: "table_world holds stored data bs ess t wc"
    and get: "InternalGet sn ca t ro k wc = (s, saved, wc')"
    and i: "i = lower_bound compare k (concat ess)" "i < length (concat ess)" "ExtractUserKey (fst (concat ess ! i)) = ExtractUserKey k"
  shows "saved = Some (concat ess ! i)"
proof -
  define j where "j = lower_bound compare k ixs"
  define m where "m = lower_bound compare k (ess ! j)"
  note facts = table_file_facts [OF tf]
  note gap = user_comparator.separator_gap [OF uc(1)]
  have c: "compare = internal_Compare uc" "FindShortestSeparator (opt_comparator options) = internal_FindShortestSeparator uc"
    unfolding uc(2) by (simp_all add: InternalKeyComparator_def)
  have m: "m < length (ess ! j)"
  proof (rule ccontr)
    assume n: "\<not> m < length (ess ! j)"
    note g = get_in_block [OF tf i(2) [unfolded i(1)] j_def n [unfolded m_def]]
    have "compare k (fst (concat ess ! i)) \<le> 0"
      using lower_bound_above [of compare k "concat ess"] i(1,2) cmp_le_flip by (metis linorder_not_less)
    then have "compare (fst (last (ess ! j))) (fst (concat ess ! i)) < 0" by (rule cmp_less_le_trans [OF g(2)])
    from gap [OF this [unfolded c] g(2) [unfolded c]] g(3,4) show False
      using i(1,3) by (simp add: c)
  qed
  have jx: "j < length ixs"
    using lower_bound_none [OF tf, of k] i(1,2) lower_bound_le [of compare k ixs] unfolding j_def by (metis le_neq_implies_less less_irrefl)
  have lb: "concat ess ! i = ess ! j ! m" using lower_bound_block [OF tf j_def jx m_def m] i(1) by simp
  have "filter_policy_laws p \<and> KeyMayMatch p k = KeyMayMatch p (fst (ess ! j ! m))" if "opt_filter_policy options = Some p" for p
    using that pol i(3) lb internal_match_cong [of k "fst (ess ! j ! m)"] by (cases pol) (auto simp: internal_filter_policy_laws)
  then have "\<not> filtered bs ess j k"
    using m jx facts(3) by (intro not_filtered [OF tf small, where e = "ess ! j ! m"]) simp_all
  then show ?thesis
    using InternalGet_spec [OF rf ca tf op small wc get j_def] m jx lb unfolding m_def by simp
qed

end

section \<open>From the builder to the reader\<close>

lemma built_table:
  assumes "snappy_laws sn" "comparator_laws (opt_comparator options) valid" "0 < opt_block_restart_interval options"
    and dest: "writable_file dest live contents" and rf: "random_access_file rf holds" and ca: "value_cache ca stored"
    and w: "live w" "contents w = []"
    and es: "sorted_wrt (\<lambda>a b. Compare (opt_comparator options) (fst a) (fst b) < 0) es" "\<forall>e \<in> set es. valid (fst e)"
    and bt: "build_table sn dest options es w = (s, r, w')" "ok s"
    and v: "holds (contents w') v" "stored (\<lambda>k b. take 8 k \<noteq> EncodeFixed64 (fst (ca_NewId ca c))) c" "opt_block_cache options"
  obtains t v' bs ess ixs where "table_format sn options valid"
    "Table_Open sn ca options rf (TableBuilder_FileSize r) (v, c) = (Inr t, v', snd (ca_NewId ca c))"
    "table_format.table_file sn options valid (contents w') bs ess ixs" "concat ess = es" "table_format.opened options bs ess ixs rf t"
    "table_format.table_world options holds stored (contents w') bs ess t (v', snd (ca_NewId ca c))"
    "length (contents w') < 2 ^ 31"
proof -
  have tfm: "table_format sn options valid"
    using assms(1-3) by (intro table_format.intro table_format_axioms.intro)
  have tw: "table_writer sn options valid dest live contents"
    using tfm dest by (intro table_writer.intro)
  have keys: "table_format.keys_ok options valid es"
    using es by (simp add: table_format.keys_ok_def [OF tfm])
  obtain bs ess ixs where tf: "table_format.table_file sn options valid (contents w') bs ess ixs" "concat ess = es"
    and sz: "TableBuilder_FileSize r = word_of_nat (length (contents w'))"
    using table_writer.build_table_file [OF tw w keys bt] by blast
  obtain t v' where o: "Table_Open sn ca options rf (TableBuilder_FileSize r) (v, c) = (Inr t, v', snd (ca_NewId ca c))"
    "holds (contents w') v'" "table_format.opened options bs ess ixs rf t" "t_cache_id t = fst (ca_NewId ca c)"
    using table_format.Table_Open_ok [OF tfm rf v(1) tf(1), of ca c] v(3) unfolding sz by auto
  have "stored (table_format.cached options t bs ess) (snd (ca_NewId ca c))"
  proof (rule value_cache.new_id [OF ca])
    have g: "table_format.cached options t bs ess k b" if "take 8 k \<noteq> EncodeFixed64 (fst (ca_NewId ca c))" for k b
      using that by (auto simp: table_format.cached_def [OF tfm] o(4) cache_key_def)
    show "stored (table_format.cached options t bs ess) c"
      by (rule value_cache.weaken [OF ca, of "\<lambda>k b. take 8 k \<noteq> EncodeFixed64 (fst (ca_NewId ca c))" c "table_format.cached options t bs ess"]) (rule v(2), erule g)
  qed
  then show ?thesis
    using o tf tfm random_access_file.small [OF rf o(2)] by (intro that) (auto simp: table_format.table_world_def [OF tfm])
qed

section \<open>A sample table\<close>

definition demo_entries :: entries where
  "demo_entries = [(InternalKey [97] 2 kTypeValue, [1]), (InternalKey [98] 3 kTypeDeletion, []), (InternalKey [98] 1 kTypeValue, [2])]"

definition demo_options :: Options where
  "demo_options = default_Options\<lparr>opt_comparator := InternalKeyComparator BytewiseComparator, opt_block_cache := True,
     opt_filter_policy := Some (InternalFilterPolicy (NewBloomFilterPolicy 10))\<rparr>"

definition demo_world :: "slice \<Rightarrow> mem_world" where
  "demo_world data = \<lparr>mw_files = [str ''5.sst'' \<mapsto> data], mw_handles = [1 \<mapsto> (str ''5.sst'', 0)], mw_next = 2\<rparr>"

definition demo_dest :: "mem_world WritableFile" where
  "demo_dest = UnSecurePosixWritableFile mem_io (str ''5.sst'') 1"

definition demo_table :: "status \<times> TableBuilder \<times> mem_world" where
  "demo_table = build_table no_snappy demo_dest demo_options demo_entries (demo_world [])"

lemma demo_Append: "length d < 2 ^ 31 \<Longrightarrow> wf_Append demo_dest d (demo_world data) = (OK, demo_world (data @ d))"
  by (simp add: demo_dest_def demo_world_def UnSecurePosixWritableFile_def ocall_fwrite_def mem_io_def mem_fwrite_def)

lemma demo_Flush: "wf_Flush demo_dest w = (OK, w)"
  by (simp add: demo_dest_def UnSecurePosixWritableFile_def Posix_Flush_def mem_io_def)

lemma demo_WriteRawBlock:
  assumes "length d < 2 ^ 31"
  shows "WriteRawBlock demo_dest d t r (demo_world data) =
    (\<lparr>bh_offset = tb_offset r, bh_size = word_of_nat (length d)\<rparr>,
     r\<lparr>tb_status := OK, tb_offset := tb_offset r + word_of_nat (length d) + word_of_nat kBlockTrailerSize\<rparr>,
     demo_world (data @ d @ block_trailer t d))"
  using assms demo_Append [of "block_trailer t d"] by (simp add: WriteRawBlock_def demo_Append kBlockTrailerSize_def)

lemma demo_WriteBlock:
  assumes "CurrentSizeEstimate b < 2 ^ 31" "opt_compression (tb_options r) = kNoCompression"
  shows "\<exists>h b' r' data'. WriteBlock no_snappy demo_dest b r (demo_world data) = (h, b', r', demo_world (data @ data')) \<and>
    tb_status r' = OK \<and> (\<exists>n. r' = r\<lparr>tb_status := OK, tb_offset := n\<rparr>) \<and> length data' = CurrentSizeEstimate b + kBlockTrailerSize"
  using assms length_Finish [of b]
  by (simp add: WriteBlock_def compress_block_def demo_WriteRawBlock Let_def case_prod_unfold) fastforce

lemma Add_no_flush:
  assumes "ok (tb_status r)" "\<not> tb_pending_index_entry r"
    "CurrentSizeEstimate (BlockBuilder_Add (opt_block_restart_interval (tb_options r)) k v (tb_data_block r)) < opt_block_size (tb_options r)"
  shows "TableBuilder_Add sn dest k v r w =
    ((map_filter (\<lambda>p. AddKey k) r)\<lparr>tb_last_key := k, tb_num_entries := tb_num_entries r + 1,
       tb_data_block := BlockBuilder_Add (opt_block_restart_interval (tb_options r)) k v (tb_data_block r)\<rparr>, w)"
  using assms by (auto simp: TableBuilder_Add_def map_filter_def Let_def split: option.splits)

lemma adds_no_flush:
  assumes "ok (tb_status r)" "\<not> tb_pending_index_entry r" "opt_filter_policy (tb_options r) = Some p" "tb_filter_block r = Some fb"
    "CurrentSizeEstimate (tb_data_block r) + (\<Sum>(k, v) \<leftarrow> es. 19 + length k + length v) < opt_block_size (tb_options r)"
  shows "\<exists>r'. fold (\<lambda>(k, v) (r, w). TableBuilder_Add sn dest k v r w) es (r, w) = (r', w) \<and> ok (tb_status r') \<and>
    \<not> tb_pending_index_entry r' \<and> tb_options r' = tb_options r \<and> tb_index_block r' = tb_index_block r \<and> tb_offset r' = tb_offset r \<and>
    tb_filter_block r' = Some (fold (\<lambda>(k, v). AddKey k) es fb) \<and> tb_last_key r' = (if es = [] then tb_last_key r else fst (last es)) \<and>
    CurrentSizeEstimate (tb_data_block r') \<le> CurrentSizeEstimate (tb_data_block r) + (\<Sum>(k, v) \<leftarrow> es. 19 + length k + length v)"
  using assms
proof (induction es arbitrary: r fb)
  case (Cons e es)
  obtain k v where e: "e = (k, v)" by fastforce
  let ?n = "opt_block_restart_interval (tb_options r)"
  let ?r = "(map_filter (\<lambda>p. AddKey k) r)\<lparr>tb_last_key := k, tb_num_entries := tb_num_entries r + 1, tb_data_block := BlockBuilder_Add ?n k v (tb_data_block r)\<rparr>"
  have n: "CurrentSizeEstimate (BlockBuilder_Add ?n k v (tb_data_block r)) \<le> CurrentSizeEstimate (tb_data_block r) + 19 + length k + length v"
    by (rule CurrentSizeEstimate_Add)
  then have "TableBuilder_Add sn dest k v r w = (?r, w)"
    using Cons.prems by (intro Add_no_flush) (simp_all add: e)
  moreover have "ok (tb_status ?r)" "\<not> tb_pending_index_entry ?r" "tb_options ?r = tb_options r" "tb_index_block ?r = tb_index_block r"
    "tb_offset ?r = tb_offset r" "tb_filter_block ?r = Some (AddKey k fb)" "tb_last_key ?r = k"
    using Cons.prems by (simp_all add: map_filter_def)
  moreover have "CurrentSizeEstimate (tb_data_block ?r) + (\<Sum>(k, v) \<leftarrow> es. 19 + length k + length v) < opt_block_size (tb_options r)"
    using n Cons.prems(5) by (simp add: e)
  ultimately show ?case
    using Cons.IH [of ?r "AddKey k fb"] n Cons.prems(3) by (auto simp: e)
qed simp

lemma demo_adds:
  "\<exists>r fb. fold (\<lambda>(k, v) (r, w). TableBuilder_Add no_snappy demo_dest k v r w) demo_entries (new_TableBuilder demo_options, w) = (r, w) \<and>
    ok (tb_status r) \<and> \<not> tb_pending_index_entry r \<and> tb_options r = demo_options \<and> tb_index_block r = new_BlockBuilder \<and> tb_offset r = 0 \<and>
    tb_filter_block r = Some fb \<and> fb = fold (\<lambda>(k, v). AddKey k) demo_entries new_FilterBlockBuilder \<and>
    tb_last_key r = InternalKey [98] 1 kTypeValue \<and> CurrentSizeEstimate (tb_data_block r) < 200"
proof -
  let ?p = "InternalFilterPolicy (NewBloomFilterPolicy 10)"
  have st: "StartBlock ?p 0 new_FilterBlockBuilder = new_FilterBlockBuilder"
    by (simp add: StartBlock_def StartBlock_loop.simps new_FilterBlockBuilder_def)
  have "8 + (\<Sum>(k, v) \<leftarrow> demo_entries. 19 + length k + length v) < 200"
    "demo_entries \<noteq> []" "fst (last demo_entries) = InternalKey [98] 1 kTypeValue"
    by (simp_all add: demo_entries_def InternalKey_eq)
  then show ?thesis
    using adds_no_flush [of "new_TableBuilder demo_options" ?p new_FilterBlockBuilder demo_entries no_snappy demo_dest w]
    by (auto simp: new_TableBuilder_def map_filter_def demo_options_def default_Options_def st CurrentSizeEstimate_def new_BlockBuilder_def)
qed

lemma StartBlock_small: "off < 2048 \<Longrightarrow> StartBlock p off fb = fb"
  by (simp add: StartBlock_def StartBlock_loop.simps kFilterBase_def kFilterBaseLg_def word_less_nat_alt unat_div)

lemma demo_Flush_step:
  assumes "ok (tb_status r)" "tb_options r = demo_options" "tb_filter_block r = Some fb" "CurrentSizeEstimate (tb_data_block r) < 200" "tb_offset r = 0"
  shows "\<exists>r' data. TableBuilder_Flush no_snappy demo_dest r (demo_world []) = (r', demo_world data) \<and> ok (tb_status r') \<and>
    tb_options r' = demo_options \<and> tb_index_block r' = tb_index_block r \<and> tb_last_key r' = tb_last_key r \<and> tb_filter_block r' = Some fb \<and>
    length data < 300"
proof (cases "bb_buffer (tb_data_block r) = []")
  case False
  let ?d = "fst (BlockBuilder_Finish (tb_data_block r))"
  have d: "length ?d < 200" using assms(4) by (simp add: length_Finish)
  have "word_of_nat (length ?d) + word_of_nat kBlockTrailerSize < (2048 :: u64)"
    using d by (simp add: word_less_nat_alt unat_word_ariths unat_of_nat kBlockTrailerSize_def)
  moreover have "opt_compression demo_options = kNoCompression" "opt_filter_policy demo_options = Some (InternalFilterPolicy (NewBloomFilterPolicy 10))"
    by (simp_all add: demo_options_def default_Options_def)
  ultimately show ?thesis
    using False assms d by (auto simp: TableBuilder_Flush_def WriteBlock_def compress_block_def demo_WriteRawBlock demo_Flush map_filter_def
        StartBlock_small Let_def case_prod_unfold kBlockTrailerSize_def)
qed (use assms in \<open>auto simp: TableBuilder_Flush_def intro!: exI [of _ "[]"]\<close>)

lemma demo_write_index:
  assumes "tb_options r = demo_options" "tb_index_block r = new_BlockBuilder" "tb_last_key r = InternalKey [98] 1 kTypeValue"
  shows "\<exists>h r' data'. write_index no_snappy demo_dest r (demo_world data) = (h, r', demo_world (data @ data')) \<and> ok (tb_status r') \<and> length data' < 100"
proof -
  let ?r = "if tb_pending_index_entry r then add_index_entry (FindShortSuccessor (opt_comparator (tb_options r)) (tb_last_key r)) r else r"
  have o: "opt_comparator demo_options = InternalKeyComparator BytewiseComparator" "opt_compression demo_options = kNoCompression"
    by (simp_all add: demo_options_def default_Options_def)
  have "length (internal_FindShortSuccessor BytewiseComparator (InternalKey [98] 1 kTypeValue)) \<le> 9"
    by (simp add: internal_FindShortSuccessor_def Let_def PutFixed64_def)
  then have n: "CurrentSizeEstimate (tb_index_block ?r) < 90"
    using assms CurrentSizeEstimate_Add [of 1 "FindShortSuccessor (opt_comparator (tb_options r)) (tb_last_key r)"
        "BlockHandle_EncodeTo (tb_pending_handle r) []" new_BlockBuilder] length_BlockHandle [of "tb_pending_handle r"]
    by (auto simp: add_index_entry_def o InternalKeyComparator_def CurrentSizeEstimate_def new_BlockBuilder_def kMaxEncodedLength_def)
  have "opt_compression (tb_options ?r) = kNoCompression" using assms o by (simp add: add_index_entry_def)
  then obtain h b' r' data' where w: "WriteBlock no_snappy demo_dest (tb_index_block ?r) ?r (demo_world data) = (h, b', r', demo_world (data @ data'))"
    "tb_status r' = OK" "length data' = CurrentSizeEstimate (tb_index_block ?r) + kBlockTrailerSize"
    using demo_WriteBlock [of "tb_index_block ?r" ?r data] n by auto
  show ?thesis
    using n w by (intro exI [of _ h] exI [of _ "r'\<lparr>tb_index_block := b'\<rparr>"] exI [of _ data'])
      (simp add: write_index_def Let_def kBlockTrailerSize_def split del: if_split)
qed

lemma demo_write_meta:
  assumes "tb_options r = demo_options" "tb_filter_block r = Some fb"
  shows "\<exists>h b' r' data'. WriteBlock no_snappy demo_dest (meta_index_block fh r) r (demo_world data) = (h, b', r', demo_world (data @ data')) \<and>
    ok (tb_status r') \<and> tb_options r' = demo_options \<and> tb_index_block r' = tb_index_block r \<and> tb_last_key r' = tb_last_key r \<and> length data' < 200"
proof -
  have o: "opt_filter_policy demo_options = Some (InternalFilterPolicy (NewBloomFilterPolicy 10))" "opt_compression demo_options = kNoCompression"
    by (simp_all add: demo_options_def default_Options_def)
  have "length (filter_key (InternalFilterPolicy (NewBloomFilterPolicy 10))) < 60"
    by (simp add: filter_key_def InternalFilterPolicy_def NewBloomFilterPolicy_def str_def)
  then have "CurrentSizeEstimate (meta_index_block fh r) < 150"
    using assms CurrentSizeEstimate_Add [of "opt_block_restart_interval demo_options" "filter_key (InternalFilterPolicy (NewBloomFilterPolicy 10))"
        "BlockHandle_EncodeTo fh []" new_BlockBuilder] length_BlockHandle [of fh]
    by (auto simp: meta_index_block_def o CurrentSizeEstimate_def new_BlockBuilder_def kMaxEncodedLength_def)
  with demo_WriteBlock [of "meta_index_block fh r" r data] assms(1) o
  obtain h b' n data' where "WriteBlock no_snappy demo_dest (meta_index_block fh r) r (demo_world data) =
      (h, b', r\<lparr>tb_status := OK, tb_offset := n\<rparr>, demo_world (data @ data'))" "length data' < 200"
    by (auto simp: kBlockTrailerSize_def)
  then show ?thesis
    using assms(1) by (intro exI [of _ h] exI [of _ b'] exI [of _ "r\<lparr>tb_status := OK, tb_offset := n\<rparr>"] exI [of _ data']) simp
qed

lemma demo_filter_small: "length (Finish_filter (InternalFilterPolicy (NewBloomFilterPolicy 10)) (fold (\<lambda>(k, v). AddKey k) demo_entries new_FilterBlockBuilder)) < 1000"
  by (simp add: new_FilterBlockBuilder_def AddKey_def GenerateFilter_def Finish_filter_def PutFixed32_def Let_def demo_entries_def
        InternalFilterPolicy_def NewBloomFilterPolicy_def bloom_CreateFilter_def fb_tmp_keys_def)

lemma demo_table_ok: "ok (fst demo_table) \<and> (\<exists>data. snd (snd demo_table) = demo_world data \<and> length data < 2 ^ 31)"
proof -
  let ?p = "InternalFilterPolicy (NewBloomFilterPolicy 10)"
  have o: "opt_filter_policy demo_options = Some ?p" by (simp add: demo_options_def)
  obtain r fb where r: "fold (\<lambda>(k, v) (r, w). TableBuilder_Add no_snappy demo_dest k v r w) demo_entries (new_TableBuilder demo_options, demo_world []) = (r, demo_world [])"
    "ok (tb_status r)" "tb_options r = demo_options" "tb_index_block r = new_BlockBuilder" "tb_offset r = 0"
    "tb_filter_block r = Some fb" "fb = fold (\<lambda>(k, v). AddKey k) demo_entries new_FilterBlockBuilder"
    "tb_last_key r = InternalKey [98] 1 kTypeValue" "CurrentSizeEstimate (tb_data_block r) < 200"
    using demo_adds [of "demo_world []"] by blast
  obtain r1 d1 where f: "TableBuilder_Flush no_snappy demo_dest r (demo_world []) = (r1, demo_world d1)" "ok (tb_status r1)"
    "tb_options r1 = demo_options" "tb_index_block r1 = new_BlockBuilder" "tb_last_key r1 = InternalKey [98] 1 kTypeValue"
    "tb_filter_block r1 = Some fb" "length d1 < 300"
    using demo_Flush_step [OF r(2,3,6,9,5)] r(4,8) by auto
  let ?f = "Finish_filter ?p fb"
  have fl: "length ?f < 1000" using demo_filter_small r(7) by simp
  let ?r1 = "r1\<lparr>tb_closed := True\<rparr>"
  obtain fh r2 where wf: "write_filter demo_dest ?r1 (demo_world d1) = (fh, r2, demo_world (d1 @ ?f @ block_trailer kNoCompression ?f))" "ok (tb_status r2)"
    "tb_options r2 = demo_options" "tb_index_block r2 = new_BlockBuilder" "tb_last_key r2 = InternalKey [98] 1 kTypeValue" "tb_filter_block r2 = Some fb"
    using f fl o by (auto simp: write_filter_def demo_WriteRawBlock)
  obtain mh b' r3 d3 where m: "WriteBlock no_snappy demo_dest (meta_index_block fh r2) r2 (demo_world (d1 @ ?f @ block_trailer kNoCompression ?f)) =
      (mh, b', r3, demo_world ((d1 @ ?f @ block_trailer kNoCompression ?f) @ d3))"
    "ok (tb_status r3)" "tb_options r3 = demo_options" "tb_index_block r3 = new_BlockBuilder" "tb_last_key r3 = InternalKey [98] 1 kTypeValue" "length d3 < 200"
    using demo_write_meta [OF wf(3,6), of fh] wf by metis
  obtain ih r4 d4 where i: "write_index no_snappy demo_dest r3 (demo_world ((d1 @ ?f @ block_trailer kNoCompression ?f) @ d3)) =
      (ih, r4, demo_world (((d1 @ ?f @ block_trailer kNoCompression ?f) @ d3) @ d4))" "ok (tb_status r4)" "length d4 < 100"
    using demo_write_index [OF m(3,4,5)] by blast
  have "length (Footer_EncodeTo ft []) < 2 ^ 31" for ft by simp
  note ft = demo_Append [OF this]
  show ?thesis
    using r(1) f wf m i fl unfolding demo_table_def build_table_def TableBuilder_Finish_def
    by (simp add: write_footer_def ft kBlockTrailerSize_def) (rule exI, rule conjI, rule refl, simp add: kBlockTrailerSize_def)
qed

lemma demo_setting:
  "comparator_laws (opt_comparator demo_options) (\<lambda>k. 8 \<le> length k)" "0 < opt_block_restart_interval demo_options"
  "writable_file demo_dest (mem.live 1 (str ''5.sst'')) (mem.contents (str ''5.sst''))" "mem.live 1 (str ''5.sst'') (demo_world [])"
  "mem.contents (str ''5.sst'') (demo_world data) = data" "opt_block_cache demo_options"
  "sorted_wrt (\<lambda>a b. Compare (opt_comparator demo_options) (fst a) (fst b) < 0) demo_entries" "\<forall>e \<in> set demo_entries. 8 \<le> length (fst e)"
proof -
  have c: "opt_comparator demo_options = InternalKeyComparator BytewiseComparator" by (simp add: demo_options_def)
  show "comparator_laws (opt_comparator demo_options) (\<lambda>k. 8 \<le> length k)"
    unfolding c by (rule bytewise_user.internal.comparator_laws_axioms)
  show "writable_file demo_dest (mem.live 1 (str ''5.sst'')) (mem.contents (str ''5.sst''))"
    unfolding demo_dest_def by (rule mem.unsecure_wf.writable_file_axioms)
  show "sorted_wrt (\<lambda>a b. Compare (opt_comparator demo_options) (fst a) (fst b) < 0) demo_entries"
    unfolding c demo_entries_def by (simp add: internal_Compare_tag Let_def Slice_compare_def PackSequenceAndType_def)
qed (simp_all add: demo_options_def default_Options_def mem.live_def mem.contents_def demo_world_def demo_entries_def InternalKey_eq)

lemma demo_file:
  "length (mem.contents (str ''5.sst'') (snd (snd demo_table))) < 2 ^ 31 \<and>
   mw_files (snd (snd demo_table)) (str ''5.sst'') = Some (mem.contents (str ''5.sst'') (snd (snd demo_table)))"
  using demo_table_ok by (auto simp: mem.contents_def demo_world_def)

text \<open>The sample table meets the contract of the two-level iterator.\<close>

definition are_levels where
  "are_levels = (\<lambda>(t, ixs, iinv, ipos, block, dinv, dpos, winv).
     two_level (Compare (opt_comparator demo_options)) (any_Block (opt_comparator demo_options)) (any_Block (opt_comparator demo_options))
       (BlockReader no_snappy ShardedCache (t :: mem_world Table) default_ReadOptions) ixs iinv ipos block dinv dpos winv \<and>
     concat (map (block \<circ> snd) ixs) = demo_entries)"

definition demo_levels where
  "demo_levels = (SOME l. are_levels l)"

lemma demo_levels: "are_levels demo_levels"
proof -
  obtain s r w' where d: "demo_table = (s, r, w')" by (metis surj_pair)
  note h = demo_file [unfolded d snd_conv]
  have bt: "build_table no_snappy demo_dest demo_options demo_entries (demo_world []) = (s, r, w')" "ok s"
    using d demo_table_ok by (simp_all only: demo_table_def fst_conv)
  obtain t v' bs ess ixs where t: "table_format no_snappy demo_options (\<lambda>k. 8 \<le> length k)"
    "table_format.table_file no_snappy demo_options (\<lambda>k. 8 \<le> length k) (mem.contents (str ''5.sst'') w') bs ess ixs" "concat ess = demo_entries"
    "table_format.opened demo_options bs ess ixs (mem_table (str ''5.sst'')) t" "length (mem.contents (str ''5.sst'') w') < 2 ^ 31"
    by (rule built_table [where sn = no_snappy and options = demo_options and dest = demo_dest and
      live = "mem.live 1 (str ''5.sst'')" and contents = "mem.contents (str ''5.sst'')" and rf = "mem_table (str ''5.sst'')" and
      holds = "\<lambda>data w. length data < 2 ^ 31 \<and> mw_files w (str ''5.sst'') = Some data" and ca = ShardedCache and stored = sc_holds and
      w = "demo_world []" and es = demo_entries and s = s and r = r and w' = w' and v = w' and c = "NewLRUCache 8388608" and
      valid = "\<lambda>k. 8 \<le> length k"])
      (rule demo_setting bt h NewLRUCache_holds no_snappy.snappy_laws_axioms mem_table.random_access_file_axioms sharded.value_cache_axioms | assumption)+
  obtain iinv ipos block dinv dpos where "two_level (Compare (opt_comparator demo_options)) (any_Block (opt_comparator demo_options))
      (any_Block (opt_comparator demo_options)) (BlockReader no_snappy ShardedCache t default_ReadOptions) ixs iinv ipos block dinv dpos
      (table_format.table_world demo_options (\<lambda>data w. length data < 2 ^ 31 \<and> mw_files w (str ''5.sst'') = Some data) sc_holds
        (mem.contents (str ''5.sst'') w') bs ess t)"
    "concat (map (block \<circ> snd) ixs) = demo_entries"
    by (rule table_format.table_two_level [OF t(1) mem_table.random_access_file_axioms sharded.value_cache_axioms t(2,4,5)])
      (rule that, assumption, simp only: t(3))
  then have "are_levels (t, ixs, iinv, ipos, block, dinv, dpos, table_format.table_world demo_options
      (\<lambda>data w. length data < 2 ^ 31 \<and> mw_files w (str ''5.sst'') = Some data) sc_holds (mem.contents (str ''5.sst'') w') bs ess t)"
    unfolding are_levels_def by simp
  then show ?thesis
    unfolding demo_levels_def by (rule someI [of are_levels])
qed

interpretation demo_levels: two_level "Compare (opt_comparator demo_options)" "any_Block (opt_comparator demo_options)"
  "any_Block (opt_comparator demo_options)" "BlockReader no_snappy ShardedCache (fst demo_levels) default_ReadOptions" "fst (snd demo_levels)"
  "fst (snd (snd demo_levels))" "fst (snd (snd (snd demo_levels)))" "fst (snd (snd (snd (snd demo_levels))))"
  "fst (snd (snd (snd (snd (snd demo_levels)))))" "fst (snd (snd (snd (snd (snd (snd demo_levels))))))"
  "snd (snd (snd (snd (snd (snd (snd demo_levels))))))"
  using demo_levels unfolding are_levels_def by (simp add: case_prod_unfold)

section \<open>Properties\<close>

text \<open>C2: A table that \<open>TableBuilder\<close> has written with success opens, and the iterator of the opened table is an iterator over
  exactly the entries that were added: every position, seek and step on it, through the index block, the data blocks, the
  checksums and the block cache, answers as on the plain sequence of entries.\<close>

theorem table_roundtrip:
  assumes "snappy_laws sn" "comparator_laws (opt_comparator options) valid" "0 < opt_block_restart_interval options"
    and "writable_file dest live contents" "random_access_file rf holds" "value_cache ca stored" "live w" "contents w = []"
    and "sorted_wrt (\<lambda>a b. Compare (opt_comparator options) (fst a) (fst b) < 0) es" "\<forall>e \<in> set es. valid (fst e)"
    and "build_table sn dest options es w = (s, r, w')" "ok s"
    and "holds (contents w') v" "stored (\<lambda>k b. take 8 k \<noteq> EncodeFixed64 (fst (ca_NewId ca c))) c" "opt_block_cache options"
  shows "\<exists>t v' c' I pos. Table_Open sn ca options rf (TableBuilder_FileSize r) (v, c) = (Inr t, v', c') \<and>
    seq_iterator (TableIterator sn ca t ro) (Compare (opt_comparator options)) es I pos \<and> I (Table_NewIterator t (v', c'))"
proof -
  obtain t v' bs ess ixs where t: "table_format sn options valid"
    "Table_Open sn ca options rf (TableBuilder_FileSize r) (v, c) = (Inr t, v', snd (ca_NewId ca c))"
    "table_format.table_file sn options valid (contents w') bs ess ixs" "concat ess = es" "table_format.opened options bs ess ixs rf t"
    "table_format.table_world options holds stored (contents w') bs ess t (v', snd (ca_NewId ca c))" "length (contents w') < 2 ^ 31"
    by (rule built_table [OF assms])
  obtain I pos where "seq_iterator (TableIterator sn ca t ro) (Compare (opt_comparator options)) es I pos"
    "I (Table_NewIterator t (v', snd (ca_NewId ca c)))"
    using table_format.table_iterator [OF t(1) assms(5,6) t(3,5,7), of ro] t(4,6) by auto
  with t(2) show ?thesis by (intro exI [of _ t] exI [of _ v'] exI [of _ "snd (ca_NewId ca c)"] exI [of _ I] exI [of _ pos]) simp
qed

theorem table_roundtrip_witness:
  "\<exists>t v' c' I pos. Table_Open no_snappy ShardedCache demo_options (mem_table (str ''5.sst'')) (TableBuilder_FileSize (fst (snd demo_table)))
      (snd (snd demo_table), NewLRUCache 8388608) = (Inr t, v', c') \<and>
    seq_iterator (TableIterator no_snappy ShardedCache t default_ReadOptions) (Compare (opt_comparator demo_options)) demo_entries I pos \<and>
    I (Table_NewIterator t (v', c'))"
proof -
  obtain s r w' where d: "demo_table = (s, r, w')" by (metis surj_pair)
  note h = demo_file [unfolded d snd_conv]
  have bt: "build_table no_snappy demo_dest demo_options demo_entries (demo_world []) = (s, r, w')" "ok s"
    using d demo_table_ok by (simp_all only: demo_table_def fst_conv)
  show ?thesis
    unfolding d fst_conv snd_conv
    by (rule table_roundtrip [where sn = no_snappy and options = demo_options and dest = demo_dest and
      live = "mem.live 1 (str ''5.sst'')" and contents = "mem.contents (str ''5.sst'')" and rf = "mem_table (str ''5.sst'')" and
      holds = "\<lambda>data w. length data < 2 ^ 31 \<and> mw_files w (str ''5.sst'') = Some data" and ca = ShardedCache and stored = sc_holds and
      w = "demo_world []" and es = demo_entries and s = s and r = r and w' = w' and v = w' and c = "NewLRUCache 8388608" and
      valid = "\<lambda>k. 8 \<le> length k"])
      (rule demo_setting bt h NewLRUCache_holds no_snappy.snappy_laws_axioms mem_table.random_access_file_axioms sharded.value_cache_axioms)+
qed

text \<open>C3: A lookup in a table of internal keys that \<open>TableBuilder\<close> has written with success reports no error; the entry
  that \<open>InternalGet\<close> passes to its callback is the first one of the table at or after the lookup key; and when that first entry is a
  version of the user key that is looked up, the lookup does pass it on: neither the shortened keys of the index nor the
  filter of the table hides it.\<close>

theorem table_lookup:
  assumes "snappy_laws sn" "user_comparator uc" "opt_comparator options = InternalKeyComparator uc"
    and "opt_filter_policy options = map_option InternalFilterPolicy pol" "\<forall>p. pol = Some p \<longrightarrow> filter_policy_laws p"
    and "0 < opt_block_restart_interval options"
    and "writable_file dest live contents" "random_access_file rf holds" "value_cache ca stored" "live w" "contents w = []"
    and "sorted_wrt (\<lambda>a b. internal_Compare uc (fst a) (fst b) < 0) es" "\<forall>e \<in> set es. 8 \<le> length (fst e)"
    and "build_table sn dest options es w = (s, r, w')" "ok s"
    and "holds (contents w') v" "stored (\<lambda>k b. take 8 k \<noteq> EncodeFixed64 (fst (ca_NewId ca c))) c" "opt_block_cache options"
    and "i = lower_bound (internal_Compare uc) k es"
  shows "\<exists>t v' c' s' saved vc. Table_Open sn ca options rf (TableBuilder_FileSize r) (v, c) = (Inr t, v', c') \<and>
    InternalGet sn ca t ro k (v', c') = (s', saved, vc) \<and> ok s' \<and> saved \<in> {None, if i < length es then Some (es ! i) else None} \<and>
    (i < length es \<and> ExtractUserKey (fst (es ! i)) = ExtractUserKey k \<longrightarrow> saved = Some (es ! i))"
proof -
  have laws: "comparator_laws (opt_comparator options) (\<lambda>k. 8 \<le> length k)"
    unfolding assms(3) by (rule user_comparator.internal_laws [OF assms(2)])
  have sorted: "sorted_wrt (\<lambda>a b. Compare (opt_comparator options) (fst a) (fst b) < 0) es" using assms(3,12) by simp
  obtain t v' bs ess ixs where t: "table_format sn options (\<lambda>k. 8 \<le> length k)"
    "Table_Open sn ca options rf (TableBuilder_FileSize r) (v, c) = (Inr t, v', snd (ca_NewId ca c))"
    "table_format.table_file sn options (\<lambda>k. 8 \<le> length k) (contents w') bs ess ixs" "concat ess = es" "table_format.opened options bs ess ixs rf t"
    "table_format.table_world options holds stored (contents w') bs ess t (v', snd (ca_NewId ca c))" "length (contents w') < 2 ^ 31"
    by (rule built_table [OF assms(1) laws assms(6-11) sorted assms(13-18)])
  obtain s' saved vc where g: "InternalGet sn ca t ro k (v', snd (ca_NewId ca c)) = (s', saved, vc)" by (metis surj_pair)
  note a = assms(8,9) t(3,5,7,6) g
  have "ok s'" using table_format.InternalGet_spec [OF t(1) a refl] by simp
  moreover have "saved \<in> {None, if i < length es then Some (es ! i) else None}"
    using table_format.InternalGet_first [OF t(1) a] assms(3,19) t(4) by (cases saved) auto
  moreover have "saved = Some (es ! i)" if "i < length es" "ExtractUserKey (fst (es ! i)) = ExtractUserKey k"
    using table_format.InternalGet_version [OF t(1) assms(2-4) _ a, of i] that assms(3,5,19) t(4) by simp
  ultimately show ?thesis
    using t(2) g by (intro exI [of _ t] exI [of _ v'] exI [of _ "snd (ca_NewId ca c)"] exI [of _ s'] exI [of _ saved] exI [of _ vc]) simp
qed

theorem table_lookup_witness:
  "\<exists>t v' c' s' saved vc. Table_Open no_snappy ShardedCache demo_options (mem_table (str ''5.sst'')) (TableBuilder_FileSize (fst (snd demo_table)))
      (snd (snd demo_table), NewLRUCache 8388608) = (Inr t, v', c') \<and>
    InternalGet no_snappy ShardedCache t default_ReadOptions (InternalKey [98] 2 kValueTypeForSeek) (v', c') = (s', saved, vc) \<and>
    ok s' \<and> saved = Some (InternalKey [98] 1 kTypeValue, [2])"
proof -
  obtain s r w' where d: "demo_table = (s, r, w')" by (metis surj_pair)
  note h = demo_file [unfolded d snd_conv]
  have bt: "build_table no_snappy demo_dest demo_options demo_entries (demo_world []) = (s, r, w')" "ok s"
    using d demo_table_ok by (simp_all only: demo_table_def fst_conv)
  have i: "2 = lower_bound (internal_Compare BytewiseComparator) (InternalKey [98] 2 kValueTypeForSeek) demo_entries"
    by (simp add: lower_bound_def demo_entries_def internal_Compare_tag Let_def Slice_compare_def PackSequenceAndType_def kValueTypeForSeek_def)
  have o: "opt_comparator demo_options = InternalKeyComparator BytewiseComparator"
    "opt_filter_policy demo_options = map_option InternalFilterPolicy (Some (NewBloomFilterPolicy 10))"
    "\<forall>p. Some (NewBloomFilterPolicy 10) = Some p \<longrightarrow> filter_policy_laws p"
    "sorted_wrt (\<lambda>a b. internal_Compare BytewiseComparator (fst a) (fst b) < 0) demo_entries" "length demo_entries = 3"
    "demo_entries ! 2 = (InternalKey [98] 1 kTypeValue, [2])"
    using demo_setting(7) bloom.filter_policy_laws_axioms by (simp_all add: demo_options_def demo_entries_def)
  have "\<exists>t v' c' s' saved vc. Table_Open no_snappy ShardedCache demo_options (mem_table (str ''5.sst'')) (TableBuilder_FileSize r)
      (w', NewLRUCache 8388608) = (Inr t, v', c') \<and>
    InternalGet no_snappy ShardedCache t default_ReadOptions (InternalKey [98] 2 kValueTypeForSeek) (v', c') = (s', saved, vc) \<and>
    ok s' \<and> saved \<in> {None, if 2 < length demo_entries then Some (demo_entries ! 2) else None} \<and>
    (2 < length demo_entries \<and> ExtractUserKey (fst (demo_entries ! 2)) = ExtractUserKey (InternalKey [98] 2 kValueTypeForSeek) \<longrightarrow>
      saved = Some (demo_entries ! 2))"
    by (rule table_lookup [where sn = no_snappy and options = demo_options and dest = demo_dest and
      live = "mem.live 1 (str ''5.sst'')" and contents = "mem.contents (str ''5.sst'')" and rf = "mem_table (str ''5.sst'')" and
      holds = "\<lambda>data w. length data < 2 ^ 31 \<and> mw_files w (str ''5.sst'') = Some data" and ca = ShardedCache and stored = sc_holds and
      w = "demo_world []" and es = demo_entries and s = s and r = r and w' = w' and v = w' and c = "NewLRUCache 8388608" and
      uc = BytewiseComparator and pol = "Some (NewBloomFilterPolicy 10)"])
      (rule demo_setting o bt h NewLRUCache_holds i no_snappy.snappy_laws_axioms mem_table.random_access_file_axioms sharded.value_cache_axioms
        bytewise_user.user_comparator_axioms)+
  then show ?thesis
    unfolding d fst_conv snd_conv using o(5,6) by (elim exE conjE) (intro exI conjI, assumption+, simp)
qed

end
