(* ===== verification/Spec2Isabelle.thy ===== *)
theory Spec2Isabelle
  imports Filter_Block Write_Batch Log_Reader Version_Edit Filename Table_Get
begin

text \<open>
  \<^bold>\<open>eLSM-P2: LevelDB inside an enclave.\<close>

  The program under \<^verbatim>\<open>src/\<close> is LevelDB ported into an SGX enclave
  (\<^verbatim>\<open>src/Enclave/leveldb\<close>) with Merkle proofs attached to the tables it writes.

  \<^item> \<^verbatim>\<open>Prelude\<close>: byte strings, words and lists.
  \<^item> \<^verbatim>\<open>Coding\<close>: \<^verbatim>\<open>util/coding.h\<close>, \<^verbatim>\<open>util/coding.cpp\<close>.
\<close>

end
